(* ===== verification/Kernel_Prelude.thy ===== *)
theory Kernel_Prelude
  imports Main "HOL-Library.Word"
begin

text \<open>
  The vocabulary shared by the component theories: the machine integers of the 32-bit ARM
  target, kernel addresses, the error numbers of \<open>include/asm-generic/errno-base.h\<close>, the
  user-space copy routines, and generic lemmas on lists, maps and words.  Two theorem
  collections, \<open>frame_simps\<close> (what an operation leaves alone) and \<open>inv_intros\<close> (what an
  operation keeps of an invariant), are filled by the components.
\<close>

unbundle bit_operations_syntax

named_theorems frame_simps
named_theorems inv_intros

subsection \<open>Types of the target\<close>

type_synonym u8 = "8 word"
type_synonym u16 = "16 word"
type_synonym u32 = "32 word"
type_synonym u64 = "64 word"
type_synonym addr = nat

datatype errno =
  EPERM | ENOENT | ESRCH | EINTR | ENXIO | EBADF | EAGAIN | ENOMEM | EACCES | EFAULT | EBUSY
| EEXIST | ENODEV | EINVAL | EMFILE | ENOTTY | ENOSPC | EPIPE | EDEADLK | ENAMETOOLONG | ENOSYS

subsection \<open>Copies between user and kernel space\<close>

text \<open>
  A user buffer is the list of bytes that can be read at the user pointer.
  \<open>copy_from_user\<close> fills the destination with what could be read, clears the rest of the
  destination, and returns the number of bytes it could not copy; the callers only test that
  number against zero.
\<close>

definition copy_from_user :: "'a::zero list \<Rightarrow> nat \<Rightarrow> 'a list \<times> nat" where
  "copy_from_user src n = (take n src @ replicate (n - length src) 0, n - length src)"

lemma length_copy_from_user [simp]: "length (fst (copy_from_user src n)) = n"
  by (simp add: copy_from_user_def)

lemma copy_from_user_ok: "n \<le> length src \<Longrightarrow> copy_from_user src n = (take n src, 0)"
  by (simp add: copy_from_user_def)

subsection \<open>Lists\<close>

lemma remove1_append_notin: "x \<notin> set xs \<Longrightarrow> remove1 x (xs @ x # ys) = xs @ ys"
  by (simp add: remove1_append)

lemma sum_list_remove1:
  fixes f :: "'a \<Rightarrow> 'b::ab_group_add"
  shows "x \<in> set xs \<Longrightarrow> sum_list (map f (remove1 x xs)) = sum_list (map f xs) - f x"
  by (induction xs) auto

lemma sum_list_map_upd:
  fixes f :: "'a \<Rightarrow> 'b::ab_group_add"
  shows "distinct xs \<Longrightarrow> x \<in> set xs \<Longrightarrow>
    sum_list (map (f(x := v)) xs) = sum_list (map f xs) - (f x - v)"
  by (induction xs) (auto simp: algebra_simps)

lemma sum_list_map_upd_notin:
  "x \<notin> set xs \<Longrightarrow> sum_list (map (f(x := v)) xs) = sum_list (map f xs)"
  by (induction xs) auto

lemma sorted_wrt_remove1: "sorted_wrt P xs \<Longrightarrow> sorted_wrt P (remove1 x xs)"
proof (induction xs)
  case (Cons y ys)
  then show ?case using set_remove1_subset [of x ys] by auto
qed simp

lemma length_remove1_less: "x \<in> set xs \<Longrightarrow> length (remove1 x xs) < length xs"
  by (simp add: length_remove1) (metis length_pos_if_in_set One_nat_def diff_less zero_less_Suc)

text \<open>\<open>insert_before p x xs\<close> puts \<open>x\<close> in front of \<open>p\<close>; for a \<open>p\<close> that is not an element (the
  list head of a circular list) the position in front of it is the end.\<close>

fun insert_before :: "'a \<Rightarrow> 'a \<Rightarrow> 'a list \<Rightarrow> 'a list" where
  "insert_before p x [] = [x]"
| "insert_before p x (y # ys) = (if y = p then x # y # ys else y # insert_before p x ys)"

lemma set_insert_before [simp]: "set (insert_before p x xs) = insert x (set xs)"
  by (induction xs) auto

lemma distinct_insert_before [simp]:
  "distinct (insert_before p x xs) \<longleftrightarrow> x \<notin> set xs \<and> distinct xs"
  by (induction xs) auto

lemma insert_before_notin: "p \<notin> set xs \<Longrightarrow> insert_before p x xs = xs @ [x]"
  by (induction xs) auto

lemma insert_before_split: "p \<notin> set ys \<Longrightarrow> insert_before p x (ys @ p # zs) = ys @ x # p # zs"
  by (induction ys) auto

subsection \<open>Words\<close>

lemma unat_plus_one_less:
  assumes "(x::'a::len word) < y"
  shows "unat (x + 1) = Suc (unat x)"
proof -
  have "unat y < 2 ^ LENGTH('a)" by simp
  with assms have "Suc (unat x) < 2 ^ LENGTH('a)"
    unfolding word_less_nat_alt by linarith
  then show ?thesis by (simp add: unat_word_ariths)
qed

lemma unat_minus_one_less: "(x::'a::len word) < y \<Longrightarrow> unat (y - 1) = unat y - 1"
  by (metis unat_minus_one word_not_simps(1))

lemma uint_le_unat: "unat (y::'a::len word) \<le> n \<Longrightarrow> uint y \<le> int n"
  by (metis of_nat_le_iff uint_nat)

lemma signed_take_bit_31: "- 2147483648 \<le> k \<Longrightarrow> k < 2147483648 \<Longrightarrow> signed_take_bit 31 k = (k::int)"
  by (rule signed_take_bit_int_eq_self) simp_all

lemma sint_eq_uint32: "uint (y::u32) < 2147483648 \<Longrightarrow> sint y = uint y"
proof -
  assume "uint y < 2147483648"
  moreover have "- 2147483648 \<le> uint y" using uint_ge_0 [of y] by linarith
  ultimately show ?thesis by (simp add: sint_uint signed_take_bit_31)
qed

lemma sint_diff32:
  fixes x y :: u32
  assumes "0 < sint x" "unat y \<le> 0x100000"
  shows "sint (x - y) = sint x - int (unat y)"
proof -
  have y: "uint y \<le> 0x100000" using uint_le_unat [OF assms(2)] by simp
  then have s: "sint y = uint y" by (intro sint_eq_uint32) simp
  have "sint x < 2147483648" using sint_lt [of x] by simp
  then have "sint x - sint y < 2147483648" unfolding s using uint_ge_0 [of y] by linarith
  moreover have "- 2147483648 \<le> sint x - sint y" unfolding s using assms(1) y by linarith
  ultimately have "sint (x - y) = sint x - sint y"
    by (simp add: sint_word_ariths signed_take_bit_31)
  then show ?thesis unfolding s uint_nat .
qed

subsection \<open>Flag bits\<close>

lemma word_bit_exp:
  assumes "x = (2::u32) ^ n" "n < 32"
  shows "bit x i \<longleftrightarrow> i = n"
proof -
  have "bit (2 ^ n :: u32) i \<longleftrightarrow> i < 32 \<and> i = n" using bit_push_bit_iff [of n "1::u32" i] by (auto simp: push_bit_eq_mult bit_1_iff)
  with assms show ?thesis by auto
qed

lemma word_bit_consts:
  "bit (1::u32) i \<longleftrightarrow> i = 0" "bit (2::u32) i \<longleftrightarrow> i = 1" "bit (4::u32) i \<longleftrightarrow> i = 2"
  "bit (0x10::u32) i \<longleftrightarrow> i = 4" "bit (0x20::u32) i \<longleftrightarrow> i = 5" "bit (0x40::u32) i \<longleftrightarrow> i = 6"
  "bit (0x08000000::u32) i \<longleftrightarrow> i = 27"
  by (rule word_bit_exp; simp)+

lemma and_bit_iff:
  assumes "x = (2::u32) ^ n" "n < 32"
  shows "w AND x \<noteq> 0 \<longleftrightarrow> bit w n"
proof -
  have b: "bit (w AND x) i \<longleftrightarrow> bit w n \<and> i = n" for i
    using word_bit_exp [OF assms, of i] by (auto simp: bit_and_iff)
  show ?thesis
  proof
    assume "w AND x \<noteq> 0"
    then obtain i where "bit (w AND x) i" using bit_eqI [of "w AND x" 0] by auto
    then show "bit w n" using b by simp
  next
    assume "bit w n"
    then have "bit (w AND x) n" using b by simp
    then show "w AND x \<noteq> 0" by auto
  qed
qed

subsection \<open>Little-endian bytes\<close>

definition le16 :: "u16 \<Rightarrow> u8 list" where
  "le16 x = [ucast x, ucast (drop_bit 8 x)]"

definition le32 :: "u32 \<Rightarrow> u8 list" where
  "le32 x = [ucast x, ucast (drop_bit 8 x), ucast (drop_bit 16 x), ucast (drop_bit 24 x)]"

lemma length_le [simp]: "length (le16 x) = 2" "length (le32 y) = 4"
  by (simp_all add: le16_def le32_def)

lemma le16_value: "unat (le16 x ! 0) + 256 * unat (le16 x ! 1) = unat x"
proof -
  have lo: "unat (ucast x :: u8) = unat x mod 256" by (simp add: unsigned_ucast_eq take_bit_eq_mod)
  have "unat (drop_bit 8 x) = unat x div 256" by (simp add: drop_bit_eq_div unat_div)
  moreover have "unat x < 65536" using unsigned_less [of x, where 'a = nat] by simp
  ultimately have "unat (ucast (drop_bit 8 x) :: u8) = unat x div 256" by (simp add: unsigned_ucast_eq take_bit_eq_mod)
  with lo show ?thesis by (simp add: le16_def)
qed

end
