(* ===== verification/Kernel_List.thy ===== *)
theory Kernel_List
  imports Kernel_Prelude
begin

text \<open>
  The intrusive circular doubly linked lists of \<open>include/linux/list.h\<close>, at the level of the
  \<open>next\<close>/\<open>prev\<close> pointers the code writes.  \<open>is_list h head xs\<close> says that the circle through
  \<open>head\<close> visits the entries \<open>xs\<close>; every list primitive is shown to implement the operation on
  \<open>xs\<close> that the other components work with.
\<close>

subsection \<open>The pointers and the primitives\<close>

record lheap =
  lnext :: "addr \<Rightarrow> addr"
  lprev :: "addr \<Rightarrow> addr"

definition set_next :: "addr \<Rightarrow> addr \<Rightarrow> lheap \<Rightarrow> lheap" where
  "set_next p q h = h\<lparr>lnext := (lnext h)(p := q)\<rparr>"

definition set_prev :: "addr \<Rightarrow> addr \<Rightarrow> lheap \<Rightarrow> lheap" where
  "set_prev p q h = h\<lparr>lprev := (lprev h)(p := q)\<rparr>"

definition LIST_POISON1 :: addr where "LIST_POISON1 = 0x00100100"
definition LIST_POISON2 :: addr where "LIST_POISON2 = 0x00200200"

definition INIT_LIST_HEAD :: "addr \<Rightarrow> lheap \<Rightarrow> lheap" where
  "INIT_LIST_HEAD l h = set_prev l l (set_next l l h)"

definition raw_list_add :: "addr \<Rightarrow> addr \<Rightarrow> addr \<Rightarrow> lheap \<Rightarrow> lheap" where
  "raw_list_add new prev nxt h =
     (let h1 = set_prev nxt new h;
          h2 = set_next new nxt h1;
          h3 = set_prev new prev h2
      in set_next prev new h3)"

definition list_add :: "addr \<Rightarrow> addr \<Rightarrow> lheap \<Rightarrow> lheap" where
  "list_add new head h = raw_list_add new head (lnext h head) h"

definition list_add_tail :: "addr \<Rightarrow> addr \<Rightarrow> lheap \<Rightarrow> lheap" where
  "list_add_tail new head h = raw_list_add new (lprev h head) head h"

definition raw_list_del :: "addr \<Rightarrow> addr \<Rightarrow> lheap \<Rightarrow> lheap" where
  "raw_list_del prev nxt h = set_next prev nxt (set_prev nxt prev h)"

definition list_del :: "addr \<Rightarrow> lheap \<Rightarrow> lheap" where
  "list_del entry h =
     (let h1 = raw_list_del (lprev h entry) (lnext h entry) h
      in set_prev entry LIST_POISON2 (set_next entry LIST_POISON1 h1))"

definition list_replace :: "addr \<Rightarrow> addr \<Rightarrow> lheap \<Rightarrow> lheap" where
  "list_replace old new h =
     (let h1 = set_next new (lnext h old) h;
          h2 = set_prev (lnext h1 new) new h1;
          h3 = set_prev new (lprev h2 old) h2
      in set_next (lprev h3 new) new h3)"

definition list_replace_init :: "addr \<Rightarrow> addr \<Rightarrow> lheap \<Rightarrow> lheap" where
  "list_replace_init old new h = INIT_LIST_HEAD old (list_replace old new h)"

definition list_del_init :: "addr \<Rightarrow> lheap \<Rightarrow> lheap" where
  "list_del_init entry h =
     INIT_LIST_HEAD entry (raw_list_del (lprev h entry) (lnext h entry) h)"

definition list_move :: "addr \<Rightarrow> addr \<Rightarrow> lheap \<Rightarrow> lheap" where
  "list_move l head h = list_add l head (raw_list_del (lprev h l) (lnext h l) h)"

definition list_move_tail :: "addr \<Rightarrow> addr \<Rightarrow> lheap \<Rightarrow> lheap" where
  "list_move_tail l head h = list_add_tail l head (raw_list_del (lprev h l) (lnext h l) h)"

definition list_is_last :: "addr \<Rightarrow> addr \<Rightarrow> lheap \<Rightarrow> bool" where
  "list_is_last l head h \<longleftrightarrow> lnext h l = head"

definition list_empty :: "addr \<Rightarrow> lheap \<Rightarrow> bool" where
  "list_empty head h \<longleftrightarrow> lnext h head = head"

definition list_empty_careful :: "addr \<Rightarrow> lheap \<Rightarrow> bool" where
  "list_empty_careful head h =
     (let nxt = lnext h head in nxt = head \<and> nxt = lprev h head)"

definition list_is_singular :: "addr \<Rightarrow> lheap \<Rightarrow> bool" where
  "list_is_singular head h \<longleftrightarrow> \<not> list_empty head h \<and> lnext h head = lprev h head"

definition raw_list_cut_position :: "addr \<Rightarrow> addr \<Rightarrow> addr \<Rightarrow> lheap \<Rightarrow> lheap" where
  "raw_list_cut_position l head entry h =
     (let new_first = lnext h entry;
          h1 = set_next l (lnext h head) h;
          h2 = set_prev (lnext h1 l) l h1;
          h3 = set_prev l entry h2;
          h4 = set_next entry l h3;
          h5 = set_next head new_first h4
      in set_prev new_first head h5)"

definition list_cut_position :: "addr \<Rightarrow> addr \<Rightarrow> addr \<Rightarrow> lheap \<Rightarrow> lheap" where
  "list_cut_position l head entry h =
     (if list_empty head h then h
      else if list_is_singular head h \<and> (lnext h head \<noteq> entry \<and> head \<noteq> entry) then h
      else if entry = head then INIT_LIST_HEAD l h
      else raw_list_cut_position l head entry h)"

definition raw_list_splice :: "addr \<Rightarrow> addr \<Rightarrow> addr \<Rightarrow> lheap \<Rightarrow> lheap" where
  "raw_list_splice l prev nxt h =
     (let first = lnext h l;
          lst = lprev h l;
          h1 = set_prev first prev h;
          h2 = set_next prev first h1;
          h3 = set_next lst nxt h2
      in set_prev nxt lst h3)"

definition list_splice :: "addr \<Rightarrow> addr \<Rightarrow> lheap \<Rightarrow> lheap" where
  "list_splice l head h =
     (if \<not> list_empty l h then raw_list_splice l head (lnext h head) h else h)"

definition list_splice_tail :: "addr \<Rightarrow> addr \<Rightarrow> lheap \<Rightarrow> lheap" where
  "list_splice_tail l head h =
     (if \<not> list_empty l h then raw_list_splice l (lprev h head) head h else h)"

definition list_splice_init :: "addr \<Rightarrow> addr \<Rightarrow> lheap \<Rightarrow> lheap" where
  "list_splice_init l head h =
     (if \<not> list_empty l h
      then INIT_LIST_HEAD l (raw_list_splice l head (lnext h head) h) else h)"

definition list_splice_tail_init :: "addr \<Rightarrow> addr \<Rightarrow> lheap \<Rightarrow> lheap" where
  "list_splice_tail_init l head h =
     (if \<not> list_empty l h
      then INIT_LIST_HEAD l (raw_list_splice l (lprev h head) head h) else h)"

text \<open>\<open>list_for_each\<close>: follow \<open>next\<close> from the head until the head comes round again.  The walk
  is bounded by fuel; \<open>list_for_each_is_list\<close> gives the fuel that is enough.\<close>

fun list_for_each :: "nat \<Rightarrow> lheap \<Rightarrow> addr \<Rightarrow> addr \<Rightarrow> addr list option" where
  "list_for_each 0 h head pos = None"
| "list_for_each (Suc fuel) h head pos =
     (if pos = head then Some []
      else map_option (Cons pos) (list_for_each fuel h head (lnext h pos)))"

subsection \<open>Circles of nodes\<close>

fun linked :: "lheap \<Rightarrow> addr list \<Rightarrow> bool" where
  "linked h (x # y # zs) \<longleftrightarrow> lnext h x = y \<and> lprev h y = x \<and> linked h (y # zs)"
| "linked h _ \<longleftrightarrow> True"

definition is_list :: "lheap \<Rightarrow> addr \<Rightarrow> addr list \<Rightarrow> bool" where
  "is_list h head xs \<longleftrightarrow> distinct (head # xs) \<and> linked h (head # xs @ [head])"

lemmas ptr_defs = set_next_def set_prev_def

lemma linked_append: "linked h (xs @ y # zs) \<longleftrightarrow> linked h (xs @ [y]) \<and> linked h (y # zs)"
  by (induction h xs rule: linked.induct) auto

lemma linked_cong:
  "(\<And>x. x \<in> set (butlast xs) \<Longrightarrow> lnext h' x = lnext h x) \<Longrightarrow>
   (\<And>x. x \<in> set (tl xs) \<Longrightarrow> lprev h' x = lprev h x) \<Longrightarrow> linked h' xs = linked h xs"
  by (induction h xs rule: linked.induct) auto

text \<open>A circle has no distinguished start: it can be entered at any of its nodes.\<close>

lemma is_list_rotate: "is_list h a (xs @ b # ys) \<longleftrightarrow> is_list h b (ys @ a # xs)"
proof -
  have "linked h (a # xs @ b # ys @ [a]) \<longleftrightarrow>
        linked h (a # xs @ [b]) \<and> linked h (b # ys @ [a])"
    using linked_append [of h "a # xs" b "ys @ [a]"] by simp
  moreover have "linked h (b # ys @ a # xs @ [b]) \<longleftrightarrow>
        linked h (b # ys @ [a]) \<and> linked h (a # xs @ [b])"
    using linked_append [of h "b # ys" a "xs @ [b]"] by simp
  ultimately show ?thesis by (auto simp: is_list_def)
qed

lemma is_list_cong:
  "(\<And>x. x \<in> set (a # xs) \<Longrightarrow> lnext h' x = lnext h x \<and> lprev h' x = lprev h x) \<Longrightarrow>
   is_list h' a xs = is_list h a xs"
  unfolding is_list_def by (intro conj_cong refl linked_cong) (auto simp: butlast_append)

lemma is_list_next: "is_list h a xs \<Longrightarrow> lnext h a = (case xs of [] \<Rightarrow> a | x # _ \<Rightarrow> x)"
  by (cases xs) (auto simp: is_list_def)

lemma is_list_prev: "is_list h a xs \<Longrightarrow> lprev h a = (if xs = [] then a else last xs)"
proof (cases xs rule: rev_cases)
  case (snoc ys y)
  assume "is_list h a xs"
  with snoc have "linked h (a # ys @ y # [a])" by (simp add: is_list_def)
  then have "linked h [y, a]" using linked_append [of h "a # ys" y "[a]"] by simp
  with snoc show ?thesis by simp
qed (simp add: is_list_def)

subsection \<open>Insertion and removal\<close>

lemma raw_list_add_is_list:
  assumes l: "is_list h nxt zs" and new: "new \<notin> set (nxt # zs)"
  shows "is_list (raw_list_add new (lprev h nxt) nxt h) nxt (zs @ [new])"
proof -
  let ?p = "lprev h nxt" and ?h = "raw_list_add new (lprev h nxt) nxt h"
  obtain bs p where ns: "nxt # zs = bs @ [p]" by (metis list.distinct(1) rev_exhaust)
  have p: "?p = p" using is_list_prev [OF l] ns by (metis last.simps last_snoc)
  have d: "distinct (bs @ [p])" using l ns by (simp add: is_list_def)
  have nn: "nxt # zs @ [nxt] = bs @ p # [nxt]" "nxt # zs @ [new, nxt] = bs @ p # [new, nxt]"
    using ns by simp_all
  have eq: "lnext ?h = (lnext h)(new := nxt, p := new)"
           "lprev ?h = (lprev h)(nxt := new, new := p)"
    using new p ns by (auto simp: raw_list_add_def ptr_defs Let_def)
  have "linked h (bs @ [p])"
    using l linked_append [of h bs p "[nxt]"] by (simp only: is_list_def append_Cons nn)
  moreover have "tl (bs @ [p]) = zs" by (simp only: ns [symmetric] list.sel)
  moreover have nb: "new \<notin> set (bs @ [p])" using new by (simp only: ns [symmetric]) simp
  moreover have "nxt \<notin> set zs" using l by (simp add: is_list_def)
  ultimately have "linked ?h (bs @ [p])"
    using d by (subst linked_cong [where h = h]) (use new in \<open>auto simp: eq\<close>)
  moreover have "linked ?h [p, new, nxt]"
    using new nb by (auto simp: eq)
  ultimately have "linked ?h (nxt # zs @ [new, nxt])"
    using linked_append [of ?h bs p "[new, nxt]"] by (simp only: nn)
  then show ?thesis using l new by (simp add: is_list_def)
qed

lemma raw_list_del_is_list:
  assumes l: "is_list h a (e # zs)"
  shows "is_list (raw_list_del (lprev h e) (lnext h e) h) a zs"
proof -
  let ?h = "raw_list_del (lprev h e) (lnext h e) h"
  obtain b bs where nn: "zs @ [a] = b # bs" by (metis append_is_Nil_conv neq_Nil_conv not_Cons_self2)
  have pn: "lprev h e = a" "lnext h e = b" and lk: "linked h (b # bs)"
    using l nn by (simp_all add: is_list_def)
  have d: "distinct (a # e # zs)" using l by (simp add: is_list_def)
  have "distinct (b # bs)" using d nn [symmetric] by simp
  moreover have "set (butlast (b # bs)) = set zs" using nn [symmetric] by simp
  ultimately have "linked ?h (b # bs)"
    using lk d by (subst linked_cong [where h = h]) (auto simp: raw_list_del_def ptr_defs pn)
  then have "linked ?h (a # zs @ [a])"
    by (auto simp: nn raw_list_del_def ptr_defs pn)
  then show ?thesis using d by (simp add: is_list_def)
qed

lemma INIT_LIST_HEAD_is_list: "is_list (INIT_LIST_HEAD l h) l []"
  by (simp add: is_list_def INIT_LIST_HEAD_def ptr_defs)

text \<open>\<open>list_add_tail\<close> in front of any node of the circle, the head included.\<close>

lemma list_add_tail_is_list:
  assumes "is_list h head (ys @ zs)" and "new \<notin> set (head # ys @ zs)"
  shows "is_list (list_add_tail new (case zs of [] \<Rightarrow> head | z # _ \<Rightarrow> z) h) head (ys @ new # zs)"
proof (cases zs)
  case Nil
  with assms show ?thesis
    using raw_list_add_is_list [of h head ys new] by (simp add: list_add_tail_def)
next
  case (Cons z zs')
  with assms have "is_list h z (zs' @ head # ys)" "new \<notin> set (z # zs' @ head # ys)"
    by (auto simp: is_list_rotate)
  from raw_list_add_is_list [OF this] Cons show ?thesis
    using is_list_rotate [of _ head "ys @ [new]" z zs'] by (simp add: list_add_tail_def)
qed

text \<open>\<open>list_add\<close> after any node of the circle, the head included.\<close>

lemma list_add_is_list:
  assumes "is_list h head (ys @ zs)" and "new \<notin> set (head # ys @ zs)"
  shows "is_list (list_add new (last (head # ys)) h) head (ys @ new # zs)"
proof -
  let ?n = "case zs of [] \<Rightarrow> head | z # _ \<Rightarrow> z"
  have "lnext h (last (head # ys)) = ?n \<and> lprev h ?n = last (head # ys)"
  proof -
    obtain bs p where ns: "head # ys = bs @ [p]" by (metis list.distinct(1) rev_exhaust)
    have "linked h (bs @ p # zs @ [head])"
      using assms(1) ns by (metis is_list_def append.assoc append_Cons append_Nil)
    then have "linked h (p # zs @ [head])" using linked_append [of h bs p] by blast
    then show ?thesis using ns by (cases zs) simp_all
  qed
  then have "list_add new (last (head # ys)) h = list_add_tail new ?n h"
    by (simp add: list_add_def list_add_tail_def)
  with list_add_tail_is_list [OF assms] show ?thesis by simp
qed

lemma raw_del_mid:
  assumes "is_list h head (ys @ e # zs)"
  shows "is_list (raw_list_del (lprev h e) (lnext h e) h) head (ys @ zs)"
proof (cases ys rule: rev_cases)
  case Nil
  with assms show ?thesis by (simp add: raw_list_del_is_list)
next
  case (snoc us u)
  with assms have "is_list h u (e # zs @ head # us)"
    using is_list_rotate [of h head us u "e # zs"] by simp
  from raw_list_del_is_list [OF this] snoc show ?thesis
    using is_list_rotate [of _ head us u zs] by simp
qed

lemma list_del_is_list:
  assumes "is_list h head (ys @ e # zs)"
  shows "is_list (list_del e h) head (ys @ zs)"
proof -
  have "e \<notin> set (head # ys @ zs)" using assms by (auto simp: is_list_def)
  with raw_del_mid [OF assms] show ?thesis
    unfolding list_del_def Let_def by (subst is_list_cong) (auto simp: ptr_defs)
qed

lemma list_del_init_is_list:
  assumes "is_list h head (ys @ e # zs)"
  shows "is_list (list_del_init e h) head (ys @ zs) \<and> is_list (list_del_init e h) e []"
proof -
  have "e \<notin> set (head # ys @ zs)" using assms by (auto simp: is_list_def)
  with raw_del_mid [OF assms] have "is_list (list_del_init e h) head (ys @ zs)"
    unfolding list_del_init_def INIT_LIST_HEAD_def by (subst is_list_cong) (auto simp: ptr_defs)
  then show ?thesis by (simp add: list_del_init_def INIT_LIST_HEAD_is_list)
qed

subsection \<open>What the primitives leave alone\<close>

lemma raw_list_add_other:
  "x \<notin> {new, p, n} \<Longrightarrow> lnext (raw_list_add new p n h) x = lnext h x \<and>
     lprev (raw_list_add new p n h) x = lprev h x"
  by (simp add: raw_list_add_def ptr_defs Let_def)

lemma raw_list_del_other:
  "x \<notin> {p, n} \<Longrightarrow> lnext (raw_list_del p n h) x = lnext h x \<and>
     lprev (raw_list_del p n h) x = lprev h x"
  by (simp add: raw_list_del_def ptr_defs)

lemma is_list_neighbours:
  assumes "is_list h a xs" and "x \<in> set (a # xs)"
  shows "lnext h x \<in> set (a # xs)" "lprev h x \<in> set (a # xs)"
proof -
  have "\<exists>zs. is_list h x zs \<and> set (x # zs) = set (a # xs)"
  proof (cases "x = a")
    case False
    with assms(2) obtain ys zs where "xs = ys @ x # zs" by (auto simp: in_set_conv_decomp)
    with assms(1) show ?thesis by (intro exI [of _ "zs @ a # ys"]) (auto simp: is_list_rotate)
  qed (use assms in auto)
  then obtain zs where z: "is_list h x zs" and s: "set (a # xs) = set (x # zs)" by auto
  show "lnext h x \<in> set (a # xs)"
    unfolding s using is_list_next [OF z] by (auto split: list.splits)
  show "lprev h x \<in> set (a # xs)"
    unfolding s using is_list_prev [OF z] by auto
qed

text \<open>Adding to or deleting from one list keeps every list that shares no node with it.\<close>

lemma list_add_tail_other:
  assumes "is_list h a xs" "is_list h b ys" "pos \<in> set (a # xs)"
    and "set (a # xs) \<inter> set (b # ys) = {}" "new \<notin> set (b # ys)"
  shows "is_list (list_add_tail new pos h) b ys"
  using assms is_list_neighbours(2) [OF assms(1,3)] unfolding list_add_tail_def
  by (subst is_list_cong [where h = h]) (auto intro!: raw_list_add_other)

lemma list_add_other:
  assumes "is_list h a xs" "is_list h b ys" "pos \<in> set (a # xs)"
    and "set (a # xs) \<inter> set (b # ys) = {}" "new \<notin> set (b # ys)"
  shows "is_list (list_add new pos h) b ys"
  using assms is_list_neighbours(1) [OF assms(1,3)] unfolding list_add_def
  by (subst is_list_cong [where h = h]) (auto intro!: raw_list_add_other)

lemma raw_del_other:
  assumes "is_list h a xs" "is_list h b ys" "e \<in> set xs" "set (a # xs) \<inter> set (b # ys) = {}"
  shows "is_list (raw_list_del (lprev h e) (lnext h e) h) b ys"
  using assms is_list_neighbours [OF assms(1), of e]
  by (subst is_list_cong [where h = h]) (auto intro!: raw_list_del_other)

lemma list_del_other:
  assumes "is_list h a xs" "is_list h b ys" "e \<in> set xs" "set (a # xs) \<inter> set (b # ys) = {}"
  shows "is_list (list_del e h) b ys"
proof -
  have "e \<notin> set (b # ys)" using assms(3,4) by auto
  with raw_del_other [OF assms] show ?thesis
    unfolding list_del_def Let_def by (subst is_list_cong) (auto simp: ptr_defs)
qed

subsection \<open>Moving, splicing and cutting\<close>

lemma list_move_tail_same:
  assumes "is_list h head (ys @ e # zs)"
  shows "is_list (list_move_tail e head h) head (ys @ zs @ [e])"
proof -
  have "e \<notin> set (head # (ys @ zs) @ [])" using assms by (auto simp: is_list_def)
  with raw_del_mid [OF assms] show ?thesis
    using list_add_tail_is_list [of _ head "ys @ zs" "[]" e] by (simp add: list_move_tail_def)
qed

lemma list_move_same:
  assumes "is_list h head (ys @ e # zs)"
  shows "is_list (list_move e head h) head (e # ys @ zs)"
proof -
  have "e \<notin> set (head # [] @ (ys @ zs))" using assms by (auto simp: is_list_def)
  with raw_del_mid [OF assms] show ?thesis
    using list_add_is_list [of _ head "[]" "ys @ zs" e] by (simp add: list_move_def)
qed

lemma list_move_tail_between:
  assumes "is_list h a (ys @ e # zs)" "is_list h b us"
    and "set (a # ys @ e # zs) \<inter> set (b # us) = {}"
  shows "is_list (list_move_tail e b h) a (ys @ zs) \<and> is_list (list_move_tail e b h) b (us @ [e])"
proof -
  let ?h = "raw_list_del (lprev h e) (lnext h e) h"
  have e: "e \<notin> set (a # ys @ zs)" "e \<notin> set (b # us)" using assms by (auto simp: is_list_def)
  have a: "is_list ?h a (ys @ zs)" using assms(1) by (rule raw_del_mid)
  have b: "is_list ?h b us" using assms by (intro raw_del_other [where a = a]) auto
  have "is_list (list_add_tail e b ?h) b (us @ [e])"
    using list_add_tail_is_list [of ?h b us "[]" e] b e by simp
  moreover have "is_list (list_add_tail e b ?h) a (ys @ zs)"
    using assms(3) e by (intro list_add_tail_other [OF b a]) auto
  ultimately show ?thesis by (simp add: list_move_tail_def)
qed

text \<open>Splicing the non-empty circle of \<open>l\<close> in front of \<open>nxt\<close>.\<close>

lemma raw_list_splice_is_list:
  assumes l: "is_list h l xs" and n: "is_list h nxt zs" and ne: "xs \<noteq> []"
    and dj: "set (l # xs) \<inter> set (nxt # zs) = {}"
  shows "is_list (raw_list_splice l (lprev h nxt) nxt h) nxt (zs @ xs)"
proof -
  let ?h = "raw_list_splice l (lprev h nxt) nxt h"
  obtain bs p where ns: "nxt # zs = bs @ [p]" by (metis list.distinct(1) rev_exhaust)
  obtain us v where xs: "xs = us @ [v]" using ne by (metis rev_exhaust)
  obtain f fs where xf: "xs = f # fs" using ne by (metis neq_Nil_conv)
  have p: "lprev h nxt = p" using is_list_prev [OF n] ns by (metis last.simps last_snoc)
  have v: "lprev h l = v" using is_list_prev [OF l] xs by simp
  have f: "lnext h l = f" using is_list_next [OF l] xf by simp
  have pin: "p \<in> set (nxt # zs)" unfolding ns by simp
  have vf: "v \<in> set xs" "f \<in> set xs" by (simp add: xs) (simp add: xf)
  have eq: "lnext ?h = (lnext h)(p := f, v := nxt)" "lprev ?h = (lprev h)(f := p, nxt := v)"
    using pin vf dj by (auto simp: raw_list_splice_def ptr_defs Let_def p v f)
  have d: "nxt \<notin> set zs" "distinct zs" "distinct xs"
    using l n by (simp_all add: is_list_def)
  have db: "distinct (bs @ [p])" using d by (simp only: ns [symmetric]) simp
  have tlz: "tl (bs @ [p]) = zs" by (simp only: ns [symmetric] list.sel)
  have sub: "set (bs @ [p]) \<inter> set xs = {}" using dj by (simp only: ns [symmetric]) auto
  have "linked h (bs @ [p])"
    using n linked_append [of h bs p "[nxt]"] ns by (metis append_Cons append_Nil append_assoc is_list_def)
  then have lk1: "linked ?h (bs @ [p])"
    using d db tlz sub vf dj by (subst linked_cong [where h = h]) (auto simp: eq)
  have "linked h (l # xs @ [l])" using l by (simp add: is_list_def)
  then have "linked h xs"
    using linked_append [of h "l # us" v "[l]"] linked_append [of h "[l]" f fs]
    by (simp add: xs) (metis append_Cons append_Nil linked.simps(1) xf xs)
  moreover have "butlast xs = us" "v \<notin> set us" "set us \<subseteq> set xs" using d(3) by (auto simp: xs)
  moreover have "tl xs = fs" "f \<notin> set fs" "set fs \<subseteq> set xs" using d(3) by (auto simp: xf)
  ultimately have lk2: "linked ?h xs"
    using dj pin by (subst linked_cong [where h = h]) (auto simp: eq)
  have "linked ?h (us @ v # [nxt])"
    using linked_append [of ?h us v "[nxt]"] lk2 by (simp add: xs eq)
  moreover have "nxt \<notin> set xs" "p \<notin> set xs" using dj pin by auto
  ultimately have "linked ?h (p # us @ v # [nxt])"
    using xs xf vf by (cases us) (auto simp: eq)
  then have "linked ?h (bs @ p # us @ v # [nxt])"
    using lk1 linked_append [of ?h bs p] by blast
  moreover have "nxt # (zs @ xs) @ [nxt] = bs @ p # us @ v # [nxt]"
    using ns xs by (metis append_Cons append_Nil append_assoc)
  ultimately have "linked ?h (nxt # (zs @ xs) @ [nxt])" by (simp only:)
  moreover have "distinct (nxt # zs @ xs)" using d dj by auto
  ultimately show ?thesis by (simp only: is_list_def)
qed

lemma is_list_empty_iff: "is_list h l xs \<Longrightarrow> list_empty l h \<longleftrightarrow> xs = []"
  by (auto simp: list_empty_def is_list_def dest: is_list_next split: list.splits)
     (metis is_list_def is_list_next list.case(2) list.set_intros(1) distinct.simps(2) neq_Nil_conv)

lemma list_splice_tail_init_is_list:
  assumes "is_list h l xs" "is_list h head ys" "set (l # xs) \<inter> set (head # ys) = {}"
  shows "is_list (list_splice_tail_init l head h) head (ys @ xs)
       \<and> is_list (list_splice_tail_init l head h) l []"
proof (cases "xs = []")
  case False
  have "is_list (INIT_LIST_HEAD l (raw_list_splice l (lprev h head) head h)) head (ys @ xs)"
    using raw_list_splice_is_list [OF assms(1,2) False assms(3)] assms
    unfolding INIT_LIST_HEAD_def
    by (subst is_list_cong) (auto simp: ptr_defs is_list_def)
  then show ?thesis
    using is_list_empty_iff [OF assms(1)] False
    by (simp add: list_splice_tail_init_def INIT_LIST_HEAD_is_list)
qed (use assms is_list_empty_iff [OF assms(1)] in \<open>simp add: list_splice_tail_init_def\<close>)

lemma list_for_each_suffix:
  "linked h (x # zs @ [head]) \<Longrightarrow> head \<notin> set zs \<Longrightarrow> length zs < fuel \<Longrightarrow>
   list_for_each fuel h head (lnext h x) = Some zs"
proof (induction zs arbitrary: x fuel)
  case (Cons z zs)
  then obtain f where "fuel = Suc f" by (cases fuel) auto
  with Cons show ?case by auto
next
  case Nil
  then show ?case by (cases fuel) auto
qed

lemma raw_list_cut_is_list:
  assumes l: "is_list h head (ys @ entry # zs)" and new: "l \<notin> set (head # ys @ entry # zs)"
  shows "is_list (raw_list_cut_position l head entry h) l (ys @ [entry])
       \<and> is_list (raw_list_cut_position l head entry h) head zs"
proof -
  let ?h = "raw_list_cut_position l head entry h"
  obtain f fs where xf: "ys @ [entry] = f # fs" by (cases ys) auto
  obtain n ns where zn: "zs @ [head] = n # ns" by (cases zs) auto
  have d: "distinct (ys @ [entry])" "distinct (n # ns)" "distinct (head # ys @ entry # zs)"
      "set (ys @ [entry]) \<inter> set (n # ns) = {}"
    unfolding zn [symmetric] using l by (auto simp: is_list_def)
  have mem: "set (f # fs) = insert entry (set ys)" "set (n # ns) = insert head (set zs)"
    unfolding xf [symmetric] zn [symmetric] by auto
  have "head # (ys @ entry # zs) @ [head] = (head # ys) @ entry # zs @ [head]" by simp
  then have lk: "linked h (head # ys @ [entry])" "linked h (entry # n # ns)"
    using l linked_append [of h "head # ys" entry "zs @ [head]"] by (auto simp: is_list_def zn)
  have f: "lnext h head = f" and lkf: "linked h (f # fs)" using lk(1) xf by auto
  have n: "lnext h entry = n" and lkn: "linked h (n # ns)" using lk(2) by auto
  have fl: "f \<in> insert entry (set ys)" "n \<in> insert head (set zs)" using mem by auto
  have eq: "lnext ?h = (lnext h)(l := f, entry := l, head := n)"
           "lprev ?h = (lprev h)(f := l, l := entry, n := head)"
    using new d(3) fl by (auto simp: raw_list_cut_position_def ptr_defs Let_def f n)
  have tls: "set fs \<subseteq> insert entry (set ys)" "set ns \<subseteq> insert head (set zs)"
      "f \<notin> set fs" "n \<notin> set ns"
    using mem d(1,2) unfolding xf by auto
  have "butlast (f # fs) = ys" "butlast (n # ns) = zs"
    unfolding xf [symmetric] zn [symmetric] by simp_all
  then have "linked ?h (f # fs)" "linked ?h (n # ns)"
    using lkf lkn new d(3) tls fl
    by (subst linked_cong [where h = h]; auto simp: eq)+
  then have "linked ?h (l # ys @ entry # [l])" "linked ?h (head # zs @ [head])"
    using linked_append [of ?h "l # ys" entry "[l]"] d(3) new fl xf zn by (auto simp: eq)
  then show ?thesis using d(3) new by (auto simp: is_list_def)
qed

subsection \<open>The list interface of the other components\<close>

text \<open>
  What the components rely on: a representation predicate, the primitives, and the effect of
  each primitive on the represented sequence.
\<close>

locale intrusive_list =
  fixes repr :: "'h \<Rightarrow> addr \<Rightarrow> addr list \<Rightarrow> bool"
    and init :: "addr \<Rightarrow> 'h \<Rightarrow> 'h"
    and add :: "addr \<Rightarrow> addr \<Rightarrow> 'h \<Rightarrow> 'h"
    and add_tail :: "addr \<Rightarrow> addr \<Rightarrow> 'h \<Rightarrow> 'h"
    and del :: "addr \<Rightarrow> 'h \<Rightarrow> 'h"
  assumes repr_distinct: "repr h head xs \<Longrightarrow> distinct (head # xs)"
    and repr_init: "repr (init head h) head []"
    and repr_add: "repr h head xs \<Longrightarrow> x \<notin> set (head # xs) \<Longrightarrow> repr (add x head h) head (x # xs)"
    and repr_add_tail: "repr h head (ys @ zs) \<Longrightarrow> x \<notin> set (head # ys @ zs) \<Longrightarrow>
      repr (add_tail x (case zs of [] \<Rightarrow> head | z # _ \<Rightarrow> z) h) head (ys @ x # zs)"
    and repr_del: "repr h head (ys @ x # zs) \<Longrightarrow> repr (del x h) head (ys @ zs)"
begin

lemma add_tail_insert_before:
  assumes "repr h head xs" "x \<notin> set (head # xs)" "p \<in> set (head # xs)"
  shows "repr (add_tail x p h) head (insert_before p x xs)"
proof (cases "p = head")
  case True
  with repr_distinct [OF assms(1)] repr_add_tail [of h head xs "[]" x] assms show ?thesis
    by (simp add: insert_before_notin)
next
  case False
  with assms(3) obtain ys zs where xs: "xs = ys @ p # zs" and "p \<notin> set ys"
    by (auto dest: split_list_first)
  with repr_add_tail [of h head ys "p # zs" x] assms show ?thesis
    by (simp add: insert_before_split)
qed

lemma del_remove1:
  assumes "repr h head xs" "x \<in> set xs"
  shows "repr (del x h) head (remove1 x xs)"
  using assms by (auto dest!: split_list_first simp: remove1_append_notin repr_del)

lemma fifo:
  assumes "repr h head ys" "distinct (head # ys @ xs)"
  shows "repr (fold (\<lambda>x. add_tail x head) xs h) head (ys @ xs)"
  using assms
proof (induction xs arbitrary: h ys)
  case (Cons x xs)
  then have "repr (add_tail x head h) head (ys @ [x])"
    using repr_add_tail [of h head ys "[]" x] by auto
  from Cons.IH [OF this] Cons.prems(2) show ?case by simp
qed simp

lemma lifo:
  assumes "repr h head ys" "distinct (head # ys @ xs)"
  shows "repr (fold (\<lambda>x. add x head) xs h) head (rev xs @ ys)"
  using assms
proof (induction xs arbitrary: h ys)
  case (Cons x xs)
  then have "repr (add x head h) head (x # ys)" using repr_add [of h head ys x] by auto
  from Cons.IH [OF this] Cons.prems(2) show ?case by simp
qed simp

lemma drain:
  "repr h head (ys @ xs) \<Longrightarrow> repr (fold del xs h) head ys"
proof (induction xs arbitrary: h)
  case (Cons x xs)
  then show ?case using repr_del [of h head ys x xs] by simp
qed simp

end

interpretation klist: intrusive_list is_list INIT_LIST_HEAD list_add list_add_tail list_del
proof unfold_locales
  show "is_list h head xs \<Longrightarrow> distinct (head # xs)" for h head xs by (simp add: is_list_def)
  show "is_list (INIT_LIST_HEAD head h) head []" for head h by (rule INIT_LIST_HEAD_is_list)
  show "is_list h head xs \<Longrightarrow> x \<notin> set (head # xs) \<Longrightarrow> is_list (list_add x head h) head (x # xs)"
    for h head xs x using list_add_is_list [of h head "[]" xs x] by simp
qed (auto intro: list_add_tail_is_list list_del_is_list)

subsection \<open>Properties\<close>

lemma list_splice_is_list:
  assumes l: "is_list h l xs" and n: "is_list h head ys"
    and dj: "set (l # xs) \<inter> set (head # ys) = {}"
  shows "is_list (list_splice l head h) head (xs @ ys)"
proof (cases "xs = []")
  case True
  then show ?thesis using is_list_empty_iff [OF l] n by (simp add: list_splice_def)
next
  case ne: False
  show ?thesis
  proof (cases ys)
    case Nil
    with n have "lnext h head = head" "lprev h head = head" by (simp_all add: is_list_def)
    with raw_list_splice_is_list [OF l n ne dj] Nil is_list_empty_iff [OF l] ne show ?thesis
      by (simp add: list_splice_def)
  next
    case (Cons y ys')
    have y: "is_list h y (ys' @ [head])" using n Cons is_list_rotate [of h head "[]" y ys'] by simp
    have nx: "lnext h head = y" "lprev h y = head"
      using is_list_next [OF n] is_list_prev [OF y] Cons by simp_all
    have "is_list (raw_list_splice l head y h) y ((ys' @ [head]) @ xs)"
      using raw_list_splice_is_list [OF l y ne] dj Cons nx by auto
    then show ?thesis
      using is_list_empty_iff [OF l] ne nx Cons is_list_rotate [of _ head xs y ys']
      by (simp add: list_splice_def)
  qed
qed

text \<open>A traversal of a well-formed list ends, after as many steps as the list has entries,
  and visits exactly the entries of the list in order: after the entries \<open>xs\<close> were queued
  with \<open>list_add_tail\<close> on a freshly initialised head, \<open>list_for_each\<close> yields \<open>xs\<close>.\<close>

theorem list_queue_traversal:
  fixes h :: lheap
  assumes "distinct (head # xs)"
  defines "h' \<equiv> fold (\<lambda>x. list_add_tail x head) xs (INIT_LIST_HEAD head h)"
  shows "list_for_each (Suc (length xs)) h' head (lnext h' head) = Some xs"
proof -
  have "is_list h' head xs"
    using klist.fifo [OF klist.repr_init, of head xs h] assms by simp
  then have "linked h' (head # xs @ [head])" "head \<notin> set xs" by (simp_all add: is_list_def)
  then show ?thesis by (intro list_for_each_suffix) auto
qed

theorem list_queue_traversal_witness:
  "let h' = fold (\<lambda>x. list_add_tail x 1) [7, 5, 9] (INIT_LIST_HEAD 1 \<lparr>lnext = id, lprev = id\<rparr>)
   in list_for_each 4 h' 1 (lnext h' 1) = Some [7, 5, 9]"
  using list_queue_traversal [of 1 "[7, 5, 9]" "\<lparr>lnext = id, lprev = id\<rparr>"]
  by (simp add: Let_def eval_nat_numeral)

text \<open>Cutting a list at an entry and splicing the cut part back restores the list, whatever
  the entry; in between, the two parts are well-formed lists.\<close>

theorem list_cut_splice_roundtrip:
  assumes "is_list h head (ys @ entry # zs)" and "l \<notin> set (head # ys @ entry # zs)"
  defines "h' \<equiv> list_cut_position l head entry h"
  shows "is_list h' l (ys @ [entry]) \<and> is_list h' head zs
       \<and> is_list (list_splice l head h') head (ys @ entry # zs)"
proof -
  have ne: "entry \<noteq> head" "\<not> list_empty head h"
    using assms(1) is_list_empty_iff [OF assms(1)] by (auto simp: is_list_def)
  have "lnext h head = entry" if "list_is_singular head h"
  proof -
    have "lprev h head = last (ys @ entry # zs)" using is_list_prev [OF assms(1)] by simp
    moreover have "lnext h head = hd (ys @ entry # zs)"
      using is_list_next [OF assms(1)] by (cases ys) simp_all
    moreover have "distinct (ys @ entry # zs)" using assms(1) by (simp add: is_list_def)
    ultimately show ?thesis
      using that by (cases ys; cases zs rule: rev_cases) (auto simp: list_is_singular_def)
  qed
  with ne have h': "h' = raw_list_cut_position l head entry h"
    unfolding h'_def list_cut_position_def by auto
  have p: "is_list h' l (ys @ [entry])" "is_list h' head zs"
    using raw_list_cut_is_list [OF assms(1,2)] unfolding h' by auto
  moreover have "set (l # ys @ [entry]) \<inter> set (head # zs) = {}"
    using assms(1,2) by (auto simp: is_list_def)
  ultimately show ?thesis using list_splice_is_list [OF p] by simp
qed

theorem list_cut_splice_roundtrip_witness:
  "let h = fold (\<lambda>x. list_add_tail x 1) [7, 5, 9] (INIT_LIST_HEAD 1 \<lparr>lnext = id, lprev = id\<rparr>);
       h' = list_cut_position 2 1 5 h
   in is_list h 1 [7, 5, 9] \<and> is_list h' 2 [7, 5] \<and> is_list h' 1 [9]
      \<and> is_list (list_splice 2 1 h') 1 [7, 5, 9]"
proof -
  let ?h = "fold (\<lambda>x. list_add_tail x 1) [7, 5, 9] (INIT_LIST_HEAD 1 \<lparr>lnext = id, lprev = id\<rparr>)"
  have "is_list ?h 1 ([7] @ 5 # [9])" using klist.fifo [OF klist.repr_init, of 1 "[7, 5, 9]"] by simp
  from this list_cut_splice_roundtrip [OF this, of 2] show ?thesis by (simp add: Let_def)
qed

text \<open>\<open>list_add_tail\<close> with any node of the list as its position implements insertion in front
  of that node, and deleting the new entry again gives the old list back.\<close>

theorem list_add_del_inverse:
  assumes "is_list h head xs" "new \<notin> set (head # xs)" "pos \<in> set (head # xs)"
  shows "is_list (list_add_tail new pos h) head (insert_before pos new xs)
       \<and> is_list (list_del new (list_add_tail new pos h)) head xs"
proof -
  have ins: "is_list (list_add_tail new pos h) head (insert_before pos new xs)"
    using assms by (rule klist.add_tail_insert_before)
  have "remove1 new (insert_before pos new xs) = xs"
    using assms(2) by (induction xs) auto
  with klist.del_remove1 [OF ins, of new] ins show ?thesis by simp
qed

theorem list_add_del_inverse_witness:
  "let h = INIT_LIST_HEAD 1 \<lparr>lnext = id, lprev = id\<rparr>
   in is_list (list_add_tail 4 1 h) 1 [4] \<and> is_list (list_del 4 (list_add_tail 4 1 h)) 1 []"
  using list_add_del_inverse [OF INIT_LIST_HEAD_is_list, of 4 1 1] by (simp add: Let_def)

end
