(* ===== verification/Kernel_Slab.thy ===== *)
theory Kernel_Slab
  imports Kernel_Prelude
begin

text \<open>
  The object caches the components allocate from (\<open>kmem_cache_zalloc\<close>, \<open>kzalloc\<close>, \<open>kfree\<close>).
  The allocator itself (\<open>mm/slub.c\<close>) is not translated: a cache is its contract, stated by the
  locale \<open>object_cache\<close>.  An allocation either fails or yields an address that is not NULL and
  not in use; whether the coming allocations fail is an input of the model
  (\<open>kfail\<close>, the outcomes of the next allocations, after which allocations succeed).
\<close>

record 'a kheap =
  kobj :: "addr \<rightharpoonup> 'a"
  knext :: addr
  kfail :: "bool list"

definition kheap_ok :: "'a kheap \<Rightarrow> bool" where
  "kheap_ok h \<longleftrightarrow> 0 < knext h \<and> (\<forall>a\<in>dom (kobj h). 0 < a \<and> a < knext h)"

definition kzalloc :: "'a \<Rightarrow> 'a kheap \<Rightarrow> addr option \<times> 'a kheap" where
  "kzalloc v h =
     (if kfail h \<noteq> [] \<and> hd (kfail h) then (None, h\<lparr>kfail := tl (kfail h)\<rparr>)
      else (Some (knext h),
            h\<lparr>kobj := (kobj h)(knext h \<mapsto> v), knext := Suc (knext h), kfail := tl (kfail h)\<rparr>))"

definition kfree :: "addr \<Rightarrow> 'a kheap \<Rightarrow> 'a kheap" where
  "kfree a h = h\<lparr>kobj := (kobj h)(a := None)\<rparr>"

definition kwrite :: "addr \<Rightarrow> 'a \<Rightarrow> 'a kheap \<Rightarrow> 'a kheap" where
  "kwrite a v h = h\<lparr>kobj := (kobj h)(a \<mapsto> v)\<rparr>"

definition deref :: "'a kheap \<Rightarrow> addr \<Rightarrow> 'a" where
  "deref h a = the (kobj h a)"

locale object_cache =
  fixes alloc :: "'v \<Rightarrow> 'h \<Rightarrow> addr option \<times> 'h"
    and free :: "addr \<Rightarrow> 'h \<Rightarrow> 'h"
    and store :: "addr \<Rightarrow> 'v \<Rightarrow> 'h \<Rightarrow> 'h"
    and lookup :: "'h \<Rightarrow> addr \<rightharpoonup> 'v"
    and ok :: "'h \<Rightarrow> bool"
  assumes alloc_Some: "ok h \<Longrightarrow> alloc v h = (Some a, h') \<Longrightarrow>
      ok h' \<and> a \<noteq> 0 \<and> lookup h a = None \<and> lookup h' = (lookup h)(a \<mapsto> v)"
    and alloc_None: "ok h \<Longrightarrow> alloc v h = (None, h') \<Longrightarrow> ok h' \<and> lookup h' = lookup h"
    and free_law: "ok h \<Longrightarrow> ok (free a h) \<and> lookup (free a h) = (lookup h)(a := None)"
    and store_law: "ok h \<Longrightarrow> lookup h a \<noteq> None \<Longrightarrow>
      ok (store a v h) \<and> lookup (store a v h) = (lookup h)(a \<mapsto> v)"
begin

text \<open>An address that was just allocated is not one of the live objects, and releasing it
  again leaves every live object as it was.\<close>

lemma alloc_fresh: "ok h \<Longrightarrow> alloc v h = (Some a, h') \<Longrightarrow> lookup h b = Some w \<Longrightarrow> a \<noteq> b"
  using alloc_Some by fastforce

lemma alloc_free: "ok h \<Longrightarrow> alloc v h = (Some a, h') \<Longrightarrow> lookup (free a h') = lookup h"
  using alloc_Some [of h v a h'] free_law [of h' a] by (simp add: fun_upd_idem)

lemma store_other: "ok h \<Longrightarrow> lookup h a \<noteq> None \<Longrightarrow> b \<noteq> a \<Longrightarrow> lookup (store a v h) b = lookup h b"
  using store_law [of h a v] by simp

end

interpretation slab: object_cache kzalloc kfree kwrite kobj kheap_ok
proof unfold_locales
  fix h h' :: "'a kheap" and v a
  assume "kheap_ok h" "kzalloc v h = (Some a, h')"
  then show "kheap_ok h' \<and> a \<noteq> 0 \<and> kobj h a = None \<and> kobj h' = (kobj h)(a \<mapsto> v)"
    by (auto simp: kzalloc_def kheap_ok_def less_Suc_eq split: if_splits)
next
  fix h h' :: "'a kheap" and v
  assume "kheap_ok h" "kzalloc v h = (None, h')"
  then show "kheap_ok h' \<and> kobj h' = kobj h"
    by (auto simp: kzalloc_def kheap_ok_def split: if_splits)
qed (auto simp: kfree_def kwrite_def kheap_ok_def split: if_splits)

lemma kobj_kfree [simp]: "kobj (kfree a h) = (kobj h)(a := None)"
  by (simp add: kfree_def)

lemma kobj_kwrite [simp]: "kobj (kwrite a v h) = (kobj h)(a \<mapsto> v)"
  by (simp add: kwrite_def)

lemma deref_kwrite [simp]: "deref (kwrite a v h) b = (if b = a then v else deref h b)"
  by (simp add: deref_def)

lemma deref_kfree: "b \<noteq> a \<Longrightarrow> deref (kfree a h) b = deref h b"
  by (simp add: deref_def)

lemma kheap_ok_kfree [simp]: "kheap_ok h \<Longrightarrow> kheap_ok (kfree a h)"
  using slab.free_law by blast

lemma kheap_ok_kwrite [simp]: "kheap_ok h \<Longrightarrow> kobj h a = Some w \<Longrightarrow> kheap_ok (kwrite a v h)"
  using slab.store_law [of h a v] by simp

lemma deref_Some [simp]: "kobj h a = Some v \<Longrightarrow> deref h a = v"
  by (simp add: deref_def)

end
