(* ===== verification/Ashmem.thy ===== *)
theory Ashmem
  imports Kernel_List Kernel_Slab
begin

text \<open>
  Anonymous shared memory, \<open>mm/ashmem.c\<close>: the driver state (areas, unpinned ranges, the LRU
  list of evictable ranges and its page count), every operation of the driver, and the
  invariant that ties the three together.  The abstract view of an area is the set of its
  unpinned pages and the set of those that were purged; pinning, unpinning and the shrinker are
  shown to implement the corresponding set operations.
\<close>

subsection \<open>Data\<close>

record ashmem_range =
  asma :: addr
  pgstart :: u32
  pgend :: u32
  purged :: u32

record ashmem_area =
  area_name :: "u8 list"
  unpinned_list :: "addr list"
  area_file :: addr
  area_size :: u32
  prot_mask :: u32

record vm_area =
  vm_flags :: u32
  vm_file :: addr
  vm_shmem_ops :: bool

text \<open>The driver's globals.  \<open>truncated\<close> records the calls of \<open>vmtruncate_range\<close> (file, first
  byte, last byte), \<open>f_count\<close> the reference counts of the files the driver holds.\<close>

record ashmem =
  areas :: "ashmem_area kheap"
  ranges :: "ashmem_range kheap"
  ashmem_lru_list :: "addr list"
  lru_count :: u32
  truncated :: "(addr \<times> u64 \<times> u64) list"
  f_count :: "addr \<Rightarrow> int"

definition PAGE_SIZE :: u32 where "PAGE_SIZE = 0x1000"
definition PAGE_MASK :: u32 where "PAGE_MASK = NOT (PAGE_SIZE - 1)"

definition PAGE_ALIGN :: "u32 \<Rightarrow> u32" where
  "PAGE_ALIGN x = (x + (PAGE_SIZE - 1)) AND NOT (PAGE_SIZE - 1)"

definition ASHMEM_NOT_PURGED :: u32 where "ASHMEM_NOT_PURGED = 0"
definition ASHMEM_WAS_PURGED :: u32 where "ASHMEM_WAS_PURGED = 1"
definition ASHMEM_IS_UNPINNED :: u32 where "ASHMEM_IS_UNPINNED = 0"
definition ASHMEM_IS_PINNED :: u32 where "ASHMEM_IS_PINNED = 1"

definition ASHMEM_NAME_LEN :: nat where "ASHMEM_NAME_LEN = 256"

text \<open>\<open>"dev/ashmem/"\<close> and \<open>"dev/ashmem"\<close> with its terminator.\<close>

definition ASHMEM_NAME_PREFIX :: "u8 list" where
  "ASHMEM_NAME_PREFIX = [100, 101, 118, 47, 97, 115, 104, 109, 101, 109, 47]"

definition ASHMEM_NAME_DEF :: "u8 list" where
  "ASHMEM_NAME_DEF = [100, 101, 118, 47, 97, 115, 104, 109, 101, 109, 0]"

definition ASHMEM_NAME_PREFIX_LEN :: nat where "ASHMEM_NAME_PREFIX_LEN = 11"

definition ASHMEM_FULL_NAME_LEN :: nat where
  "ASHMEM_FULL_NAME_LEN = ASHMEM_NAME_LEN + ASHMEM_NAME_PREFIX_LEN"

definition PROT_READ :: u32 where "PROT_READ = 1"
definition PROT_WRITE :: u32 where "PROT_WRITE = 2"
definition PROT_EXEC :: u32 where "PROT_EXEC = 4"
definition PROT_MASK :: u32 where "PROT_MASK = (PROT_EXEC OR PROT_READ OR PROT_WRITE)"
definition VM_READ :: u32 where "VM_READ = 0x1"
definition VM_WRITE :: u32 where "VM_WRITE = 0x2"
definition VM_EXEC :: u32 where "VM_EXEC = 0x4"
definition VM_SHARED :: u32 where "VM_SHARED = 0x8"
definition VM_MAYREAD :: u32 where "VM_MAYREAD = 0x10"
definition VM_MAYWRITE :: u32 where "VM_MAYWRITE = 0x20"
definition VM_MAYEXEC :: u32 where "VM_MAYEXEC = 0x40"
definition VM_CAN_NONLINEAR :: u32 where "VM_CAN_NONLINEAR = 0x08000000"
definition GFP_FS :: u32 where "GFP_FS = 0x80"
definition GFP_KERNEL :: u32 where "GFP_KERNEL = 0x10 OR 0x40 OR 0x80"

lemmas ashmem_consts = PAGE_SIZE_def PAGE_MASK_def ASHMEM_NOT_PURGED_def ASHMEM_WAS_PURGED_def
  ASHMEM_IS_UNPINNED_def ASHMEM_IS_PINNED_def GFP_FS_def GFP_KERNEL_def

lemmas ashmem_name_consts = ASHMEM_NAME_LEN_def ASHMEM_NAME_PREFIX_def ASHMEM_NAME_DEF_def
  ASHMEM_NAME_PREFIX_LEN_def ASHMEM_FULL_NAME_LEN_def

lemmas ashmem_prot_consts = PROT_READ_def PROT_WRITE_def PROT_EXEC_def PROT_MASK_def VM_READ_def
  VM_WRITE_def VM_EXEC_def VM_SHARED_def VM_MAYREAD_def VM_MAYWRITE_def VM_MAYEXEC_def
  VM_CAN_NONLINEAR_def

subsection \<open>Ranges\<close>

definition range_size :: "ashmem_range \<Rightarrow> u32" where
  "range_size R = pgend R - pgstart R + 1"

definition range_on_lru :: "ashmem_range \<Rightarrow> bool" where
  "range_on_lru R \<longleftrightarrow> purged R = ASHMEM_NOT_PURGED"

definition page_range_subsumes_range :: "ashmem_range \<Rightarrow> u32 \<Rightarrow> u32 \<Rightarrow> bool" where
  "page_range_subsumes_range R start stop \<longleftrightarrow> pgstart R \<ge> start \<and> pgend R \<le> stop"

definition page_range_subsumed_by_range :: "ashmem_range \<Rightarrow> u32 \<Rightarrow> u32 \<Rightarrow> bool" where
  "page_range_subsumed_by_range R start stop \<longleftrightarrow> pgstart R \<le> start \<and> pgend R \<ge> stop"

definition page_in_range :: "ashmem_range \<Rightarrow> u32 \<Rightarrow> bool" where
  "page_in_range R page \<longleftrightarrow> pgstart R \<le> page \<and> pgend R \<ge> page"

definition page_range_in_range :: "ashmem_range \<Rightarrow> u32 \<Rightarrow> u32 \<Rightarrow> bool" where
  "page_range_in_range R start stop \<longleftrightarrow>
     page_in_range R start \<or> page_in_range R stop \<or> page_range_subsumes_range R start stop"

definition range_before_page :: "ashmem_range \<Rightarrow> u32 \<Rightarrow> bool" where
  "range_before_page R page \<longleftrightarrow> pgend R < page"

lemmas range_preds = page_range_subsumes_range_def page_range_subsumed_by_range_def
  page_in_range_def page_range_in_range_def range_before_page_def

abbreviation rng :: "ashmem \<Rightarrow> addr \<Rightarrow> ashmem_range" where
  "rng s r \<equiv> deref (ranges s) r"

abbreviation area :: "ashmem \<Rightarrow> addr \<Rightarrow> ashmem_area" where
  "area s a \<equiv> deref (areas s) a"

definition lru_add :: "addr \<Rightarrow> ashmem \<Rightarrow> ashmem" where
  "lru_add r s = s\<lparr>ashmem_lru_list := ashmem_lru_list s @ [r],
                   lru_count := lru_count s + range_size (rng s r)\<rparr>"

definition lru_del :: "addr \<Rightarrow> ashmem \<Rightarrow> ashmem" where
  "lru_del r s = s\<lparr>ashmem_lru_list := remove1 r (ashmem_lru_list s),
                   lru_count := lru_count s - range_size (rng s r)\<rparr>"

text \<open>The unpinned list of an area; \<open>set_unpinned a f\<close> rewrites it, and \<open>unlink_unpinned r\<close> is
  \<open>list_del(&range->unpinned)\<close>, which takes the entry out of the list that holds it.\<close>

definition ulist :: "ashmem \<Rightarrow> addr \<Rightarrow> addr list" where
  "ulist s a = (case kobj (areas s) a of None \<Rightarrow> [] | Some A \<Rightarrow> unpinned_list A)"

definition set_unpinned :: "addr \<Rightarrow> (addr list \<Rightarrow> addr list) \<Rightarrow> ashmem \<Rightarrow> ashmem" where
  "set_unpinned a f s =
     s\<lparr>areas := kwrite a ((area s a)\<lparr>unpinned_list := f (unpinned_list (area s a))\<rparr>) (areas s)\<rparr>"

definition unlink_unpinned :: "addr \<Rightarrow> ashmem \<Rightarrow> ashmem" where
  "unlink_unpinned r s =
     s\<lparr>areas := (areas s)\<lparr>kobj := \<lambda>a. map_option
        (\<lambda>A. A\<lparr>unpinned_list := remove1 r (unpinned_list A)\<rparr>) (kobj (areas s) a)\<rparr>\<rparr>"

text \<open>The list position is the entry the new range is put in front of, or \<open>None\<close> for the list
  head: what \<open>list_for_each_entry_safe\<close> leaves in its cursor when it runs off the end.\<close>

definition add_tail_at :: "addr option \<Rightarrow> addr \<Rightarrow> addr list \<Rightarrow> addr list" where
  "add_tail_at pos r xs = (case pos of None \<Rightarrow> xs @ [r] | Some p \<Rightarrow> insert_before p r xs)"

definition range_alloc ::
    "addr \<Rightarrow> addr option \<Rightarrow> u32 \<Rightarrow> u32 \<Rightarrow> u32 \<Rightarrow> ashmem \<Rightarrow> (errno + u32) \<times> ashmem" where
  "range_alloc a prev_range purged0 start stop s =
     (case kzalloc \<lparr>asma = a, pgstart = start, pgend = stop, purged = purged0\<rparr> (ranges s) of
        (None, h) \<Rightarrow> (Inl ENOMEM, s\<lparr>ranges := h\<rparr>)
      | (Some r, h) \<Rightarrow>
          (let s1 = set_unpinned a (add_tail_at prev_range r) (s\<lparr>ranges := h\<rparr>)
           in (Inr 0, if range_on_lru (rng s1 r) then lru_add r s1 else s1)))"

definition range_del :: "addr \<Rightarrow> ashmem \<Rightarrow> ashmem" where
  "range_del r s =
     (let s1 = unlink_unpinned r s;
          s2 = (if range_on_lru (rng s1 r) then lru_del r s1 else s1)
      in s2\<lparr>ranges := kfree r (ranges s2)\<rparr>)"

definition range_shrink :: "addr \<Rightarrow> u32 \<Rightarrow> u32 \<Rightarrow> ashmem \<Rightarrow> ashmem" where
  "range_shrink r start stop s =
     (let pre = range_size (rng s r);
          R = (rng s r)\<lparr>pgstart := start, pgend := stop\<rparr>;
          s1 = s\<lparr>ranges := kwrite r R (ranges s)\<rparr>
      in if range_on_lru R then s1\<lparr>lru_count := lru_count s1 - (pre - range_size R)\<rparr> else s1)"

subsection \<open>Opening, closing, reading, mapping\<close>

definition ashmem_open :: "ashmem \<Rightarrow> (errno + addr) \<times> ashmem" where
  "ashmem_open s =
     (case kzalloc \<lparr>area_name = ASHMEM_NAME_PREFIX @ replicate ASHMEM_NAME_LEN 0,
                    unpinned_list = [], area_file = 0, area_size = 0, prot_mask = PROT_MASK\<rparr>
                   (areas s) of
        (None, h) \<Rightarrow> (Inl ENOMEM, s\<lparr>areas := h\<rparr>)
      | (Some a, h) \<Rightarrow> (Inr a, s\<lparr>areas := h\<rparr>))"

definition fput :: "addr \<Rightarrow> ashmem \<Rightarrow> ashmem" where
  "fput f s = s\<lparr>f_count := (f_count s)(f := f_count s f - 1)\<rparr>"

definition get_file :: "addr \<Rightarrow> ashmem \<Rightarrow> ashmem" where
  "get_file f s = s\<lparr>f_count := (f_count s)(f := f_count s f + 1)\<rparr>"

definition ashmem_release :: "addr \<Rightarrow> ashmem \<Rightarrow> (errno + u32) \<times> ashmem" where
  "ashmem_release a s =
     (let s1 = fold range_del (ulist s a) s;
          s2 = (if area_file (area s1 a) \<noteq> 0 then fput (area_file (area s1 a)) s1 else s1)
      in (Inr 0, s2\<lparr>areas := kfree a (areas s2)\<rparr>))"

text \<open>\<open>fread\<close> stands for the read operation of the backing shmem file.\<close>

definition ashmem_read :: "(addr \<Rightarrow> errno + u32) \<Rightarrow> addr \<Rightarrow> ashmem \<Rightarrow> errno + u32" where
  "ashmem_read fread a s =
     (if area_size (area s a) = 0 then Inr 0
      else if area_file (area s a) = 0 then Inl EBADF
      else fread (area_file (area s a)))"

definition calc_vm_trans :: "u32 \<Rightarrow> u32 \<Rightarrow> u32 \<Rightarrow> u32" where
  "calc_vm_trans x bit1 bit2 =
     (if bit1 \<le> bit2 then (x AND bit1) * (bit2 div bit1) else (x AND bit1) div (bit1 div bit2))"

definition calc_vm_prot_bits :: "u32 \<Rightarrow> u32" where
  "calc_vm_prot_bits prot =
     (calc_vm_trans prot PROT_READ VM_READ OR calc_vm_trans prot PROT_WRITE VM_WRITE
      OR calc_vm_trans prot PROT_EXEC VM_EXEC OR 0)"

definition calc_vm_may_flags :: "u32 \<Rightarrow> u32" where
  "calc_vm_may_flags prot =
     (calc_vm_trans prot PROT_READ VM_MAYREAD OR calc_vm_trans prot PROT_WRITE VM_MAYWRITE
      OR calc_vm_trans prot PROT_EXEC VM_MAYEXEC)"

definition shmem_set_file :: "vm_area \<Rightarrow> addr \<Rightarrow> ashmem \<Rightarrow> vm_area \<times> ashmem" where
  "shmem_set_file vma f s =
     (vma\<lparr>vm_file := f, vm_shmem_ops := True\<rparr>,
      if vm_file vma \<noteq> 0 then fput (vm_file vma) s else s)"

text \<open>\<open>setup\<close> stands for \<open>shmem_file_setup\<close>: the backing file, with one reference, or an error.\<close>

definition ashmem_mmap ::
    "(u8 list \<Rightarrow> u32 \<Rightarrow> u32 \<Rightarrow> errno + addr) \<Rightarrow> addr \<Rightarrow> vm_area \<Rightarrow> ashmem
      \<Rightarrow> (errno + u32) \<times> vm_area \<times> ashmem" where
  "ashmem_mmap setup a vma s =
     (let A = area s a in
      if area_size A = 0 then (Inl EINVAL, vma, s)
      else if (vm_flags vma AND NOT (calc_vm_prot_bits (prot_mask A)))
                AND calc_vm_prot_bits PROT_MASK \<noteq> 0
      then (Inl EPERM, vma, s)
      else
       (let vma1 = vma\<lparr>vm_flags := vm_flags vma AND NOT (calc_vm_may_flags (NOT (prot_mask A)))\<rparr>;
            name = (if area_name A ! ASHMEM_NAME_PREFIX_LEN \<noteq> 0 then area_name A
                    else ASHMEM_NAME_DEF);
            r = (if area_file A = 0
                 then (case setup name (area_size A) (vm_flags vma1) of
                         Inl e \<Rightarrow> Inl e
                       | Inr f \<Rightarrow> Inr (s\<lparr>areas := kwrite a (A\<lparr>area_file := f\<rparr>) (areas s),
                                         f_count := (f_count s)(f := 1)\<rparr>))
                 else Inr s)
        in case r of
             Inl e \<Rightarrow> (Inl e, vma1, s)
           | Inr s1 \<Rightarrow>
              (let f = area_file (area s1 a);
                   s2 = get_file f s1;
                   (vma2, s3) =
                     (if vm_flags vma1 AND VM_SHARED \<noteq> 0 then shmem_set_file vma1 f s2
                      else (vma1\<lparr>vm_file := f\<rparr>,
                            if vm_file vma1 \<noteq> 0 then fput (vm_file vma1) s2 else s2))
               in (Inr 0, vma2\<lparr>vm_flags := vm_flags vma2 OR VM_CAN_NONLINEAR\<rparr>, s3))))"

subsection \<open>The shrinker\<close>

definition vmtruncate_range :: "addr \<Rightarrow> u64 \<Rightarrow> u64 \<Rightarrow> ashmem \<Rightarrow> ashmem" where
  "vmtruncate_range f start stop s = s\<lparr>truncated := truncated s @ [(f, start, stop)]\<rparr>"

fun ashmem_shrink_loop :: "addr list \<Rightarrow> u32 \<Rightarrow> ashmem \<Rightarrow> ashmem" where
  "ashmem_shrink_loop [] nr s = s"
| "ashmem_shrink_loop (r # rs) nr s =
     (let R = rng s r;
          start = ucast (pgstart R * PAGE_SIZE);
          stop = ucast ((pgend R + 1) * PAGE_SIZE - 1);
          s1 = vmtruncate_range (area_file (area s (asma R))) start stop s;
          s2 = s1\<lparr>ranges := kwrite r (R\<lparr>purged := ASHMEM_WAS_PURGED\<rparr>) (ranges s1)\<rparr>;
          s3 = lru_del r s2;
          nr' = nr - range_size R
      in if sint nr' \<le> 0 then s3 else ashmem_shrink_loop rs nr' s3)"

text \<open>\<open>trylock\<close> is the outcome of \<open>mutex_trylock(&ashmem_mutex)\<close>.\<close>

definition ashmem_shrink :: "bool \<Rightarrow> u32 \<Rightarrow> u32 \<Rightarrow> ashmem \<Rightarrow> u32 \<times> ashmem" where
  "ashmem_shrink trylock nr_to_scan gfp_mask s =
     (if nr_to_scan \<noteq> 0 \<and> gfp_mask AND GFP_FS = 0 then (-1, s)
      else if nr_to_scan = 0 then (lru_count s, s)
      else if \<not> trylock then (-1, s)
      else let s1 = ashmem_shrink_loop (ashmem_lru_list s) nr_to_scan s in (lru_count s1, s1))"

subsection \<open>Protection mask and name\<close>

text \<open>\<open>rie\<close>: the personality of the caller has \<open>READ_IMPLIES_EXEC\<close>.\<close>

definition set_prot_mask :: "bool \<Rightarrow> addr \<Rightarrow> u32 \<Rightarrow> ashmem \<Rightarrow> (errno + u32) \<times> ashmem" where
  "set_prot_mask rie a prot s =
     (if prot_mask (area s a) AND prot \<noteq> prot then (Inl EINVAL, s)
      else (let prot' = (if prot AND PROT_READ \<noteq> 0 \<and> rie then prot OR PROT_EXEC else prot)
            in (Inr 0, s\<lparr>areas := kwrite a ((area s a)\<lparr>prot_mask := prot'\<rparr>) (areas s)\<rparr>)))"

definition set_name :: "addr \<Rightarrow> u8 list \<Rightarrow> ashmem \<Rightarrow> (errno + u32) \<times> ashmem" where
  "set_name a user_name s =
     (if area_file (area s a) \<noteq> 0 then (Inl EINVAL, s)
      else (let (bytes, uncopied) = copy_from_user user_name ASHMEM_NAME_LEN;
                nm = (take ASHMEM_NAME_PREFIX_LEN (area_name (area s a)) @ bytes)
                       [ASHMEM_FULL_NAME_LEN - 1 := 0]
            in (if uncopied \<noteq> 0 then Inl EFAULT else Inr 0,
                s\<lparr>areas := kwrite a ((area s a)\<lparr>area_name := nm\<rparr>) (areas s)\<rparr>)))"

definition strlen :: "u8 list \<Rightarrow> nat" where
  "strlen bs = length (takeWhile (\<lambda>b. b \<noteq> 0) bs)"

text \<open>The bytes handed to the user, who has room for \<open>room\<close> of them.\<close>

definition get_name :: "addr \<Rightarrow> nat \<Rightarrow> ashmem \<Rightarrow> errno + u8 list" where
  "get_name a room s =
     (let nm = area_name (area s a) in
      if nm ! ASHMEM_NAME_PREFIX_LEN \<noteq> 0 then
        (let len = strlen (drop ASHMEM_NAME_PREFIX_LEN nm) + 1
         in if len \<le> room then Inr (take len (drop ASHMEM_NAME_PREFIX_LEN nm)) else Inl EFAULT)
      else if length ASHMEM_NAME_DEF \<le> room then Inr ASHMEM_NAME_DEF else Inl EFAULT)"

subsection \<open>Pinning and unpinning\<close>

fun ashmem_pin_loop ::
    "addr \<Rightarrow> u32 \<Rightarrow> u32 \<Rightarrow> addr list \<Rightarrow> u32 \<Rightarrow> ashmem \<Rightarrow> u32 \<times> ashmem" where
  "ashmem_pin_loop a ps pe [] ret s = (ret, s)"
| "ashmem_pin_loop a ps pe (r # rs) ret s =
     (let R = rng s r in
      if range_before_page R ps then (ret, s)
      else if page_range_in_range R ps pe then
       (let ret' = ret OR purged R in
        if page_range_subsumes_range R ps pe then ashmem_pin_loop a ps pe rs ret' (range_del r s)
        else if pgstart R \<ge> ps then
          ashmem_pin_loop a ps pe rs ret' (range_shrink r (pe + 1) (pgend R) s)
        else if pgend R \<le> pe then
          ashmem_pin_loop a ps pe rs ret' (range_shrink r (pgstart R) (ps - 1) s)
        else
          (let s1 = snd (range_alloc a (Some r) (purged R) (pe + 1) (pgend R) s)
           in (ret', range_shrink r (pgstart R) (ps - 1) s1)))
      else ashmem_pin_loop a ps pe rs ret s)"

definition ashmem_pin :: "addr \<Rightarrow> u32 \<Rightarrow> u32 \<Rightarrow> ashmem \<Rightarrow> u32 \<times> ashmem" where
  "ashmem_pin a ps pe s = ashmem_pin_loop a ps pe (ulist s a) ASHMEM_NOT_PURGED s"

text \<open>One pass of the loop of \<open>ashmem_unpin\<close>: the pages are already covered, or a range has to be
  merged (after which the code restarts the pass), or the place for the new range is found.\<close>

datatype unpin_scan = Unpin_covered | Unpin_merge addr | Unpin_insert "addr option"

fun ashmem_unpin_pass :: "ashmem \<Rightarrow> u32 \<Rightarrow> u32 \<Rightarrow> addr list \<Rightarrow> unpin_scan" where
  "ashmem_unpin_pass s ps pe [] = Unpin_insert None"
| "ashmem_unpin_pass s ps pe (r # rs) =
     (let R = rng s r in
      if range_before_page R ps then Unpin_insert (Some r)
      else if page_range_subsumed_by_range R ps pe then Unpin_covered
      else if page_range_in_range R ps pe then Unpin_merge r
      else ashmem_unpin_pass s ps pe rs)"

lemma unpin_pass_merge_mem: "ashmem_unpin_pass s ps pe rs = Unpin_merge r \<Longrightarrow> r \<in> set rs"
  by (induction rs) (auto simp: Let_def split: if_splits)

lemma ulist_range_del: "ulist (range_del r s) a = remove1 r (ulist s a)"
  by (auto simp: ulist_def range_del_def unlink_unpinned_def lru_del_def Let_def
      split: option.splits)

function ashmem_unpin_loop ::
    "addr \<Rightarrow> u32 \<Rightarrow> u32 \<Rightarrow> u32 \<Rightarrow> ashmem \<Rightarrow> (errno + u32) \<times> ashmem" where
  "ashmem_unpin_loop a ps pe pg s =
     (case ashmem_unpin_pass s ps pe (ulist s a) of
        Unpin_covered \<Rightarrow> (Inr 0, s)
      | Unpin_merge r \<Rightarrow>
          ashmem_unpin_loop a (min (pgstart (rng s r)) ps) (max (pgend (rng s r)) pe)
            (pg OR purged (rng s r)) (range_del r s)
      | Unpin_insert pos \<Rightarrow> range_alloc a pos pg ps pe s)"
  by pat_completeness auto
termination
  by (relation "measure (\<lambda>(a, ps, pe, pg, s). length (ulist s a))")
     (auto simp: ulist_range_del dest!: unpin_pass_merge_mem intro: length_remove1_less)

declare ashmem_unpin_loop.simps [simp del]

definition ashmem_unpin :: "addr \<Rightarrow> u32 \<Rightarrow> u32 \<Rightarrow> ashmem \<Rightarrow> (errno + u32) \<times> ashmem" where
  "ashmem_unpin a ps pe s = ashmem_unpin_loop a ps pe ASHMEM_NOT_PURGED s"

fun ashmem_pin_status_loop :: "ashmem \<Rightarrow> u32 \<Rightarrow> u32 \<Rightarrow> addr list \<Rightarrow> u32" where
  "ashmem_pin_status_loop s ps pe [] = ASHMEM_IS_PINNED"
| "ashmem_pin_status_loop s ps pe (r # rs) =
     (if range_before_page (rng s r) ps then ASHMEM_IS_PINNED
      else if page_range_in_range (rng s r) ps pe then ASHMEM_IS_UNPINNED
      else ashmem_pin_status_loop s ps pe rs)"

definition ashmem_get_pin_status :: "addr \<Rightarrow> u32 \<Rightarrow> u32 \<Rightarrow> ashmem \<Rightarrow> u32" where
  "ashmem_get_pin_status a ps pe s = ashmem_pin_status_loop s ps pe (ulist s a)"

subsection \<open>The ioctls\<close>

datatype pin_cmd = ASHMEM_PIN | ASHMEM_UNPIN | ASHMEM_GET_PIN_STATUS

text \<open>The page interval of a pin request (offset and length in bytes), or the error.\<close>

definition pin_interval :: "u32 \<Rightarrow> u32 \<times> u32 \<Rightarrow> errno + (u32 \<times> u32)" where
  "pin_interval sz pin =
     (let offset = fst pin;
          len = (if snd pin = 0 then PAGE_ALIGN sz - offset else snd pin)
      in if (offset OR len) AND NOT PAGE_MASK \<noteq> 0 then Inl EINVAL
         else if (-1) - offset < len then Inl EINVAL
         else if PAGE_ALIGN sz < offset + len then Inl EINVAL
         else (let ps = offset div PAGE_SIZE in Inr (ps, ps + len div PAGE_SIZE - 1)))"

text \<open>\<open>pin\<close> is \<open>None\<close> when the argument cannot be copied from user space.\<close>

definition ashmem_pin_unpin ::
    "addr \<Rightarrow> pin_cmd \<Rightarrow> (u32 \<times> u32) option \<Rightarrow> ashmem \<Rightarrow> (errno + u32) \<times> ashmem" where
  "ashmem_pin_unpin a cmd pin s =
     (if area_file (area s a) = 0 then (Inl EINVAL, s)
      else case pin of
        None \<Rightarrow> (Inl EFAULT, s)
      | Some p \<Rightarrow>
          (case pin_interval (area_size (area s a)) p of
             Inl e \<Rightarrow> (Inl e, s)
           | Inr (ps, pe) \<Rightarrow>
              (case cmd of
                 ASHMEM_PIN \<Rightarrow> (let (ret, s1) = ashmem_pin a ps pe s in (Inr ret, s1))
               | ASHMEM_UNPIN \<Rightarrow> ashmem_unpin a ps pe s
               | ASHMEM_GET_PIN_STATUS \<Rightarrow> (Inr (ashmem_get_pin_status a ps pe s), s))))"

datatype ashmem_cmd =
    ASHMEM_SET_NAME "u8 list"
  | ASHMEM_GET_NAME nat
  | ASHMEM_SET_SIZE u32
  | ASHMEM_GET_SIZE
  | ASHMEM_SET_PROT_MASK u32
  | ASHMEM_GET_PROT_MASK
  | ASHMEM_PIN_CMD pin_cmd "(u32 \<times> u32) option"
  | ASHMEM_PURGE_ALL_CACHES
  | ASHMEM_OTHER

record ashmem_caller =
  read_implies_exec :: bool
  cap_sys_admin :: bool
  lock_free :: bool

definition ashmem_ioctl ::
    "ashmem_caller \<Rightarrow> addr \<Rightarrow> ashmem_cmd \<Rightarrow> ashmem \<Rightarrow> (errno + u32) \<times> ashmem" where
  "ashmem_ioctl c a cmd s =
     (case cmd of
        ASHMEM_SET_NAME nm \<Rightarrow> set_name a nm s
      | ASHMEM_GET_NAME room \<Rightarrow> (map_sum id (\<lambda>_. 0) (get_name a room s), s)
      | ASHMEM_SET_SIZE sz \<Rightarrow>
          (if area_file (area s a) = 0
           then (Inr 0, s\<lparr>areas := kwrite a ((area s a)\<lparr>area_size := sz\<rparr>) (areas s)\<rparr>)
           else (Inl EINVAL, s))
      | ASHMEM_GET_SIZE \<Rightarrow> (Inr (area_size (area s a)), s)
      | ASHMEM_SET_PROT_MASK prot \<Rightarrow> set_prot_mask (read_implies_exec c) a prot s
      | ASHMEM_GET_PROT_MASK \<Rightarrow> (Inr (prot_mask (area s a)), s)
      | ASHMEM_PIN_CMD pc pin \<Rightarrow> ashmem_pin_unpin a pc pin s
      | ASHMEM_PURGE_ALL_CACHES \<Rightarrow>
          (if cap_sys_admin c
           then (let (ret, s1) = ashmem_shrink (lock_free c) 0 GFP_KERNEL s;
                     s2 = snd (ashmem_shrink (lock_free c) ret GFP_KERNEL s1)
                 in (Inr ret, s2))
           else (Inl EPERM, s))
      | ASHMEM_OTHER \<Rightarrow> (Inl ENOTTY, s))"

subsection \<open>The driver invariant\<close>

text \<open>Every unpinned list is sorted by descending page, without overlap; the live ranges are
  exactly the entries of the unpinned lists of their areas; the LRU list holds exactly the live
  ranges that were not purged, and \<open>lru_count\<close> is their number of pages.\<close>

definition desc :: "ashmem \<Rightarrow> addr list \<Rightarrow> bool" where
  "desc s xs \<longleftrightarrow> sorted_wrt (\<lambda>r q. pgend (rng s q) < pgstart (rng s r)) xs"

definition range_ok :: "ashmem_range \<Rightarrow> bool" where
  "range_ok R \<longleftrightarrow>
     pgstart R \<le> pgend R \<and> pgend R < 0x100000 \<and> (purged R = 0 \<or> purged R = 1)"

definition area_ok :: "ashmem_area \<Rightarrow> bool" where
  "area_ok A \<longleftrightarrow> (unpinned_list A \<noteq> [] \<longrightarrow> area_file A \<noteq> 0)
     \<and> (area_file A \<noteq> 0 \<longrightarrow> area_size A \<noteq> 0)
     \<and> length (area_name A) = ASHMEM_FULL_NAME_LEN
     \<and> area_name A ! (ASHMEM_FULL_NAME_LEN - 1) = 0
     \<and> take ASHMEM_NAME_PREFIX_LEN (area_name A) = ASHMEM_NAME_PREFIX"

definition ashmem_inv :: "ashmem \<Rightarrow> bool" where
  "ashmem_inv s \<longleftrightarrow>
     kheap_ok (areas s) \<and> kheap_ok (ranges s)
   \<and> (\<forall>a. distinct (ulist s a) \<and> desc s (ulist s a))
   \<and> (\<forall>a r. r \<in> set (ulist s a) \<longleftrightarrow> (\<exists>R. kobj (ranges s) r = Some R \<and> asma R = a))
   \<and> (\<forall>r R. kobj (ranges s) r = Some R \<longrightarrow> range_ok R)
   \<and> distinct (ashmem_lru_list s)
   \<and> (\<forall>r. r \<in> set (ashmem_lru_list s) \<longleftrightarrow> (\<exists>R. kobj (ranges s) r = Some R \<and> purged R = 0))
   \<and> lru_count s = (\<Sum>r\<leftarrow>ashmem_lru_list s. range_size (rng s r))
   \<and> (\<forall>a A. kobj (areas s) a = Some A \<longrightarrow> area_ok A)"

lemma desc_cong: "(\<And>q. q \<in> set xs \<Longrightarrow> pgstart (rng s' q) = pgstart (rng s q) \<and>
    pgend (rng s' q) = pgend (rng s q)) \<Longrightarrow> desc s' xs = desc s xs"
  unfolding desc_def by (auto elim!: sorted_wrt_mono_rel [rotated])

lemma ashmem_invD:
  assumes "ashmem_inv s"
  shows "kheap_ok (areas s)" "kheap_ok (ranges s)" "distinct (ulist s a)" "desc s (ulist s a)"
    "r \<in> set (ulist s a) \<longleftrightarrow> (\<exists>R. kobj (ranges s) r = Some R \<and> asma R = a)"
    "kobj (ranges s) r = Some R \<Longrightarrow> range_ok R"
    "distinct (ashmem_lru_list s)"
    "r \<in> set (ashmem_lru_list s) \<longleftrightarrow> (\<exists>R. kobj (ranges s) r = Some R \<and> purged R = 0)"
    "lru_count s = (\<Sum>r\<leftarrow>ashmem_lru_list s. range_size (rng s r))"
    "kobj (areas s) a = Some A \<Longrightarrow> area_ok A"
  using assms unfolding ashmem_inv_def by blast+

lemma ashmem_invI:
  assumes "kheap_ok (areas s)" "kheap_ok (ranges s)"
    "\<And>a. distinct (ulist s a)" "\<And>a. desc s (ulist s a)"
    "\<And>a r. r \<in> set (ulist s a) \<longleftrightarrow> (\<exists>R. kobj (ranges s) r = Some R \<and> asma R = a)"
    "\<And>r R. kobj (ranges s) r = Some R \<Longrightarrow> range_ok R"
    "distinct (ashmem_lru_list s)"
    "\<And>r. r \<in> set (ashmem_lru_list s) \<longleftrightarrow> (\<exists>R. kobj (ranges s) r = Some R \<and> purged R = 0)"
    "lru_count s = (\<Sum>r\<leftarrow>ashmem_lru_list s. range_size (rng s r))"
    "\<And>a A. kobj (areas s) a = Some A \<Longrightarrow> area_ok A"
  shows "ashmem_inv s"
  unfolding ashmem_inv_def using assms by (intro conjI allI impI) simp_all

lemma ulist_ranges [simp]: "ulist (s\<lparr>ranges := h\<rparr>) a = ulist s a"
  by (simp add: ulist_def)

text \<open>The effect of \<open>range_del\<close>, field by field.\<close>

lemma range_del_simps [simp]:
  assumes "kobj (ranges s) r = Some R"
  shows "kobj (ranges (range_del r s)) = (kobj (ranges s))(r := None)"
    "ashmem_lru_list (range_del r s) =
       (if purged R = 0 then remove1 r (ashmem_lru_list s) else ashmem_lru_list s)"
    "lru_count (range_del r s) =
       (if purged R = 0 then lru_count s - range_size R else lru_count s)"
    "kheap_ok (ranges s) \<Longrightarrow> kheap_ok (ranges (range_del r s))"
    "kheap_ok (areas (range_del r s)) = kheap_ok (areas s)"
    "q \<noteq> r \<Longrightarrow> rng (range_del r s) q = rng s q"
    "truncated (range_del r s) = truncated s"
  using assms
  by (auto simp: range_del_def Let_def unlink_unpinned_def lru_del_def range_on_lru_def
      ashmem_consts deref_def kheap_ok_def kfree_def domIff split: if_splits)

lemma area_range_del:
  "kobj (areas (range_del r s)) a =
     map_option (\<lambda>A. A\<lparr>unpinned_list := remove1 r (unpinned_list A)\<rparr>) (kobj (areas s) a)"
  by (simp add: range_del_def Let_def unlink_unpinned_def lru_del_def)

lemma sum_range_size_cong:
  "(\<And>q. q \<in> set xs \<Longrightarrow> range_size (f q) = range_size (g q)) \<Longrightarrow>
   (\<Sum>r\<leftarrow>xs. range_size (f r)) = (\<Sum>r\<leftarrow>xs. range_size (g r))"
  by (rule arg_cong [where f = sum_list]) simp

lemma range_del_inv [inv_intros]:
  assumes inv: "ashmem_inv s" and r: "kobj (ranges s) r = Some R"
  shows "ashmem_inv (range_del r s)"
proof -
  note D = ashmem_invD [OF inv] and S = range_del_simps [OF r]
  have desc: "desc (range_del r s) (remove1 r (ulist s a))" for a
  proof -
    have "desc s (remove1 r (ulist s a))" using D(4) unfolding desc_def by (rule sorted_wrt_remove1)
    moreover have "r \<notin> set (remove1 r (ulist s a))" using D(3) by simp
    ultimately show ?thesis using S(6) by (subst desc_cong [where s = s]) metis+
  qed
  have lru: "(\<Sum>q\<leftarrow>ashmem_lru_list (range_del r s). range_size (rng (range_del r s) q))
      = lru_count (range_del r s)"
  proof -
    have notin: "r \<notin> set (ashmem_lru_list (range_del r s))"
      using D(7,8) r by (auto simp: S)
    have "(\<Sum>q\<leftarrow>ashmem_lru_list (range_del r s). range_size (rng (range_del r s) q))
      = (\<Sum>q\<leftarrow>ashmem_lru_list (range_del r s). range_size (rng s q))"
      using notin S(6) by (intro sum_range_size_cong) metis
    also have "\<dots> = lru_count (range_del r s)"
      using D(8) [of r] D(9) r by (auto simp: S sum_list_remove1)
    finally show ?thesis .
  qed
  have ar: "area_ok A" if k: "kobj (areas (range_del r s)) a = Some A" for a A
  proof -
    obtain B where "kobj (areas s) a = Some B" "A = B\<lparr>unpinned_list := remove1 r (unpinned_list B)\<rparr>"
      using k by (auto simp: area_range_del)
    with D(10) [of a B] show ?thesis by (auto simp: area_ok_def)
  qed
  show ?thesis
    unfolding ashmem_inv_def
    using D(1,2,3,5,6,7,8) r desc lru ar by (auto simp: S ulist_range_del split: if_splits)
qed

text \<open>The effect of \<open>range_shrink\<close>, and that shrinking a range to a non-empty part of itself keeps
  the invariant.\<close>

lemma range_shrink_simps [simp]:
  assumes "kobj (ranges s) r = Some R"
  shows "kobj (ranges (range_shrink r b e s)) = (kobj (ranges s))(r \<mapsto> R\<lparr>pgstart := b, pgend := e\<rparr>)"
    "ashmem_lru_list (range_shrink r b e s) = ashmem_lru_list s"
    "lru_count (range_shrink r b e s) =
       (if purged R = 0
        then lru_count s - (range_size R - range_size (R\<lparr>pgstart := b, pgend := e\<rparr>))
        else lru_count s)"
    "areas (range_shrink r b e s) = areas s"
    "ulist (range_shrink r b e s) a = ulist s a"
    "kheap_ok (ranges s) \<Longrightarrow> kheap_ok (ranges (range_shrink r b e s))"
    "rng (range_shrink r b e s) q = (if q = r then R\<lparr>pgstart := b, pgend := e\<rparr> else rng s q)"
    "truncated (range_shrink r b e s) = truncated s"
  using assms
  by (auto simp: range_shrink_def Let_def range_on_lru_def ashmem_consts ulist_def domIff
      split: if_splits)

lemma range_shrink_inv [inv_intros]:
  assumes inv: "ashmem_inv s" and r: "kobj (ranges s) r = Some R"
    and be: "pgstart R \<le> b" "b \<le> e" "e \<le> pgend R"
  shows "ashmem_inv (range_shrink r b e s)"
proof -
  let ?R = "R\<lparr>pgstart := b, pgend := e\<rparr>" and ?s = "range_shrink r b e s"
  note D = ashmem_invD [OF inv] and S = range_shrink_simps [OF r]
  have desc: "desc ?s (ulist s a)" for a
    using D(4) [of a] unfolding desc_def
    by (rule sorted_wrt_mono_rel [rotated]) (use be r in \<open>auto simp: S\<close>)
  have upd: "(\<lambda>q. range_size (rng ?s q)) = (\<lambda>q. range_size (rng s q))(r := range_size ?R)"
    by (auto simp: S)
  have lru: "lru_count ?s = (\<Sum>q\<leftarrow>ashmem_lru_list ?s. range_size (rng ?s q))"
  proof (cases "purged R = 0")
    case True
    then have "r \<in> set (ashmem_lru_list s)" using D(8) r by auto
    then show ?thesis unfolding upd S(2,3) using True r D(7) D(9) by (simp add: sum_list_map_upd)
  next
    case False
    then have "r \<notin> set (ashmem_lru_list s)" using D(8) r by auto
    then show ?thesis unfolding upd S(2,3) using False D(9) by (simp add: sum_list_map_upd_notin)
  qed
  have ok: "range_ok Q" if "kobj (ranges ?s) q = Some Q" for q Q
    using that D(6) [of q Q] D(6) [OF r] be by (auto simp: S range_ok_def split: if_splits)
  show ?thesis
    unfolding ashmem_inv_def
    using D(1,2,3,5,7,8,10) r desc lru ok by (auto simp: S split: if_splits)
qed

text \<open>The effect of \<open>range_alloc\<close>.\<close>

lemma range_alloc_cases:
  assumes "kheap_ok (ranges s)"
  obtains
    (fail) h where "range_alloc a pos pg b e s = (Inl ENOMEM, s\<lparr>ranges := h\<rparr>)"
      "kobj h = kobj (ranges s)" "kheap_ok h"
  | (ok) r s' where "range_alloc a pos pg b e s = (Inr 0, s')"
      "kobj (ranges s) r = None" "kheap_ok (ranges s')"
      "kobj (ranges s') = (kobj (ranges s))(r \<mapsto> \<lparr>asma = a, pgstart = b, pgend = e, purged = pg\<rparr>)"
      "areas s' = kwrite a ((area s a)\<lparr>unpinned_list := add_tail_at pos r (unpinned_list (area s a))\<rparr>)
                    (areas s)"
      "ashmem_lru_list s' = (if pg = 0 then ashmem_lru_list s @ [r] else ashmem_lru_list s)"
      "lru_count s' = (if pg = 0 then lru_count s + (e - b + 1) else lru_count s)"
      "truncated s' = truncated s"
proof -
  let ?R = "\<lparr>asma = a, pgstart = b, pgend = e, purged = pg\<rparr>"
  obtain o' h where z: "kzalloc ?R (ranges s) = (o', h)" by fastforce
  show thesis
  proof (cases o')
    case None
    with z slab.alloc_None [OF assms, of ?R h] show thesis
      by (intro fail [of h]) (auto simp: range_alloc_def)
  next
    case (Some r)
    with z slab.alloc_Some [OF assms, of ?R r h]
    have h: "kheap_ok h" "kobj (ranges s) r = None" "kobj h = (kobj (ranges s))(r \<mapsto> ?R)" by auto
    show thesis
      by (rule ok [of "snd (range_alloc a pos pg b e s)" r])
         (use z Some h in \<open>auto simp: range_alloc_def Let_def set_unpinned_def lru_add_def
            range_on_lru_def range_size_def ashmem_consts deref_def\<close>)
  qed
qed

lemma add_tail_at_split:
  "pos = (case zs of [] \<Rightarrow> None | z # _ \<Rightarrow> Some z) \<Longrightarrow> distinct (ys @ zs) \<Longrightarrow>
   add_tail_at pos r (ys @ zs) = ys @ r # zs"
  by (auto simp: add_tail_at_def insert_before_split split: list.splits)

lemma ulist_kwrite_area:
  "ulist (s\<lparr>areas := kwrite a A h\<rparr>) b = (if b = a then unpinned_list A
     else case kobj h b of None \<Rightarrow> [] | Some B \<Rightarrow> unpinned_list B)"
  by (simp add: ulist_def)

lemma ulist_area: "kobj (areas s) a = Some A \<Longrightarrow> ulist s a = unpinned_list A"
  by (simp add: ulist_def)

lemma ashmem_inv_ranges_cong:
  "ashmem_inv s \<Longrightarrow> kobj h = kobj (ranges s) \<Longrightarrow> kheap_ok h \<Longrightarrow> ashmem_inv (s\<lparr>ranges := h\<rparr>)"
  unfolding ashmem_inv_def desc_def deref_def by simp

text \<open>Inserting a new range between the ranges above it and the ranges below it.\<close>

lemma range_alloc_inv [inv_intros]:
  assumes inv: "ashmem_inv s" and A: "kobj (areas s) a = Some A" "area_file A \<noteq> 0"
    and u: "ulist s a = ys @ zs" and pos: "pos = (case zs of [] \<Rightarrow> None | z # _ \<Rightarrow> Some z)"
    and be: "b \<le> e" "e < 0x100000" and pg: "pg = 0 \<or> pg = 1"
    and above: "\<And>q. q \<in> set ys \<Longrightarrow> e < pgstart (rng s q)"
    and below: "\<And>q. q \<in> set zs \<Longrightarrow> pgend (rng s q) < b"
  shows "ashmem_inv (snd (range_alloc a pos pg b e s))"
  using ashmem_invD(2) [OF inv]
proof (cases rule: range_alloc_cases [where a = a and pos = pos and pg = pg and b = b and e = e])
  case (fail h)
  then show ?thesis using ashmem_inv_ranges_cong [OF inv] by simp
next
  case (ok r s')
  note D = ashmem_invD [OF inv]
  let ?R = "\<lparr>asma = a, pgstart = b, pgend = e, purged = pg\<rparr>"
  have uA: "unpinned_list A = ys @ zs" using u ulist_area [OF A(1)] by simp
  have at: "add_tail_at pos r (ys @ zs) = ys @ r # zs"
    using D(3) [of a] u by (intro add_tail_at_split pos) simp
  have ul: "ulist s' c = (if c = a then ys @ r # zs else ulist s c)" for c
    using ok(5) A(1) uA at by (simp add: ulist_def)
  have rg: "rng s' q = (if q = r then ?R else rng s q)" for q
    using ok(4) by (simp add: deref_def)
  have new: "r \<notin> set (ulist s c)" for c using D(5) ok(2) by auto
  then have newl: "r \<notin> set (ys @ zs)" using u by metis
  have dist: "distinct (ulist s' c)" for c
    using D(3) [of c] D(3) [of a] newl u by (auto simp: ul)
  have sorted: "desc s' (ulist s' c)" for c
  proof (cases "c = a")
    case True
    have "desc s (ys @ zs)" using D(4) [of a] u by simp
    then have "desc s' (ys @ zs)" using newl by (subst desc_cong [where s = s]) (auto simp: rg)
    then show ?thesis using True above below newl by (auto simp: desc_def sorted_wrt_append ul rg)
  next
    case False
    then show ?thesis using D(4) [of c] new [of c]
      by (subst desc_cong [where s = s]) (auto simp: ul rg)
  qed
  have mem: "q \<in> set (ulist s' c) \<longleftrightarrow> (\<exists>R. kobj (ranges s') q = Some R \<and> asma R = c)" for q c
    using D(5) [of q c] ok(2) u by (auto simp: ul ok(4))
  have lmem: "r \<notin> set (ashmem_lru_list s)" using D(8) ok(2) by auto
  have sum: "lru_count s' = (\<Sum>q\<leftarrow>ashmem_lru_list s'. range_size (rng s' q))"
  proof -
    have "(\<Sum>q\<leftarrow>ashmem_lru_list s. range_size (rng s' q)) = lru_count s"
      unfolding D(9) using lmem by (intro sum_range_size_cong) (auto simp: rg)
    then show ?thesis by (simp add: ok(6,7) rg range_size_def)
  qed
  have aok: "area_ok C" if k: "kobj (areas s') c = Some C" for c C
  proof (cases "c = a")
    case True
    then have "C = A\<lparr>unpinned_list := ys @ r # zs\<rparr>" using k ok(5) A(1) uA at by simp
    then show ?thesis using D(10) [OF A(1)] A(2) by (simp add: area_ok_def)
  qed (use k ok(5) D(10) in simp)
  have rok: "range_ok Q" if "kobj (ranges s') q = Some Q" for q Q
    using that D(6) [of q Q] be pg by (auto simp: ok(4) range_ok_def split: if_splits)
  have kok: "kheap_ok (areas s')" using D(1) A(1) ok(5) by simp
  have lru: "q \<in> set (ashmem_lru_list s') \<longleftrightarrow> (\<exists>R. kobj (ranges s') q = Some R \<and> purged R = 0)" for q
    using D(8) [of q] ok(2) by (auto simp: ok(4,6))
  have "distinct (ashmem_lru_list s')" using D(7) lmem by (simp add: ok(6))
  with kok ok(3) dist sorted mem rok lru sum aok have "ashmem_inv s'" by (intro ashmem_invI)
  with ok(1) show ?thesis by simp
qed

subsection \<open>The pages of an area\<close>

text \<open>The abstract state of an area: which of its pages are unpinned, and which of those are
  recorded as purged.\<close>

definition pgs :: "ashmem_range \<Rightarrow> nat set" where
  "pgs R = {unat (pgstart R)..unat (pgend R)}"

definition unpinned_pages :: "ashmem \<Rightarrow> addr \<Rightarrow> nat set" where
  "unpinned_pages s a = (\<Union>r\<in>set (ulist s a). pgs (rng s r))"

definition purged_pages :: "ashmem \<Rightarrow> addr \<Rightarrow> nat set" where
  "purged_pages s a = (\<Union>r\<in>set (ulist s a). if purged (rng s r) = 0 then {} else pgs (rng s r))"

text \<open>\<open>covers s a b p\<close>: some live range of area \<open>a\<close>, purged or not according to \<open>b\<close>, holds
  page \<open>p\<close>.\<close>

definition has_page :: "addr \<Rightarrow> bool \<Rightarrow> nat \<Rightarrow> ashmem_range \<Rightarrow> bool" where
  "has_page a b p R \<longleftrightarrow> asma R = a \<and> (purged R \<noteq> 0) = b \<and> p \<in> pgs R"

definition covers :: "ashmem \<Rightarrow> addr \<Rightarrow> bool \<Rightarrow> nat \<Rightarrow> bool" where
  "covers s a b p \<longleftrightarrow> (\<exists>r. case kobj (ranges s) r of None \<Rightarrow> False | Some R \<Rightarrow> has_page a b p R)"

lemma covers_ulist:
  assumes "ashmem_inv s"
  shows "covers s a b p \<longleftrightarrow> (\<exists>r\<in>set (ulist s a). (purged (rng s r) \<noteq> 0) = b \<and> p \<in> pgs (rng s r))"
  unfolding covers_def Bex_def
  by (rule ex_cong1)
     (auto simp: ashmem_invD(5) [OF assms] has_page_def split: option.splits)

lemma pages_covers:
  assumes "ashmem_inv s"
  shows "p \<in> unpinned_pages s a \<longleftrightarrow> covers s a True p \<or> covers s a False p"
    "p \<in> purged_pages s a \<longleftrightarrow> covers s a True p"
  unfolding covers_ulist [OF assms] unpinned_pages_def purged_pages_def by (auto split: if_splits)

lemma pgs_overlap:
  assumes "pgstart R \<le> pgend R" "ps \<le> pe"
  shows "page_range_in_range R ps pe \<longleftrightarrow> pgs R \<inter> {unat ps..unat pe} \<noteq> {}"
proof -
  have "pgs R \<inter> {unat ps..unat pe} \<noteq> {} \<longleftrightarrow>
      unat (pgstart R) \<le> unat pe \<and> unat ps \<le> unat (pgend R)"
    using assms by (auto simp: pgs_def word_le_nat_alt)
  then show ?thesis using assms by (auto simp: range_preds word_le_nat_alt)
qed

lemma covers_range_del:
  assumes "kobj (ranges s) r = Some R"
  shows "covers s a b p \<longleftrightarrow> has_page a b p R \<or> covers (range_del r s) a b p"
  unfolding covers_def range_del_simps(1) [OF assms] using assms
  by (auto split: option.splits if_splits)

lemma covers_upd:
  assumes "kobj (ranges s) r = Some R" "kobj (ranges s') = (kobj (ranges s))(r \<mapsto> R')"
    and "has_page a b p R' = has_page a b p R"
  shows "covers s' a b p = covers s a b p"
  unfolding covers_def by (rule ex_cong1) (use assms in \<open>auto split: option.splits\<close>)


lemma pgs_subsumed: "page_range_subsumes_range R ps pe \<Longrightarrow> pgs R \<subseteq> {unat ps..unat pe}"
  by (auto simp: pgs_def page_range_subsumes_range_def word_le_nat_alt)

lemma pgs_cut_front:
  assumes "ps \<le> pgstart R" "pgstart R \<le> pe" "pe < pgend R"
  shows "pgs (R\<lparr>pgstart := pe + 1, pgend := pgend R\<rparr>) = pgs R - {unat ps..unat pe}"
  using assms unat_plus_one_less [OF assms(3)] by (auto simp: pgs_def word_le_nat_alt)

lemma pgs_cut_rear:
  assumes "pgstart R < ps" "ps \<le> pgend R" "pgend R \<le> pe"
  shows "pgs (R\<lparr>pgstart := pgstart R, pgend := ps - 1\<rparr>) = pgs R - {unat ps..unat pe}"
  using assms unat_minus_one_less [OF assms(1)]
  by (auto simp: pgs_def word_le_nat_alt word_less_nat_alt)

lemma pgs_cut_middle:
  assumes "pgstart R < ps" "ps \<le> pe" "pe < pgend R"
  shows "pgs (R\<lparr>pgstart := pgstart R, pgend := ps - 1\<rparr>)
       \<union> pgs \<lparr>asma = a, pgstart = pe + 1, pgend = pgend R, purged = pg\<rparr> = pgs R - {unat ps..unat pe}"
  using assms unat_minus_one_less [OF assms(1)] unat_plus_one_less [OF assms(3)]
  by (auto simp: pgs_def word_le_nat_alt word_less_nat_alt)

text \<open>What pinning \<open>I\<close> in area \<open>a\<close> does: no page of \<open>I\<close> stays unpinned, no page becomes unpinned,
  without allocation failure no other page becomes pinned, other areas keep their pages, and
  the return value tells whether a page of \<open>I\<close> was purged.\<close>

definition pin_post :: "addr \<Rightarrow> nat set \<Rightarrow> ashmem \<Rightarrow> u32 \<Rightarrow> u32 \<times> ashmem \<Rightarrow> bool" where
  "pin_post a I s ret res \<longleftrightarrow> (case res of (ret', s') \<Rightarrow>
     ashmem_inv s'
   \<and> (\<forall>b p. covers s' a b p \<longrightarrow> covers s a b p \<and> p \<notin> I)
   \<and> (kfail (ranges s) = [] \<longrightarrow> (\<forall>b p. covers s a b p \<and> p \<notin> I \<longrightarrow> covers s' a b p))
   \<and> (\<forall>c b p. c \<noteq> a \<longrightarrow> covers s' c b p = covers s c b p)
   \<and> (ret' = 0 \<longleftrightarrow> ret = 0 \<and> (\<forall>p\<in>I. \<not> covers s a True p))
   \<and> (ret = 0 \<or> ret = 1 \<longrightarrow> ret' = 0 \<or> ret' = 1))"

text \<open>One iteration that removes or shrinks a range overlapping \<open>I\<close>.\<close>

definition pin_step :: "addr \<Rightarrow> nat set \<Rightarrow> ashmem \<Rightarrow> u32 \<Rightarrow> ashmem \<Rightarrow> u32 \<Rightarrow> bool" where
  "pin_step a I s ret s1 ret1 \<longleftrightarrow>
     (\<forall>c b p. (c = a \<longrightarrow> p \<notin> I) \<longrightarrow> covers s1 c b p = covers s c b p)
   \<and> kfail (ranges s1) = kfail (ranges s)
   \<and> (ret1 = 0 \<and> (\<forall>p\<in>I. \<not> covers s1 a True p) \<longleftrightarrow> ret = 0 \<and> (\<forall>p\<in>I. \<not> covers s a True p))
   \<and> (ret = 0 \<or> ret = 1 \<longrightarrow> ret1 = 0 \<or> ret1 = 1)"

lemma pin_step_post: "pin_step a I s ret s1 ret1 \<Longrightarrow> pin_post a I s1 ret1 res \<Longrightarrow> pin_post a I s ret res"
proof -
  assume st: "pin_step a I s ret s1 ret1" and po: "pin_post a I s1 ret1 res"
  obtain ret' s' where res: "res = (ret', s')" by fastforce
  have c: "covers s1 c b p = covers s c b p" if "c = a \<longrightarrow> p \<notin> I" for c b p
    using st that by (simp add: pin_step_def)
  have k: "kfail (ranges s1) = kfail (ranges s)" using st by (simp add: pin_step_def)
  have r: "ret1 = 0 \<and> (\<forall>p\<in>I. \<not> covers s1 a True p) \<longleftrightarrow> ret = 0 \<and> (\<forall>p\<in>I. \<not> covers s a True p)"
    using st by (simp add: pin_step_def)
  have P: "ashmem_inv s'" "\<And>b p. covers s' a b p \<Longrightarrow> covers s1 a b p \<and> p \<notin> I"
      "\<And>b p. kfail (ranges s1) = [] \<Longrightarrow> covers s1 a b p \<Longrightarrow> p \<notin> I \<Longrightarrow> covers s' a b p"
      "\<And>d b p. d \<noteq> a \<Longrightarrow> covers s' d b p = covers s1 d b p"
      "ret' = 0 \<longleftrightarrow> ret1 = 0 \<and> (\<forall>p\<in>I. \<not> covers s1 a True p)"
      "ret1 = 0 \<or> ret1 = 1 \<Longrightarrow> ret' = 0 \<or> ret' = 1"
    using po unfolding pin_post_def res prod.case by blast+
  show "pin_post a I s ret res"
    unfolding pin_post_def res prod.case
  proof (intro conjI allI impI)
    show "covers s a b p" if "covers s' a b p" for b p using P(2) [OF that] c [of a p b] by simp
    show "p \<notin> I" if "covers s' a b p" for b p using P(2) [OF that] by simp
    show "covers s' a b p" if "kfail (ranges s) = []" "covers s a b p \<and> p \<notin> I" for b p
      using P(3) [of b p] k c [of a p b] that by simp
    show "covers s' d b p = covers s d b p" if "d \<noteq> a" for d b p
      using P(4) [OF that, of b p] c [of d p b] that by simp
    show "(ret' = 0) = (ret = 0 \<and> (\<forall>p\<in>I. \<not> covers s a True p))" using P(5) r by simp
    show "ret' = 0 \<or> ret' = 1" if "ret = 0 \<or> ret = 1" using P(6) st that by (simp add: pin_step_def)
  qed (rule P(1))
qed

lemma or_01: "(x::u32) = 0 \<or> x = 1 \<Longrightarrow> y = 0 \<or> y = 1 \<Longrightarrow> x OR y = 0 \<or> x OR y = 1"
  by auto

lemma pin_stepI:
  assumes "\<And>c b p. (c = a \<longrightarrow> p \<notin> I) \<Longrightarrow> covers s1 c b p = covers s c b p"
    and "kfail (ranges s1) = kfail (ranges s)"
    and ex: "(\<exists>p\<in>I. covers s a True p) \<longleftrightarrow> pg \<noteq> 0 \<or> (\<exists>p\<in>I. covers s1 a True p)"
    and pg: "pg = 0 \<or> pg = 1"
  shows "pin_step a I s ret s1 (ret OR pg)"
  unfolding pin_step_def
proof (intro conjI allI impI)
  have "ret OR pg = 0 \<longleftrightarrow> ret = 0 \<and> pg = 0" by (rule or_eq_0_iff)
  with ex show "(ret OR pg = 0 \<and> (\<forall>p\<in>I. \<not> covers s1 a True p)) =
      (ret = 0 \<and> (\<forall>p\<in>I. \<not> covers s a True p))" by blast
  show "ret OR pg = 0 \<or> ret OR pg = 1" if "ret = 0 \<or> ret = 1" using that pg by (rule or_01)
qed (use assms(1,2) in simp_all)

lemma pin_step_upd:
  assumes r: "kobj (ranges s) r = Some R" "asma R = a" "purged R = 0 \<or> purged R = 1" and ov: "pgs R \<inter> I \<noteq> {}"
    and k: "kfail (ranges s1) = kfail (ranges s)"
    and s1: "kobj (ranges s1) = (kobj (ranges s))(r \<mapsto> R')"
    and R': "asma R' = a" "purged R' = purged R" "pgs R' = pgs R - I"
  shows "pin_step a I s ret s1 (ret OR purged R)"
proof -
  have out: "covers s1 c b p = covers s c b p" if "c = a \<longrightarrow> p \<notin> I" for c b p
    by (rule covers_upd [OF r(1) s1]) (use that r R' in \<open>auto simp: has_page_def\<close>)
  have "(\<exists>p\<in>I. covers s a True p) \<longleftrightarrow> purged R \<noteq> 0 \<or> (\<exists>p\<in>I. covers s1 a True p)"
  proof
    assume "\<exists>p\<in>I. covers s a True p"
    then obtain p q Q where "p \<in> I" "kobj (ranges s) q = Some Q" "has_page a True p Q"
      by (auto simp: covers_def split: option.splits)
    then show "purged R \<noteq> 0 \<or> (\<exists>p\<in>I. covers s1 a True p)"
      using r(1) by (cases "q = r") (auto simp: covers_def s1 has_page_def intro!: exI [of _ q])
  next
    assume h: "purged R \<noteq> 0 \<or> (\<exists>p\<in>I. covers s1 a True p)"
    obtain p where p: "p \<in> pgs R" "p \<in> I" using ov by auto
    have hp: "covers s a True p" if "purged R \<noteq> 0"
      using that r p by (auto simp: covers_def has_page_def intro!: exI [of _ r])
    from h show "\<exists>p\<in>I. covers s a True p"
    proof
      assume "\<exists>p\<in>I. covers s1 a True p"
      then obtain x q Q where "x \<in> I" "kobj (ranges s1) q = Some Q" "has_page a True x Q"
        by (auto simp: covers_def split: option.splits)
      then have "covers s a True x"
        unfolding covers_def using R' r by (intro exI [of _ q]) (auto simp: has_page_def s1 split: if_splits)
      with \<open>x \<in> I\<close> show ?thesis by blast
    qed (use hp p in auto)
  qed
  with out k show ?thesis using r(3) by (rule pin_stepI)
qed

lemma pin_step_del:
  assumes r: "kobj (ranges s) r = Some R" "asma R = a" "purged R = 0 \<or> purged R = 1" and ov: "pgs R \<inter> I \<noteq> {}" "pgs R \<subseteq> I"
  shows "pin_step a I s ret (range_del r s) (ret OR purged R)"
proof -
  note C = covers_range_del [OF r(1)]
  have k: "kfail (ranges (range_del r s)) = kfail (ranges s)"
    by (simp add: range_del_def Let_def lru_del_def unlink_unpinned_def kfree_def)
  have out: "covers (range_del r s) c b p = covers s c b p" if "c = a \<longrightarrow> p \<notin> I" for c b p
    using C [of c b p] that ov r by (auto simp: has_page_def)
  have "(\<exists>p\<in>I. covers s a True p) \<longleftrightarrow> purged R \<noteq> 0 \<or> (\<exists>p\<in>I. covers (range_del r s) a True p)"
    using C [of a True] r ov by (auto simp: has_page_def)
  with out k show ?thesis using r(3) by (rule pin_stepI)
qed

text \<open>The second half of case 4: allocating the upper part first and shrinking afterwards is
  shrinking first.\<close>

lemma range_alloc_shrink_commute:
  assumes "kheap_ok (ranges s)" "kobj (ranges s) r = Some R"
  shows "range_shrink r x y (snd (range_alloc a pos pg b e s)) =
         snd (range_alloc a pos pg b e (range_shrink r x y s))"
proof -
  have "knext (ranges s) \<noteq> r" using assms by (auto simp: kheap_ok_def)
  then show ?thesis
    using assms(2)
    by (auto simp: range_alloc_def range_shrink_def kzalloc_def Let_def set_unpinned_def
        lru_add_def range_on_lru_def deref_def kwrite_def fun_upd_twist ashmem_consts)
qed

lemma coversI: "kobj (ranges s) r = Some R \<Longrightarrow> has_page a b p R \<Longrightarrow> covers s a b p"
  unfolding covers_def by (rule exI [of _ r]) simp

lemma coversE:
  assumes "covers s a b p"
  obtains r R where "kobj (ranges s) r = Some R" "has_page a b p R"
  using assms unfolding covers_def by (auto split: option.splits)

lemma covers_new:
  assumes "kobj (ranges s) r = None" "kobj (ranges s') = (kobj (ranges s))(r \<mapsto> R)"
  shows "covers s' c b p \<longleftrightarrow> covers s c b p \<or> has_page c b p R"
proof
  assume "covers s' c b p"
  then obtain q Q where "kobj (ranges s') q = Some Q" "has_page c b p Q" by (rule coversE)
  then show "covers s c b p \<or> has_page c b p R"
    using assms by (cases "q = r") (auto intro: coversI)
next
  assume "covers s c b p \<or> has_page c b p R"
  then show "covers s' c b p"
  proof
    assume "covers s c b p"
    then obtain q Q where "kobj (ranges s) q = Some Q" "has_page c b p Q" by (rule coversE)
    then show ?thesis using assms by (intro coversI [of s' q Q]) auto
  qed (use assms in \<open>auto intro: coversI [of s' r R]\<close>)
qed

lemma covers_range_alloc:
  assumes "kheap_ok (ranges s)"
  shows "covers (snd (range_alloc a pos pg x y s)) c b p \<Longrightarrow>
      covers s c b p \<or> has_page c b p \<lparr>asma = a, pgstart = x, pgend = y, purged = pg\<rparr>"
    and "covers s c b p \<Longrightarrow> covers (snd (range_alloc a pos pg x y s)) c b p"
    and "kfail (ranges s) = [] \<Longrightarrow>
      has_page c b p \<lparr>asma = a, pgstart = x, pgend = y, purged = pg\<rparr> \<Longrightarrow>
      covers (snd (range_alloc a pos pg x y s)) c b p"
proof -
  let ?R = "\<lparr>asma = a, pgstart = x, pgend = y, purged = pg\<rparr>"
  have "(covers (snd (range_alloc a pos pg x y s)) c b p \<longrightarrow> covers s c b p \<or> has_page c b p ?R)
    \<and> (covers s c b p \<longrightarrow> covers (snd (range_alloc a pos pg x y s)) c b p)
    \<and> (kfail (ranges s) = [] \<longrightarrow> has_page c b p ?R \<longrightarrow> covers (snd (range_alloc a pos pg x y s)) c b p)"
    using assms
  proof (cases rule: range_alloc_cases [where a = a and pos = pos and pg = pg and b = x and e = y])
    case (fail h)
    moreover have "kfail (ranges s) \<noteq> []"
      using fail(1) by (auto simp: range_alloc_def kzalloc_def Let_def split: if_splits)
    ultimately show ?thesis by (simp add: covers_def)
  next
    case (ok r s')
    have "covers s' c b p \<longleftrightarrow> covers s c b p \<or> has_page c b p ?R"
      using ok(2,4) by (rule covers_new)
    with ok(1) show ?thesis by simp
  qed
  then show "covers (snd (range_alloc a pos pg x y s)) c b p \<Longrightarrow> covers s c b p \<or> has_page c b p ?R"
    and "covers s c b p \<Longrightarrow> covers (snd (range_alloc a pos pg x y s)) c b p"
    and "kfail (ranges s) = [] \<Longrightarrow> has_page c b p ?R \<Longrightarrow>
      covers (snd (range_alloc a pos pg x y s)) c b p" by blast+
qed

lemma ulist_member:
  assumes "ashmem_inv s" "r \<in> set (ulist s a)"
  obtains R where "kobj (ranges s) r = Some R" "rng s r = R" "asma R = a" "pgstart R \<le> pgend R"
    "purged R = 0 \<or> purged R = 1" "pgend R < 0x100000"
proof -
  obtain R where "kobj (ranges s) r = Some R" "asma R = a"
    using ashmem_invD(5) [OF assms(1)] assms(2) by blast
  with ashmem_invD(6) [OF assms(1) this(1)] that show thesis by (auto simp: range_ok_def)
qed

text \<open>Leaving the loop: no range of the list meets the interval.\<close>

lemma pin_post_stop:
  assumes inv: "ashmem_inv s" and dj: "\<And>q. q \<in> set (ulist s a) \<Longrightarrow> pgs (rng s q) \<inter> I = {}"
  shows "pin_post a I s ret (ret, s)"
proof -
  have "p \<notin> I" if "covers s a b p" for b p
    using that dj unfolding covers_ulist [OF inv] by blast
  then show ?thesis using inv by (auto simp: pin_post_def)
qed

lemma pgs_before:
  "pgend R < ps \<Longrightarrow> pgs R \<inter> {unat ps..unat pe} = {}"
  by (auto simp: pgs_def word_less_nat_alt)

text \<open>Case 4 of the code: the interval lies inside one range, which is split.\<close>

lemma pin_split_post:
  assumes inv: "ashmem_inv s" and u: "ulist s a = pre @ r # rs"
    and R: "kobj (ranges s) r = Some R" "asma R = a" "purged R = 0 \<or> purged R = 1"
    and le: "pgstart R < ps" "ps \<le> pe" "pe < pgend R"
    and dj: "\<And>q. q \<in> set pre \<union> set rs \<Longrightarrow> pgs (rng s q) \<inter> {unat ps..unat pe} = {}"
  shows "pin_post a {unat ps..unat pe} s ret (ret OR purged R,
     range_shrink r (pgstart R) (ps - 1)
       (snd (range_alloc a (Some r) (purged R) (pe + 1) (pgend R) s)))"
proof -
  let ?I = "{unat ps..unat pe}" and ?s1 = "range_shrink r (pgstart R) (ps - 1) s"
  let ?s2 = "snd (range_alloc a (Some r) (purged R) (pe + 1) (pgend R) ?s1)"
  let ?R1 = "R\<lparr>pgstart := pgstart R, pgend := ps - 1\<rparr>"
  let ?R2 = "\<lparr>asma = a, pgstart = pe + 1, pgend = pgend R, purged = purged R\<rparr>"
  note S = range_shrink_simps [OF R(1), of "pgstart R" "ps - 1"]
  have com: "range_shrink r (pgstart R) (ps - 1)
      (snd (range_alloc a (Some r) (purged R) (pe + 1) (pgend R) s)) = ?s2"
    using ashmem_invD(2) [OF inv] R(1) by (rule range_alloc_shrink_commute)
  have b: "pgstart R \<le> ps - 1" "ps - 1 \<le> pgend R" "ps - 1 < pe + 1" "pe + 1 \<le> pgend R"
    using le unat_minus_one_less [OF le(1)] unat_plus_one_less [OF le(3)]
    by (simp_all add: word_le_nat_alt word_less_nat_alt)
  have i1: "ashmem_inv ?s1" using b by (intro range_shrink_inv [OF inv R(1)]) auto
  have ds: "desc s (pre @ r # rs)" and dist: "distinct (pre @ r # rs)"
    using ashmem_invD(3,4) [OF inv, of a] u by simp_all
  obtain A where A: "kobj (areas s) a = Some A" "unpinned_list A \<noteq> []"
    using u by (auto simp: ulist_def split: option.splits)
  then have "area_file A \<noteq> 0" using ashmem_invD(10) [OF inv A(1)] by (simp add: area_ok_def)
  then have i2: "ashmem_inv ?s2"
    using A(1) u b R ds dist le ashmem_invD(6) [OF inv R(1)]
    by (intro range_alloc_inv [OF i1, where ys = pre and zs = "r # rs"])
       (auto simp: S desc_def sorted_wrt_append range_ok_def split: if_splits)
  have k1: "kheap_ok (ranges ?s1)" using ashmem_invD(2) [OF i1] .
  have fl: "kfail (ranges ?s1) = kfail (ranges s)"
    by (simp add: range_shrink_def Let_def kwrite_def)
  have "pgs ?R1 \<union> pgs ?R2 = pgs R - ?I" using le by (rule pgs_cut_middle)
  then have cut1: "p \<in> pgs ?R1 \<Longrightarrow> p \<in> pgs R \<and> p \<notin> ?I"
      and cut2: "p \<in> pgs ?R2 \<Longrightarrow> p \<in> pgs R \<and> p \<notin> ?I"
      and cutI: "p \<in> pgs R \<Longrightarrow> p \<notin> ?I \<Longrightarrow> p \<in> pgs ?R1 \<or> p \<in> pgs ?R2" for p by blast+
  have in1: "covers ?s1 c b p \<longrightarrow> covers s c b p" for c b p
  proof
    assume "covers ?s1 c b p"
    then obtain q Q where "kobj (ranges ?s1) q = Some Q" "has_page c b p Q" by (rule coversE)
    moreover have "p \<in> pgs ?R1 \<Longrightarrow> p \<in> pgs R" using cut1 by blast
    ultimately show "covers s c b p"
      using R(1) by (intro coversI [of s q "if q = r then R else Q"]) (auto simp: S has_page_def split: if_splits)
  qed
  have c0: "p \<notin> ?I" if "covers ?s1 a b p" for b p
  proof -
    obtain q Q where q: "kobj (ranges ?s1) q = Some Q" "has_page a b p Q" using \<open>covers ?s1 a b p\<close> by (rule coversE)
    show ?thesis
    proof (cases "q = r")
      case True
      then have "Q = ?R1" using q(1) by (simp add: S)
      then show ?thesis using q(2) cut1 by (simp add: has_page_def)
    next
      case False
      then have "q \<in> set pre \<union> set rs" "rng s q = Q"
        using q u ashmem_invD(5) [OF inv, of q a] by (auto simp: S has_page_def)
      with dj [of q] q(2) show ?thesis by (auto simp: has_page_def)
    qed
  qed
  have hp2: "has_page c b p ?R2 \<Longrightarrow> c = a \<and> covers s a b p \<and> p \<notin> ?I" for c b p
    using cut2 [of p] R(2) coversI [OF R(1), of a b p] unfolding has_page_def by auto
  have fwd: "covers ?s2 a b p" if kf: "kfail (ranges s) = []" and c: "covers s a b p" "p \<notin> ?I" for b p
  proof -
    obtain q Q where q: "kobj (ranges s) q = Some Q" "has_page a b p Q" using c(1) by (rule coversE)
    show ?thesis
    proof (cases "q = r")
      case True
      then have "p \<in> pgs ?R1 \<or> p \<in> pgs ?R2"
        using cutI [of p] q R(1) c(2) by (simp add: has_page_def)
      moreover have "covers ?s1 a b p" if "p \<in> pgs ?R1"
        using that True q R(1) by (intro coversI [of _ r ?R1]) (simp_all add: S has_page_def)
      moreover have "has_page a b p ?R2" if "p \<in> pgs ?R2"
        using that True q R(1) by (simp add: has_page_def)
      ultimately show ?thesis
        using covers_range_alloc(2,3) [OF k1] kf fl by metis
    next
      case False
      then have "covers ?s1 a b p" using q by (intro coversI [of _ q Q]) (auto simp: S)
      then show ?thesis by (rule covers_range_alloc(2) [OF k1])
    qed
  qed
  have oth: "covers ?s2 c b p = covers s c b p" if "c \<noteq> a" for c b p
  proof -
    have "covers ?s1 c b p = covers s c b p"
      by (rule covers_upd [OF R(1) S(1)]) (use that R(2) in \<open>simp add: has_page_def\<close>)
    then show ?thesis
      using covers_range_alloc(1,2) [OF k1, where a = a and pos = "Some r" and pg = "purged R" and x = "pe + 1"
          and y = "pgend R" and c = c and b = b and p = p] hp2 [of c b p] that
      by blast
  qed
  have bwd: "covers s a b p \<and> p \<notin> ?I" if "covers ?s2 a b p" for b p
    using covers_range_alloc(1) [OF k1 that] in1 c0 hp2 by blast
  have "(\<forall>p\<in>?I. \<not> covers s a True p) \<longleftrightarrow> purged R = 0"
  proof
    have "unat ps \<in> ?I" "unat ps \<in> pgs R"
      using le by (auto simp: pgs_def word_le_nat_alt word_less_nat_alt)
    then show "\<forall>p\<in>?I. \<not> covers s a True p \<Longrightarrow> purged R = 0"
      using coversI [OF R(1), of a True "unat ps"] R(2) unfolding has_page_def by blast
  next
    assume z: "purged R = 0"
    show "\<forall>p\<in>?I. \<not> covers s a True p"
    proof (intro ballI notI)
      fix p assume p: "p \<in> ?I" and c: "covers s a True p"
      then obtain q where q: "q \<in> set (ulist s a)" "purged (rng s q) \<noteq> 0" "p \<in> pgs (rng s q)"
        unfolding covers_ulist [OF inv] by blast
      then have "q \<noteq> r" using z R(1) by auto
      then show False using dj [of q] q(1,3) p u by auto
    qed
  qed
  then have "ret OR purged R = 0 \<longleftrightarrow> ret = 0 \<and> (\<forall>p\<in>?I. \<not> covers s a True p)"
    by (simp only: or_eq_0_iff)
  with i2 bwd fwd oth or_01 [OF _ R(3), of ret] show ?thesis
    unfolding com pin_post_def prod.case by (intro conjI allI impI) blast+
qed

lemma ashmem_pin_loop_correct:
  assumes "ashmem_inv s" "ulist s a = pre @ rs" "ps \<le> pe"
    and "\<And>q. q \<in> set pre \<Longrightarrow> pgs (rng s q) \<inter> {unat ps..unat pe} = {}"
  shows "pin_post a {unat ps..unat pe} s ret (ashmem_pin_loop a ps pe rs ret s)"
  using assms
proof (induction rs arbitrary: s pre ret)
  case Nil
  then have "pin_post a {unat ps..unat pe} s ret (ret, s)" by (intro pin_post_stop) auto
  then show ?case by simp
next
  case (Cons r rs)
  let ?I = "{unat ps..unat pe}"
  note inv = Cons.prems(1) and u = Cons.prems(2) and le = Cons.prems(3) and dj = Cons.prems(4)
  have "r \<in> set (ulist s a)" using u by simp
  with inv obtain R where R: "kobj (ranges s) r = Some R" "rng s r = R" "asma R = a"
      "pgstart R \<le> pgend R" "purged R = 0 \<or> purged R = 1" "pgend R < 0x100000" by (rule ulist_member)
  have dist: "distinct (pre @ r # rs)" and ds: "desc s (pre @ r # rs)"
    using ashmem_invD(3,4) [OF inv, of a] u by simp_all
  have below: "pgend (rng s q) < pgstart R" if "q \<in> set rs" for q
    using ds that R(2) by (auto simp: desc_def sorted_wrt_append)
  have above: "pgend R < pgstart (rng s q)" if "q \<in> set pre" for q
    using ds that R(2) by (auto simp: desc_def sorted_wrt_append)
  have ov: "page_range_in_range R ps pe \<longleftrightarrow> pgs R \<inter> ?I \<noteq> {}" by (rule pgs_overlap [OF R(4) le])
  consider (before) "range_before_page R ps"
    | (miss) "\<not> range_before_page R ps" "\<not> page_range_in_range R ps pe"
    | (hit) "\<not> range_before_page R ps" "page_range_in_range R ps pe" by blast
  then show ?case
  proof cases
    case before
    have "pgs (rng s q) \<inter> ?I = {}" if q: "q \<in> set (ulist s a)" for q
    proof -
      have "q \<in> set pre \<or> q = r \<or> q \<in> set rs" using q u by auto
      then consider "q \<in> set pre" | "pgend (rng s q) < ps"
        using below [of q] before R(2,4) by (fastforce simp: range_before_page_def)
      then show ?thesis by cases (rule dj, assumption, rule pgs_before)
    qed
    from pin_post_stop [OF inv this] show ?thesis using before R(2) by simp
  next
    case miss
    have "pin_post a ?I s ret (ashmem_pin_loop a ps pe rs ret s)"
      by (rule Cons.IH [of s "pre @ [r]"]) (use inv u le dj miss ov R(2) in auto)
    then show ?thesis using miss R(2) by simp
  next
    case hit
    have nb: "ps \<le> pgend R" using hit(1) by (simp add: range_before_page_def)
    have meet: "pgs R \<inter> ?I \<noteq> {}" using hit(2) ov by simp
    then have "pgstart R \<le> pe" by (auto simp: pgs_def word_le_nat_alt)
    consider (c1) "page_range_subsumes_range R ps pe"
      | (c2) "\<not> page_range_subsumes_range R ps pe" "ps \<le> pgstart R" "pe < pgend R"
      | (c3) "\<not> page_range_subsumes_range R ps pe" "pgstart R < ps" "pgend R \<le> pe"
      | (c4) "\<not> page_range_subsumes_range R ps pe" "pgstart R < ps" "pe < pgend R"
      unfolding page_range_subsumes_range_def using not_le by blast
    then show ?thesis
    proof cases
      case c1
      let ?s1 = "range_del r s"
      have "pin_post a ?I ?s1 (ret OR purged R) (ashmem_pin_loop a ps pe rs (ret OR purged R) ?s1)"
      proof (rule Cons.IH [of ?s1 pre])
        show "ulist ?s1 a = pre @ rs" using u dist by (simp add: ulist_range_del remove1_append)
        show "pgs (rng ?s1 q) \<inter> ?I = {}" if "q \<in> set pre" for q
          using dj [OF that] dist that R(1) by (subst range_del_simps(6)) auto
      qed (use range_del_inv [OF inv R(1)] le in auto)
      with pin_step_del [OF R(1,3,5) meet pgs_subsumed [OF c1]]
      have "pin_post a ?I s ret (ashmem_pin_loop a ps pe rs (ret OR purged R) ?s1)"
        by (rule pin_step_post)
      then show ?thesis using hit c1 R(2) by (simp add: Let_def)
    next
      case c2
      let ?s1 = "range_shrink r (pe + 1) (pgend R) s"
      note S = range_shrink_simps [OF R(1), of "pe + 1" "pgend R"]
      note cut = pgs_cut_front [OF c2(2) \<open>pgstart R \<le> pe\<close> c2(3)]
      have "pgstart R \<le> pe + 1" "pe + 1 \<le> pgend R"
        using \<open>pgstart R \<le> pe\<close> c2(3) unat_plus_one_less [OF c2(3)]
        by (auto simp: word_le_nat_alt word_less_nat_alt)
      then have inv1: "ashmem_inv ?s1" by (intro range_shrink_inv [OF inv R(1)]) auto
      have post: "pin_post a ?I ?s1 (ret OR purged R) (ashmem_pin_loop a ps pe rs (ret OR purged R) ?s1)"
        by (rule Cons.IH [of ?s1 "pre @ [r]"]) (use inv1 u le dj dist cut in \<open>auto simp: S\<close>)
      have "pin_step a ?I s ret ?s1 (ret OR purged R)"
        by (rule pin_step_upd [OF R(1,3,5) meet _ S(1)])
           (use R(3) cut in \<open>auto simp: range_shrink_def Let_def kwrite_def\<close>)
      then have "pin_post a ?I s ret (ashmem_pin_loop a ps pe rs (ret OR purged R) ?s1)"
        using post by (rule pin_step_post)
      then show ?thesis using hit c2 R(2) by (simp add: Let_def)
    next
      case c3
      let ?s1 = "range_shrink r (pgstart R) (ps - 1) s"
      note S = range_shrink_simps [OF R(1), of "pgstart R" "ps - 1"]
      note cut = pgs_cut_rear [OF c3(2) nb c3(3)]
      have "pgstart R \<le> ps - 1" "ps - 1 \<le> pgend R"
        using c3(2) nb unat_minus_one_less [OF c3(2)]
        by (auto simp: word_le_nat_alt word_less_nat_alt)
      then have inv1: "ashmem_inv ?s1" by (intro range_shrink_inv [OF inv R(1)]) auto
      have post: "pin_post a ?I ?s1 (ret OR purged R) (ashmem_pin_loop a ps pe rs (ret OR purged R) ?s1)"
        by (rule Cons.IH [of ?s1 "pre @ [r]"]) (use inv1 u le dj dist cut in \<open>auto simp: S\<close>)
      have "pin_step a ?I s ret ?s1 (ret OR purged R)"
        by (rule pin_step_upd [OF R(1,3,5) meet _ S(1)])
           (use R(3) cut in \<open>auto simp: range_shrink_def Let_def kwrite_def\<close>)
      then have "pin_post a ?I s ret (ashmem_pin_loop a ps pe rs (ret OR purged R) ?s1)"
        using post by (rule pin_step_post)
      then show ?thesis using hit c3 not_le [THEN iffD2, OF c3(2)] R(2) by (simp add: Let_def)
    next
      case c4
      have "pgs (rng s q) \<inter> ?I = {}" if "q \<in> set pre \<union> set rs" for q
        using that
      proof
        assume "q \<in> set rs"
        then show ?thesis using below [of q] c4(2) by (intro pgs_before) simp
      qed (rule dj)
      from pin_split_post [OF inv u R(1,3,5) c4(2) le c4(3) this]
      show ?thesis
        using hit c4 not_le [THEN iffD2, OF c4(2)] not_le [THEN iffD2, OF c4(3)] R(2)
        by (simp add: Let_def)
    qed
  qed
qed

text \<open>The three outcomes of a pass over a sorted list.\<close>

lemma unpin_pass_covered:
  "ashmem_unpin_pass s ps pe rs = Unpin_covered \<Longrightarrow>
   \<exists>r\<in>set rs. pgstart (rng s r) \<le> ps \<and> pe \<le> pgend (rng s r)"
  by (induction rs)
     (auto simp: Let_def page_range_subsumed_by_range_def split: if_splits)

lemma unpin_pass_merge:
  "ashmem_unpin_pass s ps pe rs = Unpin_merge r \<Longrightarrow>
   r \<in> set rs \<and> page_range_in_range (rng s r) ps pe"
  by (induction rs) (auto simp: Let_def split: if_splits)

lemma unpin_pass_insert:
  assumes "ashmem_unpin_pass s ps pe xs = Unpin_insert pos" "ps \<le> pe" "desc s xs"
    and "\<And>q. q \<in> set xs \<Longrightarrow> pgstart (rng s q) \<le> pgend (rng s q)"
  shows "\<exists>ys zs. xs = ys @ zs \<and> pos = (case zs of [] \<Rightarrow> None | z # _ \<Rightarrow> Some z)
      \<and> (\<forall>q\<in>set ys. pe < pgstart (rng s q)) \<and> (\<forall>q\<in>set zs. pgend (rng s q) < ps)"
  using assms
proof (induction xs)
  case Nil
  then show ?case by simp
next
  case (Cons r rs)
  let ?R = "rng s r"
  have below: "pgend (rng s q) < pgstart ?R" if "q \<in> set rs" for q
    using Cons.prems(3) that by (simp add: desc_def)
  show ?case
  proof (cases "range_before_page ?R ps")
    case True
    have "pgend (rng s q) < ps" if "q \<in> set (r # rs)" for q
    proof (cases "q = r")
      case False
      with that have "pgend (rng s q) < pgstart ?R" using below by simp
      also have "\<dots> \<le> pgend ?R" using Cons.prems(4) by simp
      also have "\<dots> < ps" using True by (simp add: range_before_page_def)
      finally show ?thesis .
    qed (use True in \<open>simp add: range_before_page_def\<close>)
    then show ?thesis
      using Cons.prems(1) True by (intro exI [of _ "[]"] exI [of _ "r # rs"]) simp
  next
    case False
    with Cons.prems(1) have miss: "\<not> page_range_in_range ?R ps pe"
      and rec: "ashmem_unpin_pass s ps pe rs = Unpin_insert pos"
      by (auto simp: Let_def split: if_splits)
    have "pe < pgstart ?R"
      using miss False Cons.prems(2,4) by (auto simp: range_preds not_le)
    moreover have "desc s rs" using Cons.prems(3) by (simp add: desc_def)
    moreover obtain ys zs where "rs = ys @ zs" "pos = (case zs of [] \<Rightarrow> None | z # _ \<Rightarrow> Some z)"
      "\<forall>q\<in>set ys. pe < pgstart (rng s q)" "\<forall>q\<in>set zs. pgend (rng s q) < ps"
      using Cons.IH [OF rec Cons.prems(2) \<open>desc s rs\<close>] Cons.prems(4) by auto
    ultimately show ?thesis by (intro exI [of _ "r # ys"] exI [of _ zs]) simp
  qed
qed

text \<open>Ranges of one area do not share a page.\<close>

lemma desc_disjoint:
  "desc s xs \<Longrightarrow> q \<in> set xs \<Longrightarrow> r \<in> set xs \<Longrightarrow> q \<noteq> r \<Longrightarrow> pgs (rng s q) \<inter> pgs (rng s r) = {}"
proof (induction xs)
  case (Cons x xs)
  have "pgs (rng s u) \<inter> pgs (rng s x) = {}" if "u \<in> set xs" for u
    using Cons.prems(1) that by (auto simp: desc_def pgs_def word_less_nat_alt)
  then show ?case using Cons by (auto simp: desc_def)
qed simp

lemma pgs_hull:
  assumes "pgs R \<inter> {unat ps..unat pe} \<noteq> {}"
  shows "{unat (min (pgstart R) ps)..unat (max (pgend R) pe)} = pgs R \<union> {unat ps..unat pe}"
proof -
  have "unat (min (pgstart R) ps) = min (unat (pgstart R)) (unat ps)"
       "unat (max (pgend R) pe) = max (unat (pgend R)) (unat pe)"
    by (simp_all add: min_def max_def word_le_nat_alt)
  with assms show ?thesis by (auto simp: pgs_def min_def max_def split: if_splits)
qed

text \<open>What unpinning \<open>I\<close> does: on success the pages of \<open>I\<close> join the unpinned pages, no page loses
  its purged mark, and pages already accounted for by \<open>pg\<close> are marked.  On failure pages are
  only lost to pinning.\<close>

definition unpin_post ::
    "addr \<Rightarrow> nat set \<Rightarrow> u32 \<Rightarrow> ashmem \<Rightarrow> (errno + u32) \<times> ashmem \<Rightarrow> bool" where
  "unpin_post a I pg s res \<longleftrightarrow> (case res of (x, s') \<Rightarrow>
     ashmem_inv s'
   \<and> (\<forall>c b p. c \<noteq> a \<longrightarrow> covers s' c b p = covers s c b p)
   \<and> (x = Inr 0 \<and> (\<forall>p. (\<exists>b. covers s' a b p) \<longleftrightarrow> (\<exists>b. covers s a b p) \<or> p \<in> I)
         \<and> (\<forall>p. covers s a True p \<or> (pg \<noteq> 0 \<and> p \<in> I) \<longrightarrow> covers s' a True p)
      \<or> x = Inl ENOMEM \<and> kfail (ranges s) \<noteq> [] \<and> (\<forall>b p. covers s' a b p \<longrightarrow> covers s a b p)))"

lemma covers_unique:
  assumes "ashmem_inv s" "covers s a b p" "covers s a c p"
  shows "b = c"
proof -
  obtain q r where "q \<in> set (ulist s a)" "(purged (rng s q) \<noteq> 0) = b" "p \<in> pgs (rng s q)"
    "r \<in> set (ulist s a)" "(purged (rng s r) \<noteq> 0) = c" "p \<in> pgs (rng s r)"
    using assms(2,3) unfolding covers_ulist [OF assms(1)] by blast
  moreover have "q = r"
    using desc_disjoint [OF ashmem_invD(4) [OF assms(1)], of q a r] calculation by blast
  ultimately show ?thesis by simp
qed

lemma unpin_insert_post:
  assumes inv: "ashmem_inv s" and A: "kobj (areas s) a = Some A" "area_file A \<noteq> 0"
    and pass: "ashmem_unpin_pass s ps pe (ulist s a) = Unpin_insert pos"
    and le: "ps \<le> pe" "pe < 0x100000" and pg: "pg = 0 \<or> pg = 1"
  shows "unpin_post a {unat ps..unat pe} pg s (range_alloc a pos pg ps pe s)"
proof -
  let ?R = "\<lparr>asma = a, pgstart = ps, pgend = pe, purged = pg\<rparr>"
  have ok: "pgstart (rng s q) \<le> pgend (rng s q)" if "q \<in> set (ulist s a)" for q
    using inv that by (rule ulist_member) simp
  obtain ys zs where u: "ulist s a = ys @ zs" "pos = (case zs of [] \<Rightarrow> None | z # _ \<Rightarrow> Some z)"
    "\<forall>q\<in>set ys. pe < pgstart (rng s q)" "\<forall>q\<in>set zs. pgend (rng s q) < ps"
    using unpin_pass_insert [OF pass le(1) ashmem_invD(4) [OF inv] ok] by blast
  have i: "ashmem_inv (snd (range_alloc a pos pg ps pe s))"
    by (rule range_alloc_inv [OF inv A u(1,2) le(1,2) pg]) (use u in auto)
  show ?thesis
    using ashmem_invD(2) [OF inv]
  proof (cases rule: range_alloc_cases [where a = a and pos = pos and pg = pg and b = ps and e = pe])
    case (fail h)
    moreover have "kfail (ranges s) \<noteq> []"
      using fail(1) by (auto simp: range_alloc_def kzalloc_def Let_def split: if_splits)
    ultimately show ?thesis using i by (simp add: unpin_post_def covers_def)
  next
    case (ok r s')
    have C: "covers s' c b p \<longleftrightarrow> covers s c b p \<or> has_page c b p ?R" for c b p
      using ok(2,4) by (rule covers_new)
    have pgR: "pgs ?R = {unat ps..unat pe}" by (simp add: pgs_def)
    show ?thesis
      unfolding ok(1) unpin_post_def prod.case C has_page_def pgR
      using i ok(1) by auto
  qed
qed

text \<open>Merging an overlapping range and restarting.\<close>

lemma unpin_merge_post:
  assumes inv: "ashmem_inv s" and r: "kobj (ranges s) r = Some R" "asma R = a"
    and ov: "pgs R \<inter> I \<noteq> {}"
    and post: "unpin_post a (pgs R \<union> I) (pg OR purged R) (range_del r s) res"
  shows "unpin_post a I pg s res"
proof -
  note C = covers_range_del [OF r(1)]
  obtain x s' where res: "res = (x, s')" by fastforce
  have k: "kfail (ranges (range_del r s)) = kfail (ranges s)"
    by (simp add: range_del_def Let_def lru_del_def unlink_unpinned_def kfree_def)
  have P: "ashmem_inv s'" "\<And>c b p. c \<noteq> a \<Longrightarrow> covers s' c b p = covers (range_del r s) c b p"
    "x = Inr 0 \<and> (\<forall>p. (\<exists>b. covers s' a b p) \<longleftrightarrow> (\<exists>b. covers (range_del r s) a b p) \<or> p \<in> pgs R \<union> I)
         \<and> (\<forall>p. covers (range_del r s) a True p \<or> (pg OR purged R \<noteq> 0 \<and> p \<in> pgs R \<union> I) \<longrightarrow> covers s' a True p)
      \<or> x = Inl ENOMEM \<and> kfail (ranges s) \<noteq> [] \<and> (\<forall>b p. covers s' a b p \<longrightarrow> covers (range_del r s) a b p)"
    using post unfolding unpin_post_def res prod.case k by blast+
  have oth: "covers s' c b p = covers s c b p" if "c \<noteq> a" for c b p
    using P(2) [OF that] C [of c b p] r(2) that by (simp add: has_page_def)
  have u: "(\<exists>b. covers s a b p) \<longleftrightarrow> (\<exists>b. covers (range_del r s) a b p) \<or> p \<in> pgs R" for p
    using C r(2) by (auto simp: has_page_def)
  have "pg OR purged R \<noteq> 0 \<longleftrightarrow> pg \<noteq> 0 \<or> purged R \<noteq> 0" by (simp add: or_eq_0_iff)
  then have t: "covers (range_del r s) a True p \<or> (pg OR purged R \<noteq> 0 \<and> p \<in> pgs R \<union> I)"
    if "covers s a True p \<or> (pg \<noteq> 0 \<and> p \<in> I)" for p
    using that C [of a True p] by (auto simp: has_page_def)
  have sub: "covers (range_del r s) a b p \<Longrightarrow> covers s a b p" for b p using C [of a b p] by blast
  from P(3) show ?thesis
  proof
    assume "x = Inr 0 \<and> (\<forall>p. (\<exists>b. covers s' a b p) \<longleftrightarrow> (\<exists>b. covers (range_del r s) a b p) \<or> p \<in> pgs R \<union> I)
         \<and> (\<forall>p. covers (range_del r s) a True p \<or> (pg OR purged R \<noteq> 0 \<and> p \<in> pgs R \<union> I) \<longrightarrow> covers s' a True p)"
    then have x: "x = Inr 0"
      and U: "\<And>p. (\<exists>b. covers s' a b p) \<longleftrightarrow> (\<exists>b. covers (range_del r s) a b p) \<or> p \<in> pgs R \<union> I"
      and T: "\<And>p. covers (range_del r s) a True p \<or> (pg OR purged R \<noteq> 0 \<and> p \<in> pgs R \<union> I) \<Longrightarrow> covers s' a True p"
      by blast+
    have "(\<exists>b. covers s' a b p) \<longleftrightarrow> (\<exists>b. covers s a b p) \<or> p \<in> I" for p
      unfolding U u by blast
    moreover have "covers s' a True p" if "covers s a True p \<or> (pg \<noteq> 0 \<and> p \<in> I)" for p
      using T [OF t [OF that]] .
    ultimately show ?thesis
      unfolding unpin_post_def res prod.case using P(1) oth x by blast
  next
    assume "x = Inl ENOMEM \<and> kfail (ranges s) \<noteq> [] \<and> (\<forall>b p. covers s' a b p \<longrightarrow> covers (range_del r s) a b p)"
    then show ?thesis
      unfolding unpin_post_def res prod.case using P(1) oth sub by blast
  qed
qed

lemma area_file_range_del:
  "kobj (areas s) a = Some A \<Longrightarrow> area_file A \<noteq> 0 \<Longrightarrow>
   \<exists>B. kobj (areas (range_del r s)) a = Some B \<and> area_file B \<noteq> 0"
  by (simp add: area_range_del)

lemma ashmem_unpin_loop_correct:
  assumes "ashmem_inv s" "\<exists>A. kobj (areas s) a = Some A \<and> area_file A \<noteq> 0"
    and "ps \<le> pe" "pg = 0 \<or> pg = 1"
    and "pg = 0 \<or> (\<exists>p\<in>{unat ps..unat pe}. \<forall>b. \<not> covers s a b p)" "pe < 0x100000"
  shows "unpin_post a {unat ps..unat pe} pg s (ashmem_unpin_loop a ps pe pg s)"
  using assms
proof (induction a ps pe pg s rule: ashmem_unpin_loop.induct)
  case (1 a ps pe pg s)
  note inv = "1.prems"(1) and le = "1.prems"(3) and pg = "1.prems"(4)
  let ?I = "{unat ps..unat pe}"
  obtain A where A: "kobj (areas s) a = Some A" "area_file A \<noteq> 0" using "1.prems"(2) by blast
  show ?case
  proof (cases "ashmem_unpin_pass s ps pe (ulist s a)")
    case Unpin_covered
    then obtain r where r: "r \<in> set (ulist s a)" "pgstart (rng s r) \<le> ps" "pe \<le> pgend (rng s r)"
      using unpin_pass_covered by blast
    then have "?I \<subseteq> pgs (rng s r)" by (auto simp: pgs_def word_le_nat_alt)
    then have cov: "\<exists>b. covers s a b p" if "p \<in> ?I" for p
      using that r(1) unfolding covers_ulist [OF inv] by blast
    with "1.prems"(5) have "pg = 0" by blast
    then have "unpin_post a ?I pg s (Inr 0, s)"
      using inv cov unfolding unpin_post_def prod.case by blast
    then show ?thesis using Unpin_covered by (simp add: ashmem_unpin_loop.simps [of a ps pe pg s])
  next
    case (Unpin_insert pos)
    with unpin_insert_post [OF inv A Unpin_insert le "1.prems"(6) pg] show ?thesis
      by (simp add: ashmem_unpin_loop.simps [of a ps pe pg s])
  next
    case (Unpin_merge r)
    let ?ps = "min (pgstart (rng s r)) ps" and ?pe = "max (pgend (rng s r)) pe"
    let ?pg = "pg OR purged (rng s r)"
    have mem: "r \<in> set (ulist s a)" and hit: "page_range_in_range (rng s r) ps pe"
      using unpin_pass_merge [OF Unpin_merge] by auto
    from inv mem obtain R where R: "kobj (ranges s) r = Some R" "rng s r = R" "asma R = a"
      "pgstart R \<le> pgend R" "purged R = 0 \<or> purged R = 1" "pgend R < 0x100000" by (rule ulist_member)
    have ov: "pgs R \<inter> ?I \<noteq> {}" using hit pgs_overlap [OF R(4) le] R(2) by simp
    have hull: "{unat ?ps..unat ?pe} = pgs R \<union> ?I" using pgs_hull [OF ov] R(2) by simp
    have fresh: "\<not> covers (range_del r s) a b (unat (pgstart R))" for b
    proof
      let ?p = "unat (pgstart R)"
      have p: "?p \<in> pgs R" using R(4) by (simp add: pgs_def word_le_nat_alt)
      assume "covers (range_del r s) a b ?p"
      then obtain q Q where q: "kobj (ranges (range_del r s)) q = Some Q" "has_page a b ?p Q"
        by (rule coversE)
      then have "q \<noteq> r" "kobj (ranges s) q = Some Q"
        using R(1) by (auto simp: range_del_simps(1) [OF R(1)] split: if_splits)
      moreover from this have "q \<in> set (ulist s a)"
        using ashmem_invD(5) [OF inv, of q a] q(2) by (auto simp: has_page_def)
      ultimately have "pgs Q \<inter> pgs R = {}"
        using desc_disjoint [OF ashmem_invD(4) [OF inv], of q a r] mem R(2) by simp
      then show False using p q(2) by (auto simp: has_page_def)
    qed
    have "unpin_post a {unat ?ps..unat ?pe} ?pg (range_del r s)
        (ashmem_unpin_loop a ?ps ?pe ?pg (range_del r s))"
    proof (rule "1.IH" [OF Unpin_merge])
      show "ashmem_inv (range_del r s)" using inv R(1) by (rule range_del_inv)
      show "\<exists>A. kobj (areas (range_del r s)) a = Some A \<and> area_file A \<noteq> 0"
        using A by (rule area_file_range_del)
      show "?ps \<le> ?pe" using le by (meson max.cobounded2 min.cobounded2 order_trans)
      show "?pe < 0x100000" using "1.prems"(6) R(2,6) by (simp add: max_def)
      show "?pg = 0 \<or> ?pg = 1" using or_01 [OF pg R(5)] R(2) by simp
      have "unat (pgstart R) \<in> {unat ?ps..unat ?pe}"
        unfolding hull using R(4) by (simp add: pgs_def word_le_nat_alt)
      with fresh show "?pg = 0 \<or> (\<exists>p\<in>{unat ?ps..unat ?pe}. \<forall>b. \<not> covers (range_del r s) a b p)" by blast
    qed
    then have "unpin_post a (pgs R \<union> ?I) (pg OR purged R) (range_del r s)
        (ashmem_unpin_loop a ?ps ?pe ?pg (range_del r s))"
      unfolding hull using R(2) by simp
    from unpin_merge_post [OF inv R(1,3) ov this] show ?thesis
      using Unpin_merge by (simp add: ashmem_unpin_loop.simps [of a ps pe pg s])
  qed
qed

subsection \<open>Correctness of the shrinker\<close>

definition npages :: "ashmem_range \<Rightarrow> nat" where
  "npages R = Suc (unat (pgend R)) - unat (pgstart R)"

lemma unat_range_size:
  assumes "range_ok R"
  shows "unat (range_size R) = npages R" "0 < npages R" "npages R \<le> 0x100000"
proof -
  have le: "unat (pgstart R) \<le> unat (pgend R)" "unat (pgend R) < 0x100000"
    using assms by (auto simp: range_ok_def word_le_nat_alt word_less_nat_alt)
  then have "unat (pgend R - pgstart R) = unat (pgend R) - unat (pgstart R)"
    using assms by (simp add: range_ok_def unat_sub)
  moreover have "unat (pgend R - pgstart R + 1) = (unat (pgend R - pgstart R) + 1) mod 2 ^ 32"
    by (simp add: unat_word_ariths)
  ultimately show "unat (range_size R) = npages R"
    using le by (simp add: range_size_def npages_def)
  show "0 < npages R" "npages R \<le> 0x100000" using le by (simp_all add: npages_def)
qed

definition purge_one :: "addr \<Rightarrow> ashmem \<Rightarrow> ashmem" where
  "purge_one r s =
     (let R = rng s r;
          s1 = vmtruncate_range (area_file (area s (asma R))) (ucast (pgstart R * PAGE_SIZE))
                 (ucast ((pgend R + 1) * PAGE_SIZE - 1)) s;
          s2 = s1\<lparr>ranges := kwrite r (R\<lparr>purged := ASHMEM_WAS_PURGED\<rparr>) (ranges s1)\<rparr>
      in lru_del r s2)"

lemma shrink_loop_Cons:
  "ashmem_shrink_loop (r # rs) nr s =
     (if sint (nr - range_size (rng s r)) \<le> 0 then purge_one r s
      else ashmem_shrink_loop rs (nr - range_size (rng s r)) (purge_one r s))"
  by (simp add: purge_one_def Let_def)

lemma purge_one_simps [simp]:
  assumes "kobj (ranges s) r = Some R"
  shows "kobj (ranges (purge_one r s)) = (kobj (ranges s))(r \<mapsto> R\<lparr>purged := 1\<rparr>)"
    "ashmem_lru_list (purge_one r s) = remove1 r (ashmem_lru_list s)"
    "lru_count (purge_one r s) = lru_count s - range_size R"
    "areas (purge_one r s) = areas s"
    "ulist (purge_one r s) a = ulist s a"
    "kheap_ok (ranges s) \<Longrightarrow> kheap_ok (ranges (purge_one r s))"
    "rng (purge_one r s) q = (if q = r then R\<lparr>purged := 1\<rparr> else rng s q)"
    "truncated (purge_one r s) = truncated s @ [(area_file (area s (asma R)),
        ucast (pgstart R * PAGE_SIZE), ucast ((pgend R + 1) * PAGE_SIZE - 1))]"
  using assms
  by (simp_all add: purge_one_def Let_def lru_del_def vmtruncate_range_def ashmem_consts
      ulist_def range_size_def)

lemma purge_one_inv [inv_intros]:
  assumes inv: "ashmem_inv s" and r: "kobj (ranges s) r = Some R" "purged R = 0"
  shows "ashmem_inv (purge_one r s)"
proof (rule ashmem_invI)
  note D = ashmem_invD [OF inv] and S = purge_one_simps [OF r(1)]
  have mem: "r \<in> set (ashmem_lru_list s)" using D(8) r by auto
  show "kheap_ok (areas (purge_one r s))" "kheap_ok (ranges (purge_one r s))" using D(1,2) by (simp_all add: S)
  show "distinct (ulist (purge_one r s) a)" for a using D(3) by (simp add: S)
  show "desc (purge_one r s) (ulist (purge_one r s) a)" for a
    unfolding S(5) using D(4) [of a] r(1) by (subst desc_cong [where s = s]) (auto simp: S(7))
  show "q \<in> set (ulist (purge_one r s) a) \<longleftrightarrow>
      (\<exists>Q. kobj (ranges (purge_one r s)) q = Some Q \<and> asma Q = a)" for q a
    using D(5) [of q a] r(1) by (auto simp: S)
  show "range_ok Q" if "kobj (ranges (purge_one r s)) q = Some Q" for q Q
    using that D(6) [of q Q] D(6) [OF r(1)] by (auto simp: S range_ok_def split: if_splits)
  show "distinct (ashmem_lru_list (purge_one r s))" using D(7) by (simp add: S)
  show "q \<in> set (ashmem_lru_list (purge_one r s)) \<longleftrightarrow>
      (\<exists>Q. kobj (ranges (purge_one r s)) q = Some Q \<and> purged Q = 0)" for q
    using D(8) [of q] D(7) r by (auto simp: S)
  have "(\<Sum>q\<leftarrow>remove1 r (ashmem_lru_list s). range_size (rng (purge_one r s) q))
      = (\<Sum>q\<leftarrow>remove1 r (ashmem_lru_list s). range_size (rng s q))"
    using r(1) by (intro sum_range_size_cong) (auto simp: S range_size_def)
  also have "\<dots> = lru_count s - range_size R" using mem r(1) D(9) by (simp add: sum_list_remove1)
  finally show "lru_count (purge_one r s) =
      (\<Sum>q\<leftarrow>ashmem_lru_list (purge_one r s). range_size (rng (purge_one r s) q))" by (simp add: S)
  show "area_ok A" if "kobj (areas (purge_one r s)) a = Some A" for a A
    using that D(10) [of a A] by (simp add: S)
qed

lemma pages_purge_one:
  assumes inv: "ashmem_inv s" and r: "kobj (ranges s) r = Some R"
  shows "unpinned_pages (purge_one r s) a = unpinned_pages s a"
    "purged_pages (purge_one r s) a = purged_pages s a \<union> (if asma R = a then pgs R else {})"
proof -
  note S = purge_one_simps [OF r]
  have pg: "pgs (rng (purge_one r s) q) = pgs (rng s q)" for q
    using r by (simp add: S pgs_def)
  show "unpinned_pages (purge_one r s) a = unpinned_pages s a"
    by (simp only: unpinned_pages_def S(5) pg)
  have mem: "r \<in> set (ulist s a) \<longleftrightarrow> asma R = a" using ashmem_invD(5) [OF inv, of r a] r by simp
  have "purged_pages (purge_one r s) a =
      (\<Union>q\<in>set (ulist s a). (if purged (rng s q) = 0 then {} else pgs (rng s q)) \<union> (if q = r then pgs R else {}))"
    unfolding purged_pages_def S(5) pg by (rule SUP_cong) (use r in \<open>auto simp: S(7)\<close>)
  also have "\<dots> = purged_pages s a \<union> (\<Union>q\<in>set (ulist s a). if q = r then pgs R else {})"
    by (simp only: UN_Un_distrib purged_pages_def)
  also have "(\<Union>q\<in>set (ulist s a). if q = r then pgs R else {}) = (if asma R = a then pgs R else {})"
    using mem by (auto split: if_splits)
  finally show "purged_pages (purge_one r s) a = purged_pages s a \<union> (if asma R = a then pgs R else {})" .
qed

text \<open>The file and the first and last byte that purging a range truncates.\<close>

definition range_bytes :: "ashmem \<Rightarrow> addr \<Rightarrow> addr \<times> u64 \<times> u64" where
  "range_bytes s r =
     (area_file (area s (asma (rng s r))), word_of_nat (unat (pgstart (rng s r)) * 4096),
      word_of_nat (unat (pgend (rng s r)) * 4096 + 4095))"

lemma range_bytes_purge:
  assumes "range_ok (rng s r)"
  shows "range_bytes s r = (area_file (area s (asma (rng s r))),
     ucast (pgstart (rng s r) * PAGE_SIZE), ucast ((pgend (rng s r) + 1) * PAGE_SIZE - 1))"
proof -
  let ?b = "pgstart (rng s r)" and ?e = "pgend (rng s r)"
  have le: "unat ?e < 0x100000" "unat ?b < 0x100000"
    using assms by (auto simp: range_ok_def word_le_nat_alt word_less_nat_alt)
  have "unat (?b * PAGE_SIZE) = unat ?b * 4096"
    using le by (simp add: unat_word_ariths PAGE_SIZE_def)
  moreover have "(?e + 1) * PAGE_SIZE - 1 = ?e * PAGE_SIZE + 4095"
    by (simp add: PAGE_SIZE_def algebra_simps)
  moreover have "unat (?e * PAGE_SIZE + 4095) = unat ?e * 4096 + 4095"
    using le by (simp add: unat_word_ariths PAGE_SIZE_def)
  moreover have "ucast x = (word_of_nat (unat x) :: u64)" for x :: u32 by simp
  ultimately show ?thesis unfolding range_bytes_def by metis
qed

text \<open>The shrinker purges a prefix of the LRU list: it stops when enough pages are gone or the list
  is empty.\<close>

lemma shrink_loop_correct:
  assumes "ashmem_inv s" "ashmem_lru_list s = rs" "0 < sint nr"
  shows "\<exists>k. ashmem_lru_list (ashmem_shrink_loop rs nr s) = drop k rs
     \<and> ashmem_inv (ashmem_shrink_loop rs nr s)
     \<and> (\<forall>a. unpinned_pages (ashmem_shrink_loop rs nr s) a = unpinned_pages s a)
     \<and> (\<forall>a. purged_pages (ashmem_shrink_loop rs nr s) a = purged_pages s a
            \<union> (\<Union>r\<in>set (take k rs). if asma (rng s r) = a then pgs (rng s r) else {}))
     \<and> truncated (ashmem_shrink_loop rs nr s) = truncated s @ map (range_bytes s) (take k rs)
     \<and> (k < length rs \<longrightarrow> sint nr \<le> int (\<Sum>r\<leftarrow>take k rs. npages (rng s r)))"
  using assms
proof (induction rs arbitrary: s nr)
  case Nil
  then show ?case by (intro exI [of _ 0]) simp
next
  case (Cons r rs)
  note inv = Cons.prems(1)
  obtain R where R: "kobj (ranges s) r = Some R" "purged R = 0" "rng s r = R"
    using ashmem_invD(8) [OF inv, of r] Cons.prems(2) by auto
  note S = purge_one_simps [OF R(1)] and N = unat_range_size [OF ashmem_invD(6) [OF inv R(1)]]
  let ?s = "purge_one r s" and ?nr = "nr - range_size R"
  have nr: "sint ?nr = sint nr - int (npages R)"
    using sint_diff32 [OF Cons.prems(3), of "range_size R"] N by simp
  have inv1: "ashmem_inv ?s" using inv R(1,2) by (rule purge_one_inv)
  have lru1: "ashmem_lru_list ?s = rs" using Cons.prems(2) by (simp add: S)
  note P = pages_purge_one [OF inv R(1)]
  have tr: "truncated ?s = truncated s @ [range_bytes s r]"
    using range_bytes_purge [of s r] ashmem_invD(6) [OF inv R(1)] R(3) by (simp add: S)
  show ?case
  proof (cases "sint ?nr \<le> 0")
    case True
    then have "ashmem_shrink_loop (r # rs) nr s = ?s" using R(3) by (simp only: shrink_loop_Cons if_True)
    then show ?thesis
      using inv1 lru1 P True nr R(3) tr by (intro exI [of _ 1]) simp
  next
    case False
    then have pos: "0 < sint ?nr" by simp
    have eq: "ashmem_shrink_loop (r # rs) nr s = ashmem_shrink_loop rs ?nr ?s"
      using False R(3) by (simp only: shrink_loop_Cons if_False)
    obtain k where k: "ashmem_lru_list (ashmem_shrink_loop rs ?nr ?s) = drop k rs"
      "ashmem_inv (ashmem_shrink_loop rs ?nr ?s)"
      "\<And>a. unpinned_pages (ashmem_shrink_loop rs ?nr ?s) a = unpinned_pages ?s a"
      "\<And>a. purged_pages (ashmem_shrink_loop rs ?nr ?s) a = purged_pages ?s a
            \<union> (\<Union>q\<in>set (take k rs). if asma (rng ?s q) = a then pgs (rng ?s q) else {})"
      "truncated (ashmem_shrink_loop rs ?nr ?s) = truncated ?s @ map (range_bytes ?s) (take k rs)"
      "k < length rs \<Longrightarrow> sint ?nr \<le> int (\<Sum>q\<leftarrow>take k rs. npages (rng ?s q))"
      using Cons.IH [OF inv1 lru1 pos] by blast
    have same: "asma (rng ?s q) = asma (rng s q)" "pgs (rng ?s q) = pgs (rng s q)"
        "npages (rng ?s q) = npages (rng s q)" "range_bytes ?s q = range_bytes s q" for q
      using R by (simp_all add: S pgs_def npages_def range_bytes_def)
    show ?thesis
      unfolding eq
    proof (intro exI [of _ "Suc k"] conjI allI impI)
      show "purged_pages (ashmem_shrink_loop rs ?nr ?s) a = purged_pages s a
            \<union> (\<Union>q\<in>set (take (Suc k) (r # rs)). if asma (rng s q) = a then pgs (rng s q) else {})" for a
        unfolding k(4) P(2) same using R(3) by (simp add: Un_assoc)
      show "sint nr \<le> int (\<Sum>q\<leftarrow>take (Suc k) (r # rs). npages (rng s q))" if "Suc k < length (r # rs)"
        using k(6) that nr R(3) unfolding same by simp
      have "map (range_bytes ?s) (take k rs) = map (range_bytes s) (take k rs)" by (simp add: same)
      then show "truncated (ashmem_shrink_loop rs ?nr ?s) =
          truncated s @ map (range_bytes s) (take (Suc k) (r # rs))"
        unfolding k(5) tr by simp
    qed (use k(1,2,3) P(1) in simp_all)
  qed
qed

subsection \<open>The remaining operations keep the invariant\<close>

lemma ashmem_inv_cong:
  assumes "ashmem_inv s" "areas s' = areas s" "ranges s' = ranges s"
    "ashmem_lru_list s' = ashmem_lru_list s" "lru_count s' = lru_count s"
  shows "ashmem_inv s'"
proof -
  have "ulist s' = ulist s" using assms(2) by (simp add: ulist_def fun_eq_iff)
  moreover have "desc s' = desc s" using assms(3) by (simp add: desc_def fun_eq_iff)
  ultimately show ?thesis using assms unfolding ashmem_inv_def by simp
qed

lemma area_update_inv:
  assumes inv: "ashmem_inv s" and A: "kobj (areas s) a = Some A" "unpinned_list A' = unpinned_list A"
    "area_ok A'"
  shows "ashmem_inv (s\<lparr>areas := kwrite a A' (areas s)\<rparr>)"
proof -
  let ?s = "s\<lparr>areas := kwrite a A' (areas s)\<rparr>"
  have u: "ulist ?s = ulist s" using A by (auto simp: ulist_def fun_eq_iff)
  have d: "desc ?s = desc s" by (simp add: desc_def fun_eq_iff)
  have k: "kheap_ok (areas ?s)" using ashmem_invD(1) [OF inv] A(1) by simp
  have "area_ok B" if "kobj (areas ?s) b = Some B" for b B
    using that A(3) ashmem_invD(10) [OF inv, of b B] by (simp split: if_splits)
  with inv k show ?thesis unfolding ashmem_inv_def u d by simp
qed

lemma f_count_inv: "ashmem_inv s \<Longrightarrow> ashmem_inv (s\<lparr>f_count := g\<rparr>)"
  by (rule ashmem_inv_cong) simp_all

lemma fput_inv [inv_intros]: "ashmem_inv s \<Longrightarrow> ashmem_inv (fput f s)"
  and get_file_inv [inv_intros]: "ashmem_inv s \<Longrightarrow> ashmem_inv (get_file f s)"
  by (simp_all add: fput_def get_file_def f_count_inv)

lemma ashmem_open_inv [inv_intros]:
  assumes inv: "ashmem_inv s" and op: "ashmem_open s = (res, s')"
  shows "ashmem_inv s'"
proof -
  let ?A = "\<lparr>area_name = ASHMEM_NAME_PREFIX @ replicate ASHMEM_NAME_LEN 0,
    unpinned_list = [], area_file = 0, area_size = 0, prot_mask = PROT_MASK\<rparr>"
  obtain o' h where z: "kzalloc ?A (areas s) = (o', h)" by fastforce
  then have s': "s' = s\<lparr>areas := h\<rparr>" using op by (auto simp: ashmem_open_def split: option.splits)
  have h: "kheap_ok h" "kobj h = kobj (areas s) \<or> (\<exists>a. kobj (areas s) a = None \<and> kobj h = (kobj (areas s))(a \<mapsto> ?A))"
    using z slab.alloc_None [OF ashmem_invD(1) [OF inv], of ?A h]
      slab.alloc_Some [OF ashmem_invD(1) [OF inv], of ?A _ h] by (cases o'; auto)+
  have ok: "area_ok ?A"
    by (simp add: area_ok_def ashmem_name_consts nth_append)
  have u: "ulist s' = ulist s"
    using h(2) s' by (auto simp: ulist_def fun_eq_iff)
  have d: "desc s' = desc s" by (simp add: s' desc_def fun_eq_iff)
  have "area_ok B" if "kobj (areas s') b = Some B" for b B
    using that h(2) ok ashmem_invD(10) [OF inv, of b B] by (auto simp: s' split: if_splits)
  with inv h(1) show ?thesis unfolding ashmem_inv_def u d by (simp add: s')
qed

lemma fold_range_del:
  assumes "ashmem_inv s" "ulist s a = xs"
  shows "ashmem_inv (fold range_del xs s) \<and> ulist (fold range_del xs s) a = []
     \<and> (\<forall>b. b \<noteq> a \<longrightarrow> ulist (fold range_del xs s) b = ulist s b)
     \<and> (\<forall>r R. kobj (ranges s) r = Some R \<and> asma R \<noteq> a \<longrightarrow> kobj (ranges (fold range_del xs s)) r = Some R)"
  using assms
proof (induction xs arbitrary: s)
  case (Cons r xs)
  have "r \<in> set (ulist s a)" using Cons.prems(2) by simp
  with Cons.prems(1) obtain R where R: "kobj (ranges s) r = Some R" "asma R = a" by (auto elim: ulist_member)
  have inv: "ashmem_inv (range_del r s)" using Cons.prems(1) R(1) by (rule range_del_inv)
  have u: "ulist (range_del r s) a = xs" using Cons.prems(2) by (simp add: ulist_range_del)
  have "r \<notin> set (ulist s b)" if "b \<noteq> a" for b
    using ashmem_invD(5) [OF Cons.prems(1), of r b] R that by auto
  then have "ulist (range_del r s) b = ulist s b" if "b \<noteq> a" for b
    using that by (simp add: ulist_range_del remove1_idem)
  moreover have "kobj (ranges (range_del r s)) q = Some Q" if "kobj (ranges s) q = Some Q" "asma Q \<noteq> a" for q Q
    using that R by (auto simp: range_del_simps(1) [OF R(1)])
  ultimately show ?case using Cons.IH [OF inv u] by simp
qed simp

lemma ashmem_release_inv [inv_intros]:
  assumes inv: "ashmem_inv s"
  shows "ashmem_inv (snd (ashmem_release a s))"
proof -
  let ?s1 = "fold range_del (ulist s a) s"
  let ?s2 = "if area_file (area ?s1 a) \<noteq> 0 then fput (area_file (area ?s1 a)) ?s1 else ?s1"
  have F: "ashmem_inv ?s1" "ulist ?s1 a = []" using fold_range_del [OF inv refl] by blast+
  have i2: "ashmem_inv ?s2" using F(1) fput_inv by simp
  have u2: "ulist ?s2 a = []" using F(2) by (simp add: fput_def ulist_def)
  have "ashmem_inv (?s2\<lparr>areas := kfree a (areas ?s2)\<rparr>)" (is "ashmem_inv ?s3")
  proof -
    have u: "ulist ?s3 = ulist ?s2"
      using u2 by (auto simp: ulist_def fun_eq_iff split: option.splits)
    have d: "desc ?s3 = desc ?s2" by (simp add: desc_def fun_eq_iff)
    have "kheap_ok (areas ?s3)" using ashmem_invD(1) [OF i2] by simp
    moreover have "area_ok B" if "kobj (areas ?s3) b = Some B" for b B
      using that ashmem_invD(10) [OF i2, of b B] by (simp split: if_splits)
    ultimately show ?thesis using i2 unfolding ashmem_inv_def u d by simp
  qed
  then show ?thesis by (simp add: ashmem_release_def Let_def)
qed


lemma area_okD: "area_ok A \<Longrightarrow> area_file A = 0 \<Longrightarrow> unpinned_list A = []"
  by (auto simp: area_ok_def)

lemma ashmem_mmap_inv [inv_intros]:
  assumes inv: "ashmem_inv s" and A: "kobj (areas s) a = Some A"
    and su: "\<And>nm sz fl f. setup nm sz fl = Inr f \<Longrightarrow> f \<noteq> 0"
  shows "ashmem_inv (snd (snd (ashmem_mmap setup a vma s)))"
proof -
  have upd: "ashmem_inv (s\<lparr>areas := kwrite a (A\<lparr>area_file := f\<rparr>) (areas s), f_count := g\<rparr>)"
    if "f \<noteq> 0" "area_size A \<noteq> 0" for f g
  proof -
    have "area_ok (A\<lparr>area_file := f\<rparr>)" using ashmem_invD(10) [OF inv A] that by (simp add: area_ok_def)
    then show ?thesis using f_count_inv [OF area_update_inv [OF inv A, of "A\<lparr>area_file := f\<rparr>"]] by simp
  qed
  show ?thesis
    using A inv upd su
    by (auto simp: ashmem_mmap_def Let_def shmem_set_file_def fput_inv get_file_inv
        split: sum.splits prod.splits if_splits)
qed

lemma set_prot_mask_inv [inv_intros]:
  assumes "ashmem_inv s" "kobj (areas s) a = Some A"
  shows "ashmem_inv (snd (set_prot_mask rie a prot s))"
  using assms ashmem_invD(10) [OF assms]
  by (simp add: set_prot_mask_def Let_def area_update_inv area_ok_def)

lemma set_name_inv [inv_intros]:
  assumes inv: "ashmem_inv s" and A: "kobj (areas s) a = Some A"
  shows "ashmem_inv (snd (set_name a nm s))"
proof (cases "area_file A = 0")
  case True
  obtain bs u where c: "copy_from_user nm ASHMEM_NAME_LEN = (bs, u)" by fastforce
  then have l: "length bs = ASHMEM_NAME_LEN" using length_copy_from_user [of nm ASHMEM_NAME_LEN] by simp
  note ok = ashmem_invD(10) [OF inv A]
  let ?N = "(take ASHMEM_NAME_PREFIX_LEN (area_name A) @ bs)[ASHMEM_FULL_NAME_LEN - 1 := 0]"
  have "area_ok (A\<lparr>area_name := ?N\<rparr>)"
    using ok l True by (simp add: area_ok_def ashmem_name_consts take_update_cancel)
  then have "ashmem_inv (s\<lparr>areas := kwrite a (A\<lparr>area_name := ?N\<rparr>) (areas s)\<rparr>)"
    by (intro area_update_inv [OF inv A]) simp_all
  then show ?thesis using True A c by (simp add: set_name_def)
qed (use A inv in \<open>simp add: set_name_def\<close>)

lemma shrink_loop_inv:
  "ashmem_inv s \<Longrightarrow> ashmem_lru_list s = rs \<Longrightarrow> ashmem_inv (ashmem_shrink_loop rs nr s)"
proof (induction rs arbitrary: s nr)
  case (Cons r rs)
  obtain R where R: "kobj (ranges s) r = Some R" "purged R = 0"
    using ashmem_invD(8) [OF Cons.prems(1), of r] Cons.prems(2) by auto
  have "ashmem_inv (purge_one r s)" using Cons.prems(1) R by (rule purge_one_inv)
  moreover have "ashmem_lru_list (purge_one r s) = rs" using Cons.prems(2) R(1) by simp
  ultimately show ?case using Cons.IH by (simp add: shrink_loop_Cons del: ashmem_shrink_loop.simps)
qed simp

lemma ashmem_shrink_inv [inv_intros]:
  "ashmem_inv s \<Longrightarrow> ashmem_inv (snd (ashmem_shrink lk nr gm s))"
  using shrink_loop_inv [OF _ refl] by (simp add: ashmem_shrink_def Let_def)

lemma ashmem_pin_post:
  assumes "ashmem_inv s" "ps \<le> pe"
  shows "pin_post a {unat ps..unat pe} s 0 (ashmem_pin a ps pe s)"
  unfolding ashmem_pin_def ASHMEM_NOT_PURGED_def
  by (rule ashmem_pin_loop_correct [of s a "[]"]) (use assms in auto)

lemma ashmem_unpin_post:
  assumes "ashmem_inv s" "kobj (areas s) a = Some A" "area_file A \<noteq> 0" "ps \<le> pe" "pe < 0x100000"
  shows "unpin_post a {unat ps..unat pe} 0 s (ashmem_unpin a ps pe s)"
  unfolding ashmem_unpin_def ASHMEM_NOT_PURGED_def
  by (rule ashmem_unpin_loop_correct) (use assms in auto)

text \<open>The intervals that pass the argument checks of \<open>ashmem_pin_unpin\<close>: whole pages within the
  area; the interval is empty exactly when the length, after the default is filled in, is 0.\<close>

definition pin_len :: "u32 \<Rightarrow> u32 \<times> u32 \<Rightarrow> u32" where
  "pin_len sz pin = (if snd pin = 0 then PAGE_ALIGN sz - fst pin else snd pin)"

lemma page_aligned: "x AND NOT PAGE_MASK = 0 \<Longrightarrow> unat x = unat (x div PAGE_SIZE) * 4096"
proof -
  assume "x AND NOT PAGE_MASK = 0"
  then have "x AND mask 12 = 0" by (simp add: ashmem_consts mask_eq_exp_minus_1)
  then have "2 ^ 12 dvd unat x" using and_mask_dvd_nat by blast
  then show ?thesis by (simp add: ashmem_consts unat_div)
qed

lemma pin_interval_pages:
  assumes "pin_interval sz pin = Inr (ps, pe)" "pin_len sz pin \<noteq> 0"
  shows "ps \<le> pe" "pe < 0x100000" "unat (fst pin) = unat ps * 4096"
    "unat (fst pin) + unat (pin_len sz pin) = (unat pe + 1) * 4096"
    "(unat pe + 1) * 4096 \<le> unat (PAGE_ALIGN sz)"
proof -
  let ?o = "fst pin" and ?l = "pin_len sz pin"
  from assms(1) have al: "(?o OR ?l) AND NOT PAGE_MASK = 0" and ov: "?l \<le> (-1) - ?o"
    and sz: "?o + ?l \<le> PAGE_ALIGN sz"
    and r: "ps = ?o div PAGE_SIZE" "pe = ps + ?l div PAGE_SIZE - 1"
    by (auto simp: pin_interval_def pin_len_def Let_def not_less split: if_splits)
  have "?o AND NOT PAGE_MASK = 0" "?l AND NOT PAGE_MASK = 0"
    using al by (simp_all add: bit.conj_disj_distrib2 or_eq_0_iff)
  then have o: "unat ?o = unat ps * 4096" and l: "unat ?l = unat (?l div PAGE_SIZE) * 4096"
    using page_aligned r(1) by blast+
  let ?n = "?l div PAGE_SIZE"
  have "unat ((-1::u32) - ?o) = unat (-1::u32) - unat ?o" by (rule unat_sub) simp
  moreover have m: "unat (-1::u32) = 4294967295" by (simp add: unsigned_minus_1_eq_mask mask_eq_exp_minus_1)
  moreover have "unat ?o \<le> unat (-1::u32)" using word_le_nat_alt by fastforce
  ultimately have sum: "unat ?o + unat ?l < 2 ^ 32" using ov by (simp add: word_le_nat_alt)
  then have os: "unat (?o + ?l) = unat ?o + unat ?l" by (simp add: unat_word_ariths)
  have n: "0 < unat ?n" using assms(2) l by (metis mult_is_0 not_gr0 unat_eq_zero)
  have lim: "unat ps + unat ?n < 0x100000 + 1" using sum o l by simp
  then have "unat (ps + ?n) = unat ps + unat ?n" by (simp add: unat_word_ariths)
  then have pe: "unat pe = unat ps + unat ?n - 1"
    using n r(2) by (metis add_is_0 less_numeral_extra(3) unat_eq_zero unat_minus_one)
  show "ps \<le> pe" using pe n by (simp add: word_le_nat_alt)
  show "pe < 0x100000" using pe n lim by (simp add: word_less_nat_alt)
  show "unat ?o = unat ps * 4096" by (rule o)
  show e: "unat ?o + unat ?l = (unat pe + 1) * 4096" using o l pe n by (simp add: algebra_simps)
  show "(unat pe + 1) * 4096 \<le> unat (PAGE_ALIGN sz)" using sz os e by (simp add: word_le_nat_alt)
qed
subsection \<open>Runs of the driver\<close>

text \<open>A request whose interval is not empty.\<close>

definition nonempty_request :: "ashmem \<Rightarrow> addr \<Rightarrow> ashmem_cmd \<Rightarrow> bool" where
  "nonempty_request s a cmd \<longleftrightarrow>
     (case cmd of ASHMEM_PIN_CMD pc (Some pin) \<Rightarrow> pin_len (area_size (area s a)) pin \<noteq> 0 | _ \<Rightarrow> True)"

lemma ashmem_pin_unpin_inv:
  assumes inv: "ashmem_inv s" and A: "kobj (areas s) a = Some A"
    and ne: "pin \<noteq> None \<longrightarrow> pin_len (area_size A) (the pin) \<noteq> 0"
  shows "ashmem_inv (snd (ashmem_pin_unpin a pc pin s))"
proof (cases "area_file A = 0 \<or> pin = None \<or> (\<exists>e. pin_interval (area_size A) (the pin) = Inl e)")
  case True
  then show ?thesis using inv A by (auto simp: ashmem_pin_unpin_def split: option.splits)
next
  case False
  then obtain p ps pe where p: "pin = Some p" "pin_interval (area_size A) p = Inr (ps, pe)"
    and f: "area_file A \<noteq> 0" by (cases "pin_interval (area_size A) (the pin)") auto
  note I = pin_interval_pages [OF p(2)]
  have le: "ps \<le> pe" "pe < 0x100000" using I ne p(1) by simp_all
  have "ashmem_inv (snd (ashmem_pin a ps pe s))"
    using ashmem_pin_post [OF inv le(1), of a] by (cases "ashmem_pin a ps pe s") (auto simp: pin_post_def)
  moreover have "ashmem_inv (snd (ashmem_unpin a ps pe s))"
    using ashmem_unpin_post [OF inv A f le] by (cases "ashmem_unpin a ps pe s") (auto simp: unpin_post_def)
  ultimately show ?thesis
    using p f A inv by (auto simp: ashmem_pin_unpin_def split: pin_cmd.splits prod.splits)
qed

lemma ashmem_ioctl_inv [inv_intros]:
  assumes inv: "ashmem_inv s" and A: "kobj (areas s) a = Some A" and ne: "nonempty_request s a cmd"
  shows "ashmem_inv (snd (ashmem_ioctl c a cmd s))"
proof (cases cmd)
  case (ASHMEM_SET_SIZE sz)
  have "ashmem_inv (s\<lparr>areas := kwrite a (A\<lparr>area_size := sz\<rparr>) (areas s)\<rparr>)" if "area_file A = 0"
    by (rule area_update_inv [OF inv A]) (use ashmem_invD(10) [OF inv A] that in \<open>auto simp: area_ok_def\<close>)
  then show ?thesis using ASHMEM_SET_SIZE inv A by (simp add: ashmem_ioctl_def)
next
  case (ASHMEM_PIN_CMD pc pin)
  have "ashmem_inv (snd (ashmem_pin_unpin a pc pin s))"
    by (rule ashmem_pin_unpin_inv [OF inv A])
       (use ne A ASHMEM_PIN_CMD in \<open>auto simp: nonempty_request_def split: option.splits\<close>)
  then show ?thesis using ASHMEM_PIN_CMD by (simp add: ashmem_ioctl_def)
next
  case (ASHMEM_SET_NAME nm)
  then show ?thesis using set_name_inv [OF inv A] by (simp add: ashmem_ioctl_def)
next
  case (ASHMEM_SET_PROT_MASK prot)
  then show ?thesis using set_prot_mask_inv [OF inv A] by (simp add: ashmem_ioctl_def)
next
  case ASHMEM_PURGE_ALL_CACHES
  obtain r1 s1 where s1: "ashmem_shrink (lock_free c) 0 GFP_KERNEL s = (r1, s1)" by fastforce
  then have "ashmem_inv s1" using ashmem_shrink_inv [OF inv, of "lock_free c" 0 GFP_KERNEL] by simp
  then have "ashmem_inv (snd (ashmem_shrink (lock_free c) r1 GFP_KERNEL s1))" by (rule ashmem_shrink_inv)
  then show ?thesis using inv ASHMEM_PURGE_ALL_CACHES s1 by (simp add: ashmem_ioctl_def)
qed (use inv in \<open>simp_all add: ashmem_ioctl_def\<close>)

text \<open>The driver's entry points in any order, with any outcome of the allocations.  \<open>setup\<close> never
  yields a NULL file.\<close>

inductive ashmem_step :: "ashmem \<Rightarrow> ashmem \<Rightarrow> bool" where
  open_area: "ashmem_open s = (r, s') \<Longrightarrow> ashmem_step s s'"
| release_area: "kobj (areas s) a = Some A \<Longrightarrow> ashmem_step s (snd (ashmem_release a s))"
| mmap_area: "kobj (areas s) a = Some A \<Longrightarrow> (\<And>nm sz fl f. setup nm sz fl = Inr f \<Longrightarrow> f \<noteq> 0) \<Longrightarrow>
    ashmem_step s (snd (snd (ashmem_mmap setup a vma s)))"
| ioctl_area: "kobj (areas s) a = Some A \<Longrightarrow> nonempty_request s a cmd \<Longrightarrow>
    ashmem_step s (snd (ashmem_ioctl c a cmd s))"
| shrink_lru: "ashmem_step s (snd (ashmem_shrink lk nr gm s))"
| range_memory: "ashmem_step s (s\<lparr>ranges := (ranges s)\<lparr>kfail := fs\<rparr>\<rparr>)"
| area_memory: "ashmem_step s (s\<lparr>areas := (areas s)\<lparr>kfail := fs\<rparr>\<rparr>)"

definition ashmem_init :: ashmem where
  "ashmem_init = \<lparr>areas = \<lparr>kobj = Map.empty, knext = 1, kfail = []\<rparr>,
     ranges = \<lparr>kobj = Map.empty, knext = 1, kfail = []\<rparr>,
     ashmem_lru_list = [], lru_count = 0, truncated = [], f_count = (\<lambda>_. 0)\<rparr>"

lemma ashmem_init_inv: "ashmem_inv ashmem_init"
  by (simp add: ashmem_inv_def ashmem_init_def kheap_ok_def ulist_def desc_def)

lemma ashmem_step_inv: "ashmem_step s s' \<Longrightarrow> ashmem_inv s \<Longrightarrow> ashmem_inv s'"
proof (induction rule: ashmem_step.induct)
  case (range_memory s fs)
  then show ?case
    by (intro ashmem_inv_ranges_cong) (auto simp: ashmem_inv_def kheap_ok_def)
next
  case (area_memory s fs)
  have "ulist (s\<lparr>areas := (areas s)\<lparr>kfail := fs\<rparr>\<rparr>) = ulist s" by (simp add: ulist_def fun_eq_iff)
  moreover have "desc (s\<lparr>areas := (areas s)\<lparr>kfail := fs\<rparr>\<rparr>) = desc s" by (simp add: desc_def fun_eq_iff)
  ultimately show ?case using area_memory by (simp add: ashmem_inv_def kheap_ok_def)
qed (blast intro: inv_intros)+
subsection \<open>Properties\<close>

text \<open>A state with one mapped area of eight pages whose pages 2 to 5 are unpinned; \<open>pg\<close> tells
  whether they were purged.\<close>

definition ashmem_example :: "u32 \<Rightarrow> ashmem" where
  "ashmem_example pg =
     \<lparr>areas = \<lparr>kobj = [1 \<mapsto> \<lparr>area_name = ASHMEM_NAME_PREFIX @ replicate ASHMEM_NAME_LEN 0,
                unpinned_list = [1], area_file = 9, area_size = 0x8000, prot_mask = PROT_MASK\<rparr>],
              knext = 2, kfail = []\<rparr>,
      ranges = \<lparr>kobj = [1 \<mapsto> \<lparr>asma = 1, pgstart = 2, pgend = 5, purged = pg\<rparr>], knext = 2, kfail = []\<rparr>,
      ashmem_lru_list = (if pg = 0 then [1] else []), lru_count = (if pg = 0 then 4 else 0),
      truncated = [], f_count = (\<lambda>_. 1)\<rparr>"

lemma ashmem_example_inv:
  assumes "pg = 0 \<or> pg = 1"
  shows "ashmem_inv (ashmem_example pg)"
proof (rule ashmem_invI)
  let ?s = "ashmem_example pg"
  have u: "ulist ?s b = (if b = 1 then [1] else [])" for b
    by (simp add: ulist_def ashmem_example_def)
  show "area_ok A" if "kobj (areas ?s) b = Some A" for b A
    using that by (auto simp: ashmem_example_def area_ok_def ashmem_name_consts nth_append split: if_splits)
  show "range_ok R" if "kobj (ranges ?s) r = Some R" for r R
    using that assms by (auto simp: ashmem_example_def range_ok_def split: if_splits)
  show "distinct (ulist ?s b)" "desc ?s (ulist ?s b)" for b by (simp_all add: u desc_def)
  show "r \<in> set (ulist ?s b) \<longleftrightarrow> (\<exists>R. kobj (ranges ?s) r = Some R \<and> asma R = b)" for b r
    unfolding u by (auto simp: ashmem_example_def split: if_splits)
qed (use assms in \<open>auto simp: ashmem_example_def kheap_ok_def range_size_def deref_def ulist_def split: if_splits\<close>)

lemma ashmem_example_pages:
  "unpinned_pages (ashmem_example pg) 1 = {2..5}"
  "purged_pages (ashmem_example pg) 1 = (if pg = 0 then {} else {2..5})"
  "kobj (areas (ashmem_example pg)) 1 \<noteq> None"
  by (simp_all add: unpinned_pages_def purged_pages_def ulist_def ashmem_example_def pgs_def)



text \<open>C10: pinning the pages \<open>ps..pe\<close> of an area makes exactly these pages pinned (all other pages
  keep their state, of this and of every other area), and the call answers
  \<open>ASHMEM_WAS_PURGED\<close> exactly if one of the pages had been purged.  If the allocation in the
  hole-punching case fails, further pages of the area become pinned, never unpinned.\<close>

theorem ashmem_pin_correct:
  assumes inv: "ashmem_inv s" and le: "ps \<le> pe"
  shows "(case ashmem_pin a ps pe s of (ret, s') \<Rightarrow>
      ashmem_inv s'
    \<and> ret = (if purged_pages s a \<inter> {unat ps..unat pe} = {} then ASHMEM_NOT_PURGED
             else ASHMEM_WAS_PURGED)
    \<and> unpinned_pages s' a \<subseteq> unpinned_pages s a - {unat ps..unat pe}
    \<and> (kfail (ranges s) = [] \<longrightarrow>
         unpinned_pages s' a = unpinned_pages s a - {unat ps..unat pe}
       \<and> purged_pages s' a = purged_pages s a - {unat ps..unat pe})
    \<and> (\<forall>b. b \<noteq> a \<longrightarrow> unpinned_pages s' b = unpinned_pages s b \<and> purged_pages s' b = purged_pages s b))"
proof -
  obtain ret s' where res: "ashmem_pin a ps pe s = (ret, s')" by fastforce
  have post: "pin_post a {unat ps..unat pe} s 0 (ret, s')" using ashmem_pin_post [OF inv le, of a] res by simp
  then have inv': "ashmem_inv s'" by (simp add: pin_post_def)
  note P = pages_covers [OF inv] and P' = pages_covers [OF inv']
  have sub: "\<And>b p. covers s' a b p \<Longrightarrow> covers s a b p \<and> p \<notin> {unat ps..unat pe}"
    and eq: "\<And>b p. kfail (ranges s) = [] \<Longrightarrow> covers s a b p \<Longrightarrow> p \<notin> {unat ps..unat pe} \<Longrightarrow> covers s' a b p"
    and oth: "\<And>c b p. c \<noteq> a \<Longrightarrow> covers s' c b p = covers s c b p"
    and r: "ret = 0 \<longleftrightarrow> (\<forall>p\<in>{unat ps..unat pe}. \<not> covers s a True p)" "ret = 0 \<or> ret = 1"
    using post unfolding pin_post_def prod.case by blast+
  have "purged_pages s a \<inter> {unat ps..unat pe} = {} \<longleftrightarrow> ret = 0"
    unfolding r(1) disjoint_iff P(2) by blast
  then have "ret = (if purged_pages s a \<inter> {unat ps..unat pe} = {} then ASHMEM_NOT_PURGED
             else ASHMEM_WAS_PURGED)"
    using r(2) by (simp only: ashmem_consts) (metis (full_types))
  moreover have "unpinned_pages s' a \<subseteq> unpinned_pages s a - {unat ps..unat pe}"
    using sub by (auto simp only: P P' Diff_iff subset_iff)
  moreover have "unpinned_pages s' a = unpinned_pages s a - {unat ps..unat pe}
       \<and> purged_pages s' a = purged_pages s a - {unat ps..unat pe}" if "kfail (ranges s) = []"
    using sub eq [OF that] by (intro conjI set_eqI) (simp only: P P' Diff_iff; blast)+
  moreover have "unpinned_pages s' b = unpinned_pages s b \<and> purged_pages s' b = purged_pages s b"
    if "b \<noteq> a" for b
    using oth [OF that] by (intro conjI set_eqI) (simp_all only: P P')
  ultimately show ?thesis using inv' unfolding res prod.case by blast
qed

theorem ashmem_pin_correct_witness:
  "ashmem_inv (ashmem_example 1) \<and> fst (ashmem_pin 1 3 4 (ashmem_example 1)) = ASHMEM_WAS_PURGED
   \<and> unpinned_pages (snd (ashmem_pin 1 3 4 (ashmem_example 1))) 1 = {2..5} - {3..4}"
proof -
  have k: "kfail (ranges (ashmem_example 1)) = []" by (simp add: ashmem_example_def)
  have i: "ashmem_inv (ashmem_example 1)" by (rule ashmem_example_inv) simp
  have "{2..5} \<inter> {3..4} \<noteq> ({}::nat set)" by auto
  then show ?thesis
    using ashmem_pin_correct [OF i, of 3 4 1] i k ashmem_example_pages [of 1]
    by (simp add: case_prod_beta)
qed



text \<open>\<open>ASHMEM_GET_PIN_STATUS\<close> answers \<open>ASHMEM_IS_UNPINNED\<close> exactly if some page of the interval is
  unpinned, although the code stops at the first range below the interval.\<close>

theorem ashmem_get_pin_status_correct:
  assumes inv: "ashmem_inv s" and le: "ps \<le> pe"
  shows "ashmem_get_pin_status a ps pe s =
    (if unpinned_pages s a \<inter> {unat ps..unat pe} = {} then ASHMEM_IS_PINNED else ASHMEM_IS_UNPINNED)"
proof -
  have "ashmem_pin_status_loop s ps pe xs =
      (if (\<Union>r\<in>set xs. pgs (rng s r)) \<inter> {unat ps..unat pe} = {} then ASHMEM_IS_PINNED else ASHMEM_IS_UNPINNED)"
    if "desc s xs" "set xs \<subseteq> set (ulist s a)" for xs
    using that
  proof (induction xs)
    case (Cons r rs)
    from inv Cons.prems(2) obtain R where R: "rng s r = R" "pgstart R \<le> pgend R"
      by (auto elim: ulist_member)
    show ?case
    proof (cases "range_before_page R ps")
      case True
      have "pgs (rng s q) \<inter> {unat ps..unat pe} = {}" if "q \<in> set (r # rs)" for q
      proof -
        have "pgend (rng s q) \<le> pgend R"
        proof (cases "q = r")
          case False
          then have "pgend (rng s q) < pgstart R" using Cons.prems(1) that R(1) by (auto simp: desc_def)
          with R(2) show ?thesis by simp
        qed (simp add: R)
        with True show ?thesis by (auto simp: range_before_page_def pgs_def word_le_nat_alt word_less_nat_alt)
      qed
      then have "(\<Union>q\<in>set (r # rs). pgs (rng s q)) \<inter> {unat ps..unat pe} = {}" by blast
      with True R(1) show ?thesis by simp
    next
      case False
      have "desc s rs" using Cons.prems(1) by (simp add: desc_def)
      with Cons.IH Cons.prems(2) have IH: "ashmem_pin_status_loop s ps pe rs =
        (if (\<Union>r\<in>set rs. pgs (rng s r)) \<inter> {unat ps..unat pe} = {} then ASHMEM_IS_PINNED else ASHMEM_IS_UNPINNED)"
        by simp
      have "page_range_in_range R ps pe \<longleftrightarrow> pgs R \<inter> {unat ps..unat pe} \<noteq> {}"
        using pgs_overlap [OF R(2) le] .
      with False R(1) IH show ?thesis by (simp add: Int_Un_distrib2)
    qed
  qed simp
  from this [OF ashmem_invD(4) [OF inv, of a]] show ?thesis
    by (simp add: ashmem_get_pin_status_def unpinned_pages_def)
qed

theorem ashmem_get_pin_status_correct_witness:
  "ashmem_get_pin_status 1 0 2 (ashmem_example 0) = ASHMEM_IS_UNPINNED
   \<and> ashmem_get_pin_status 1 6 7 (ashmem_example 0) = ASHMEM_IS_PINNED"
proof -
  have i: "ashmem_inv (ashmem_example 0)" by (rule ashmem_example_inv) simp
  have "{2..5} \<inter> {0..2} \<noteq> ({}::nat set)" "{2..5} \<inter> {6..7} = ({}::nat set)" by auto
  then show ?thesis
    using ashmem_get_pin_status_correct [OF i, of 0 2 1] ashmem_get_pin_status_correct [OF i, of 6 7 1]
      ashmem_example_pages [of 0] by simp
qed



text \<open>\<open>ASHMEM_PURGE_ALL_CACHES\<close> by an administrator purges everything that is unpinned, in all areas, as long as fewer than
  \<open>2 ^ 31\<close> pages are on the LRU list (the count is passed on as a signed number).\<close>

theorem ashmem_purge_all:
  assumes inv: "ashmem_inv s" and c: "cap_sys_admin c" "lock_free c"
    and n: "(\<Sum>r\<leftarrow>ashmem_lru_list s. npages (rng s r)) < 2 ^ 31"
  shows "case ashmem_ioctl c a ASHMEM_PURGE_ALL_CACHES s of (ret, s') \<Rightarrow>
      ret = Inr (lru_count s) \<and> ashmem_lru_list s' = [] \<and> lru_count s' = 0
    \<and> (\<forall>b. unpinned_pages s' b = unpinned_pages s b \<and> purged_pages s' b = unpinned_pages s b)"
proof -
  let ?L = "ashmem_lru_list s" and ?f = "\<lambda>r. npages (rng s r)"
  have g: "GFP_KERNEL AND GFP_FS \<noteq> 0" by (simp add: GFP_KERNEL_def GFP_FS_def)
  have ok: "range_ok (rng s r)" if "r \<in> set ?L" for r
    using that ashmem_invD(8) [OF inv, of r] ashmem_invD(6) [OF inv, of r] by auto
  have cnt: "unat (\<Sum>r\<leftarrow>xs. range_size (rng s r)) = sum_list (map ?f xs)"
    if "set xs \<subseteq> set ?L" "sum_list (map ?f xs) < 2 ^ 31" for xs
    using that
  proof (induction xs)
    case (Cons r xs)
    then have "unat (\<Sum>r\<leftarrow>xs. range_size (rng s r)) = sum_list (map ?f xs)"
      "unat (range_size (rng s r)) = npages (rng s r)"
      using unat_range_size(1) [OF ok, of r] by auto
    with Cons.prems(2) show ?case by (simp add: unat_word_ariths)
  qed simp
  have lc: "unat (lru_count s) = sum_list (map ?f ?L)" using cnt [OF _ n] ashmem_invD(9) [OF inv] by simp
  have eq: "ashmem_ioctl c a ASHMEM_PURGE_ALL_CACHES s =
      (Inr (lru_count s), snd (ashmem_shrink True (lru_count s) GFP_KERNEL s))"
    using c g by (simp add: ashmem_ioctl_def ashmem_shrink_def)
  show ?thesis
  proof (cases "?L = []")
    case True
    then have "lru_count s = 0" using ashmem_invD(9) [OF inv] by simp
    moreover have "purged_pages s b = unpinned_pages s b" for b
    proof -
      have "purged (rng s r) \<noteq> 0" if "r \<in> set (ulist s b)" for r
        using that True ashmem_invD(5) [OF inv, of r b] ashmem_invD(8) [OF inv, of r] by auto
      then show ?thesis by (simp add: purged_pages_def unpinned_pages_def)
    qed
    ultimately show ?thesis using True unfolding eq by (simp add: ashmem_shrink_def)
  next
    case False
    have pos: "0 < npages (rng s r)" if "r \<in> set ?L" for r using unat_range_size(2) [OF ok [OF that]] .
    have "0 < sum_list (map ?f ?L)" using False pos by (cases ?L) auto
    then have u: "0 < unat (lru_count s)" "unat (lru_count s) < 2147483648" unfolding lc using n by simp_all
    moreover have e: "uint (lru_count s) = int (unat (lru_count s))" by simp
    ultimately have v: "0 < uint (lru_count s)" "uint (lru_count s) < 2147483648" by linarith+
    then have s: "sint (lru_count s) = int (sum_list (map ?f ?L))" "0 < sint (lru_count s)" "lru_count s \<noteq> 0"
      using e lc sint_eq_uint32 [OF v(2)] by (metis, metis, fastforce)
    obtain k where k: "ashmem_lru_list (ashmem_shrink_loop ?L (lru_count s) s) = drop k ?L"
      "ashmem_inv (ashmem_shrink_loop ?L (lru_count s) s)"
      "\<And>a. unpinned_pages (ashmem_shrink_loop ?L (lru_count s) s) a = unpinned_pages s a"
      "k < length ?L \<Longrightarrow> sint (lru_count s) \<le> int (\<Sum>r\<leftarrow>take k ?L. npages (rng s r))"
      using shrink_loop_correct [OF inv refl s(2)] by blast
    let ?s' = "ashmem_shrink_loop ?L (lru_count s) s"
    have "length ?L \<le> k"
    proof (rule ccontr)
      assume "\<not> length ?L \<le> k"
      then have lt: "k < length ?L" by simp
      have "sum_list (map ?f ?L) = sum_list (map ?f (take k ?L)) + sum_list (map ?f (drop k ?L))"
        by (simp flip: sum_list_append map_append)
      moreover have "0 < sum_list (map ?f (drop k ?L))"
        using lt pos [of "?L ! k"] by (simp add: Cons_nth_drop_Suc [symmetric])
      ultimately show False using k(4) [OF lt] s(1) by simp
    qed
    then have e: "ashmem_lru_list ?s' = []" using k(1) by simp
    have "purged (rng ?s' r) \<noteq> 0" if "r \<in> set (ulist ?s' b)" for r b
      using that e ashmem_invD(5) [OF k(2), of r b] ashmem_invD(8) [OF k(2), of r] by auto
    then have "purged_pages ?s' b = unpinned_pages ?s' b" for b
      by (simp add: purged_pages_def unpinned_pages_def)
    moreover have "snd (ashmem_shrink True (lru_count s) GFP_KERNEL s) = ?s'"
      using g s(3) by (simp add: ashmem_shrink_def Let_def)
    ultimately show ?thesis using e k(3) ashmem_invD(9) [OF k(2)] unfolding eq by simp
  qed
qed

theorem ashmem_purge_all_witness:
  "purged_pages (snd (ashmem_ioctl \<lparr>read_implies_exec = False, cap_sys_admin = True, lock_free = True\<rparr> 1
     ASHMEM_PURGE_ALL_CACHES (ashmem_example 0))) 1 = {2..5}"
proof -
  have i: "ashmem_inv (ashmem_example 0)" by (rule ashmem_example_inv) simp
  have "(\<Sum>r\<leftarrow>ashmem_lru_list (ashmem_example 0). npages (rng (ashmem_example 0) r)) < 2 ^ 31"
    by (simp add: ashmem_example_def npages_def)
  from ashmem_purge_all [OF i _ _ this, of "\<lparr>read_implies_exec = False, cap_sys_admin = True, lock_free = True\<rparr>" 1]
  show ?thesis using ashmem_example_pages(1) [of 0] by (simp add: case_prod_beta)
qed

text \<open>The name given by \<open>ASHMEM_SET_NAME\<close> is the one \<open>ASHMEM_GET_NAME\<close> returns, cut at the
  first NUL and at 255 bytes and NUL-terminated; an empty name gives the default name.\<close>

theorem ashmem_name_roundtrip:
  assumes inv: "ashmem_inv s" and A: "kobj (areas s) a = Some A" "area_file A = 0"
    and nm: "ASHMEM_NAME_LEN \<le> length nm"
  shows "fst (set_name a nm s) = Inr 0
    \<and> get_name a ASHMEM_NAME_LEN (snd (set_name a nm s)) =
        Inr (if nm ! 0 = 0 then ASHMEM_NAME_DEF else takeWhile (\<lambda>b. b \<noteq> 0) (take 255 nm) @ [0])"
proof -
  have ok: "length (area_name A) = ASHMEM_FULL_NAME_LEN" "take ASHMEM_NAME_PREFIX_LEN (area_name A) = ASHMEM_NAME_PREFIX"
    using ashmem_invD(10) [OF inv A(1)] by (auto simp: area_ok_def)
  have len: "ASHMEM_NAME_LEN = 256" "ASHMEM_NAME_PREFIX_LEN = 11" "ASHMEM_FULL_NAME_LEN = 267"
     "length ASHMEM_NAME_PREFIX = 11"
    by (simp_all add: ashmem_name_consts)
  let ?nm = "(ASHMEM_NAME_PREFIX @ take 256 nm)[266 := 0]"
  have cp: "copy_from_user nm 256 = (take 256 nm, 0)" using nm len by (simp add: copy_from_user_def)
  have st: "set_name a nm s = (Inr 0, s\<lparr>areas := kwrite a (A\<lparr>area_name := ?nm\<rparr>) (areas s)\<rparr>)"
    using A cp ok by (simp add: set_name_def len)
  have d: "drop 11 ?nm = take 255 nm @ [0]"
  proof -
    have "drop 11 ?nm = (take 256 nm)[255 := 0]" by (simp add: list_update_append ashmem_name_consts)
    also have "\<dots> = take 255 nm @ [0]"
      using nm len by (intro nth_equalityI) (auto simp: nth_append nth_list_update less_Suc_eq)
    finally show ?thesis .
  qed
  have h: "?nm ! 11 = nm ! 0"
    using nm len by (simp add: nth_append nth_list_update)
  have tw: "takeWhile (\<lambda>b. b \<noteq> 0) (xs @ [0]) = takeWhile (\<lambda>b. b \<noteq> 0) xs" for xs :: "u8 list"
    by (induction xs) auto
  have tk: "take (Suc (length (takeWhile (\<lambda>b. b \<noteq> 0) xs))) (xs @ [0]) = takeWhile (\<lambda>b. b \<noteq> 0) xs @ [0]" for xs :: "u8 list"
    by (induction xs) auto
  have l: "length (takeWhile (\<lambda>b. b \<noteq> 0) (take 255 nm)) \<le> 255"
    using length_takeWhile_le [of "\<lambda>b. b \<noteq> 0" "take 255 nm"] by simp
  show ?thesis
    using l h d A(1) tk [of "take 255 nm"]
    by (simp add: st get_name_def Let_def len strlen_def tw) (simp add: ashmem_name_consts)
qed

theorem ashmem_name_roundtrip_witness:
  "get_name 1 ASHMEM_NAME_LEN (snd (set_name 1 (66 # replicate 255 0) (snd (ashmem_open ashmem_init)))) = Inr [66, 0]"
proof -
  let ?s = "snd (ashmem_open ashmem_init)"
  have i: "ashmem_inv ?s" using ashmem_open_inv [OF ashmem_init_inv] by (cases "ashmem_open ashmem_init") auto
  obtain A where A: "kobj (areas ?s) 1 = Some A" "area_file A = 0"
    by (simp add: ashmem_open_def ashmem_init_def kzalloc_def)
  show ?thesis
    using ashmem_name_roundtrip [OF i A, of "66 # replicate 255 0"] by (simp add: ashmem_name_consts)
qed

subsection \<open>Protection bits\<close>

lemma bit_calc_vm_prot_bits: "bit (calc_vm_prot_bits p) i \<longleftrightarrow> i < 3 \<and> bit p i"
proof -
  have "calc_vm_prot_bits p = (p AND 1) OR (p AND 2) OR (p AND 4)"
    by (simp add: calc_vm_prot_bits_def calc_vm_trans_def ashmem_prot_consts)
  moreover have "i < 3 \<longleftrightarrow> i = 0 \<or> i = 1 \<or> i = 2" by auto
  ultimately show ?thesis by (auto simp only: bit_or_iff bit_and_iff word_bit_consts)
qed

lemma bit_calc_vm_may_flags: "bit (calc_vm_may_flags p) i \<longleftrightarrow> 4 \<le> i \<and> i < 7 \<and> bit p (i - 4)"
proof -
  have "calc_vm_may_flags p = push_bit 4 (p AND 1) OR push_bit 4 (p AND 2) OR push_bit 4 (p AND 4)"
    by (simp add: calc_vm_may_flags_def calc_vm_trans_def ashmem_prot_consts push_bit_eq_mult)
  then have "bit (calc_vm_may_flags p) i \<longleftrightarrow> 4 \<le> i \<and> i < 32 \<and> bit p (i - 4) \<and> (i - 4 = 0 \<or> i - 4 = 1 \<or> i - 4 = 2)"
    by (simp only: bit_or_iff bit_and_iff bit_push_bit_iff word_bit_consts possible_bit_word) auto
  then show ?thesis by auto
qed

text \<open>C27: a mapping never has more rights than the protection mask of its area.  A request for a
  right outside the mask is refused with \<open>EPERM\<close> and changes nothing; a mapping that is made has
  none of the rights outside the mask, and none of the \<open>VM_MAY\<close> rights that would allow
  \<open>mprotect\<close> to add one (bits 0-2 are read, write, execute; bits 4-6 the \<open>VM_MAY\<close> bits).  An area of size 0 is
  refused with \<open>EINVAL\<close>.\<close>

theorem ashmem_mmap_protection:
  assumes "kobj (areas s) a = Some A"
  shows "case ashmem_mmap file_setup a vma s of (ret, vma', s') \<Rightarrow>
      (area_size A = 0 \<longrightarrow> ret = Inl EINVAL \<and> vma' = vma \<and> s' = s)
    \<and> (area_size A \<noteq> 0 \<and> (\<exists>i<3. bit (vm_flags vma) i \<and> \<not> bit (prot_mask A) i)
         \<longrightarrow> ret = Inl EPERM \<and> vma' = vma \<and> s' = s)
    \<and> (ret = Inr 0 \<longrightarrow> (\<forall>i<3. (bit (vm_flags vma') i \<longrightarrow> bit (prot_mask A) i)
                            \<and> (bit (vm_flags vma') (i + 4) \<longrightarrow> bit (prot_mask A) i))
         \<and> vm_file vma' = area_file (area s' a))"
proof -
  let ?X = "(vm_flags vma AND NOT (calc_vm_prot_bits (prot_mask A))) AND calc_vm_prot_bits PROT_MASK"
  let ?fl = "vm_flags vma AND NOT (calc_vm_may_flags (NOT (prot_mask A)))"
  have PM: "PROT_MASK = 1 OR 2 OR 4" by (simp add: ashmem_prot_consts)
  have pm: "bit PROT_MASK i" if "i < 3" for i
    unfolding PM bit_or_iff word_bit_consts using that by auto
  have X: "?X = 0 \<longleftrightarrow> (\<forall>i<3. bit (vm_flags vma) i \<longrightarrow> bit (prot_mask A) i)"
  proof
    assume X0: "?X = 0"
    have "bit (prot_mask A) i" if "i < 3" "bit (vm_flags vma) i" for i
    proof -
      have "\<not> bit ?X i" using X0 by simp
      then show ?thesis
        unfolding bit_and_iff bit_not_iff bit_calc_vm_prot_bits using pm that by simp
    qed
    then show "\<forall>i<3. bit (vm_flags vma) i \<longrightarrow> bit (prot_mask A) i" by blast
  next
    assume R: "\<forall>i<3. bit (vm_flags vma) i \<longrightarrow> bit (prot_mask A) i"
    then have "\<not> bit ?X i" for i unfolding bit_and_iff bit_not_iff bit_calc_vm_prot_bits by auto
    then show "?X = 0" by (intro bit_eqI) simp
  qed
  have fl: "(bit (?fl OR VM_CAN_NONLINEAR) i \<longrightarrow> bit (prot_mask A) i)
      \<and> (bit (?fl OR VM_CAN_NONLINEAR) (i + 4) \<longrightarrow> bit (prot_mask A) i)" if "?X = 0" "i < 3" for i
    using that X unfolding VM_CAN_NONLINEAR_def bit_or_iff bit_and_iff bit_not_iff bit_calc_vm_may_flags word_bit_consts
    by auto
  show ?thesis
  proof (cases "area_size A = 0 \<or> ?X \<noteq> 0")
    case True
    then show ?thesis using X assms by (auto simp: ashmem_mmap_def)
  next
    case False
    obtain ret vma' s' where res: "ashmem_mmap file_setup a vma s = (ret, vma', s')" by (cases "ashmem_mmap file_setup a vma s") auto
    with False assms have v: "vm_flags vma' = ?fl OR VM_CAN_NONLINEAR" "vm_file vma' = area_file (area s' a)" if "ret = Inr 0"
      using that
      by (auto simp: ashmem_mmap_def Let_def shmem_set_file_def get_file_def fput_def split: sum.splits if_splits)
    from False have x0: "?X = 0" and ne: "area_size A \<noteq> 0" by blast+
    have rights: "(bit (vm_flags vma') i \<longrightarrow> bit (prot_mask A) i) \<and> (bit (vm_flags vma') (i + 4) \<longrightarrow> bit (prot_mask A) i)"
      if "ret = Inr 0" "i < 3" for i
      using fl [OF x0 that(2)] unfolding v(1) [OF that(1)] .
    from X x0 have "\<forall>i<3. bit (vm_flags vma) i \<longrightarrow> bit (prot_mask A) i" by blast
    then show ?thesis unfolding res prod.case using ne rights v(2) by blast
  qed
qed

theorem ashmem_mmap_protection_witness:
  "fst (ashmem_mmap (\<lambda>_ _ _. Inr 9) 1 \<lparr>vm_flags = 2, vm_file = 5, vm_shmem_ops = False\<rparr>
     (snd (set_prot_mask False 1 1 (ashmem_example 0)))) = Inl EPERM"
proof -
  let ?s = "snd (set_prot_mask False 1 1 (ashmem_example 0))"
  obtain A where A: "kobj (areas ?s) 1 = Some A" "prot_mask A = 1" "area_size A = 0x8000"
    by (simp add: set_prot_mask_def ashmem_example_def ashmem_prot_consts Let_def)
  have "\<exists>i<3. bit (2::u32) i \<and> \<not> bit (1::u32) i" by (intro exI [of _ 1]) (simp add: word_bit_consts)
  then show ?thesis
    using ashmem_mmap_protection [OF A(1), where file_setup = "\<lambda>_ _ _. Inr 9" and vma = "\<lparr>vm_flags = 2, vm_file = 5, vm_shmem_ops = False\<rparr>"] A
    by (simp add: case_prod_beta)
qed

text \<open>\<open>ASHMEM_SET_PROT_MASK\<close> accepts exactly the masks within the current one, and the new
  mask is the requested one, except that a process with the \<open>READ_IMPLIES_EXEC\<close> personality that asks
  for read access also gets execute access, even if it had been removed before.\<close>

theorem set_prot_mask_correct:
  assumes "kobj (areas s) a = Some A"
  shows "case set_prot_mask rie a prot s of (ret, s') \<Rightarrow>
     if \<forall>i. bit prot i \<longrightarrow> bit (prot_mask A) i
     then ret = Inr 0 \<and> (\<forall>i. bit (prot_mask (area s' a)) i \<longleftrightarrow> bit prot i \<or> (rie \<and> bit prot 0 \<and> i = 2))
     else ret = Inl EINVAL \<and> s' = s"
proof -
  have sub: "prot_mask A AND prot = prot \<longleftrightarrow> (\<forall>i. bit prot i \<longrightarrow> bit (prot_mask A) i)"
  proof
    assume e: "prot_mask A AND prot = prot"
    show "\<forall>i. bit prot i \<longrightarrow> bit (prot_mask A) i"
      using bit_and_iff [of "prot_mask A" prot] unfolding e by blast
  qed (auto intro!: bit_eqI simp: bit_and_iff)
  have rd: "prot AND PROT_READ \<noteq> 0 \<longleftrightarrow> bit prot 0"
  proof -
    have "prot AND PROT_READ = 0 \<longleftrightarrow> \<not> bit prot 0"
      by (simp add: PROT_READ_def and_one_eq mod_2_eq_odd bit_0)
    then show ?thesis by simp
  qed
  have ex: "bit (prot OR PROT_EXEC) i \<longleftrightarrow> bit prot i \<or> i = 2" for i
    unfolding PROT_EXEC_def bit_or_iff word_bit_consts ..
  show ?thesis using assms by (auto simp: set_prot_mask_def Let_def sub rd ex)
qed

theorem set_prot_mask_correct_witness:
  "let s = snd (set_prot_mask False 1 1 (ashmem_example 0))
   in \<not> bit (prot_mask (area s 1)) 2 \<and> bit (prot_mask (area (snd (set_prot_mask True 1 1 s)) 1)) 2"
proof -
  let ?s = "snd (set_prot_mask False 1 1 (ashmem_example 0))"
  obtain A where A: "kobj (areas ?s) 1 = Some A" "prot_mask A = 1"
    by (simp add: set_prot_mask_def ashmem_example_def ashmem_prot_consts Let_def)
  then show ?thesis
    using set_prot_mask_correct [OF A(1), where rie = True and prot = 1] by (simp add: case_prod_beta word_bit_consts Let_def)
qed

subsection \<open>Requests for an empty interval\<close>

text \<open>A mapped area all of whose unpinned pages lie below page \<open>n\<close>, its end.\<close>

definition unpinned_below :: "addr \<Rightarrow> ashmem_area \<Rightarrow> u32 \<Rightarrow> ashmem \<Rightarrow> bool" where
  "unpinned_below a A n s \<longleftrightarrow>
     (\<exists>B. kobj (areas s) a = Some B \<and> area_file B = area_file A \<and> area_size B = area_size A)
   \<and> kheap_ok (ranges s) \<and> kfail (ranges s) = []
   \<and> (\<forall>r\<in>set (ulist s a). kobj (ranges s) r \<noteq> None \<and> pgend (rng s r) < n)"

lemma pin_interval_empty:
  "pin_interval sz (PAGE_ALIGN sz, 0) = Inr (PAGE_ALIGN sz div PAGE_SIZE, PAGE_ALIGN sz div PAGE_SIZE - 1)"
proof -
  have "PAGE_ALIGN sz AND NOT PAGE_MASK = 0"
    by (intro bit_eqI) (auto simp: PAGE_ALIGN_def PAGE_MASK_def bit_and_iff bit_not_iff)
  then show ?thesis by (simp add: pin_interval_def Let_def)
qed

lemma unpin_pass_below:
  "\<forall>r\<in>set xs. pgend (rng s r) < n \<Longrightarrow>
   ashmem_unpin_pass s n pe xs = Unpin_insert (case xs of [] \<Rightarrow> None | r # _ \<Rightarrow> Some r)"
  by (cases xs) (simp_all add: range_before_page_def Let_def)

lemma unpin_empty_once:
  assumes P: "unpinned_below a A n s" and n: "0 < n"
  shows "\<exists>r s'. ashmem_unpin a n (n - 1) s = (Inr 0, s')
     \<and> unpinned_below a A n s' \<and> ulist s' a = r # ulist s a \<and> r \<notin> set (ulist s a)
     \<and> range_size (rng s' r) = 0 \<and> unpinned_pages s' a = unpinned_pages s a"
proof -
  obtain B where B: "kobj (areas s) a = Some B" "area_file B = area_file A" "area_size B = area_size A"
    and ok: "kheap_ok (ranges s)" "kfail (ranges s) = []"
    and u: "\<And>r. r \<in> set (ulist s a) \<Longrightarrow> kobj (ranges s) r \<noteq> None \<and> pgend (rng s r) < n"
    using P unfolding unpinned_below_def by blast
  let ?r = "knext (ranges s)" and ?R = "\<lparr>asma = a, pgstart = n, pgend = n - 1, purged = 0\<rparr>"
  let ?s' = "snd (ashmem_unpin a n (n - 1) s)"
  have fresh: "kobj (ranges s) ?r = None" using ok(1) by (auto simp: kheap_ok_def)
  then have nu: "?r \<notin> set (ulist s a)" using u by blast
  have ins: "add_tail_at (case ulist s a of [] \<Rightarrow> None | r # _ \<Rightarrow> Some r) ?r (ulist s a) = ?r # ulist s a"
    by (cases "ulist s a") (simp_all add: add_tail_at_def)
  have ub: "unpinned_list B = ulist s a" using B(1) by (simp add: ulist_def)
  have res: "ashmem_unpin a n (n - 1) s =
      range_alloc a (case ulist s a of [] \<Rightarrow> None | r # _ \<Rightarrow> Some r) 0 n (n - 1) s"
    using unpin_pass_below [of "ulist s a" s n "n - 1"] u
    by (simp add: ashmem_unpin_def ashmem_unpin_loop.simps [of a n "n - 1"] ASHMEM_NOT_PURGED_def)
  have ret: "fst (ashmem_unpin a n (n - 1) s) = Inr 0"
    using ok(2) by (simp add: res range_alloc_def kzalloc_def Let_def)
  have rs: "kobj (ranges ?s') = (kobj (ranges s))(?r \<mapsto> ?R)" "kheap_ok (ranges ?s')" "kfail (ranges ?s') = []"
    "kobj (areas ?s') a = Some (B\<lparr>unpinned_list := ?r # ulist s a\<rparr>)"
    using ok B(1) ins ub by (simp_all add: res range_alloc_def kzalloc_def Let_def lru_add_def set_unpinned_def kheap_ok_def less_SucI)
  have u': "ulist ?s' a = ?r # ulist s a" using rs(4) by (simp add: ulist_def)
  have same: "rng ?s' q = rng s q" if "q \<in> set (ulist s a)" for q
    using that nu by (auto simp: deref_def rs(1))
  have rr: "rng ?s' ?r = ?R" by (simp add: deref_def rs(1))
  have lt: "n - 1 < n" using n unat_minus_one_less [OF n] by (simp add: word_less_nat_alt)
  then have e: "pgs ?R = {}" by (simp add: pgs_def word_less_nat_alt)
  have "unpinned_pages ?s' a = pgs ?R \<union> (\<Union>r\<in>set (ulist s a). pgs (rng ?s' r))"
    by (simp add: unpinned_pages_def u' rr)
  also have "\<dots> = unpinned_pages s a" using same by (simp add: e unpinned_pages_def)
  finally have pg: "unpinned_pages ?s' a = unpinned_pages s a" .
  have "\<forall>q\<in>set (ulist ?s' a). kobj (ranges ?s') q \<noteq> None \<and> pgend (rng ?s' q) < n"
    using u same rr lt by (auto simp: u' rs(1))
  then have "unpinned_below a A n ?s'" using rs B by (simp add: unpinned_below_def)
  then show ?thesis
    using ret u' nu pg rr by (intro exI [of _ ?r] exI [of _ ?s']) (simp add: prod_eq_iff range_size_def)
qed

text \<open>C39: an \<open>ASHMEM_UNPIN\<close> request with the end of the area as its offset and length 0 passes
  the argument checks although its interval is empty; every such call succeeds and allocates one more range of size 0,
  which no page belongs to and which the counter \<open>lru_count\<close> does not see, so that \<open>k\<close> calls make
  the area hold \<open>k\<close> further ranges.\<close>

theorem ashmem_unpin_empty:
  assumes inv: "ashmem_inv s" and A: "kobj (areas s) a = Some A" "area_file A \<noteq> 0"
    and n: "0 < PAGE_ALIGN (area_size A) div PAGE_SIZE" and k: "kfail (ranges s) = []"
    and below: "\<forall>r\<in>set (ulist s a). pgend (rng s r) < PAGE_ALIGN (area_size A) div PAGE_SIZE"
  shows "length (ulist (((\<lambda>s. snd (ashmem_ioctl c a
      (ASHMEM_PIN_CMD ASHMEM_UNPIN (Some (PAGE_ALIGN (area_size A), 0))) s)) ^^ k) s) a) = length (ulist s a) + k
    \<and> unpinned_pages (((\<lambda>s. snd (ashmem_ioctl c a
      (ASHMEM_PIN_CMD ASHMEM_UNPIN (Some (PAGE_ALIGN (area_size A), 0))) s)) ^^ k) s) a = unpinned_pages s a"
proof -
  let ?n = "PAGE_ALIGN (area_size A) div PAGE_SIZE"
  let ?f = "\<lambda>s. snd (ashmem_ioctl c a (ASHMEM_PIN_CMD ASHMEM_UNPIN (Some (PAGE_ALIGN (area_size A), 0))) s)"
  have f: "?f t = snd (ashmem_unpin a ?n (?n - 1) t)" if "unpinned_below a A ?n t" for t
    using that A(2) pin_interval_empty [of "area_size A"]
    by (auto simp: unpinned_below_def ashmem_ioctl_def ashmem_pin_unpin_def split: prod.splits)
  have "unpinned_below a A ?n s"
    using A(1) ashmem_invD(2) [OF inv] k below ashmem_invD(5) [OF inv, of _ a] by (auto simp: unpinned_below_def)
  then have "unpinned_below a A ?n ((?f ^^ k) s) \<and> length (ulist ((?f ^^ k) s) a) = length (ulist s a) + k
      \<and> unpinned_pages ((?f ^^ k) s) a = unpinned_pages s a"
  proof (induction k)
    case (Suc k)
    let ?t = "(?f ^^ k) s"
    have IH: "unpinned_below a A ?n ?t" "length (ulist ?t a) = length (ulist s a) + k" "unpinned_pages ?t a = unpinned_pages s a"
      using Suc by blast+
    have "(?f ^^ Suc k) s = snd (ashmem_unpin a ?n (?n - 1) ?t)" using f [OF IH(1)] by simp
    with unpin_empty_once [OF IH(1) n] IH(2,3) show ?case by auto
  qed simp
  then show ?thesis by blast
qed

theorem ashmem_unpin_empty_witness:
  "length (ulist (((\<lambda>s. snd (ashmem_ioctl \<lparr>read_implies_exec = False, cap_sys_admin = False, lock_free = True\<rparr> 1
      (ASHMEM_PIN_CMD ASHMEM_UNPIN (Some (PAGE_ALIGN 0x8000, 0))) s)) ^^ 1000) (ashmem_example 0)) 1) = 1001"
proof -
  let ?c = "\<lparr>read_implies_exec = False, cap_sys_admin = False, lock_free = True\<rparr>"
  have i: "ashmem_inv (ashmem_example 0)" by (rule ashmem_example_inv) simp
  obtain A where A: "kobj (areas (ashmem_example 0)) 1 = Some A" "area_file A \<noteq> 0" "area_size A = 0x8000"
    by (simp add: ashmem_example_def)
  have u: "ulist (ashmem_example 0) 1 = [1]" and k: "kfail (ranges (ashmem_example 0)) = []"
    and r: "rng (ashmem_example 0) 1 = \<lparr>asma = 1, pgstart = 2, pgend = 5, purged = 0\<rparr>"
    by (simp_all add: ashmem_example_def ulist_def deref_def)
  have n: "PAGE_ALIGN 0x8000 div PAGE_SIZE = 8" by (simp add: PAGE_ALIGN_def PAGE_SIZE_def)
  show ?thesis
    using ashmem_unpin_empty [OF i A(1,2) _ k, where c = ?c and k = 1000] u r n A(3) by simp
qed

end
