(* ===== verification/Logger.thy ===== *)
theory Logger
  imports Kernel_Prelude
begin

text \<open>
  The Android logger, \<open>drivers/staging/android/logger.c\<close>: four ring buffers of variable-length
  entries, each with any number of readers.  An entry is a 20-byte header, whose first two bytes
  are the length of the payload, and the payload; it may wrap around the end of the buffer.  A
  writer that laps readers (or the \<open>head\<close>, where new readers start) pulls them forward to a later
  entry first.

  The device mutex makes each operation atomic.  Offsets stay below the size of the buffer, at
  most 256 KiB, and no sum of them comes near \<open>2 ^ 32\<close>, so \<open>size_t\<close> is \<open>nat\<close> here.  The readers of a log are the
  objects on its list, in list order, named by their addresses.
\<close>

section \<open>The model\<close>

record logger_reader =
  reader_addr :: addr
  r_off :: nat

record logger_log =
  buffer :: "u8 list"
  readers :: "logger_reader list"
  w_off :: nat
  head :: nat
  log_size :: nat

record logger_entry =
  len :: u16
  pad :: u16
  pid :: u32
  tid :: u32
  sec :: u32
  nsec :: u32

definition sizeof_logger_entry :: nat where "sizeof_logger_entry = 20"
definition LOGGER_ENTRY_MAX_LEN :: nat where "LOGGER_ENTRY_MAX_LEN = 4 * 1024"
definition LOGGER_ENTRY_MAX_PAYLOAD :: nat where
  "LOGGER_ENTRY_MAX_PAYLOAD = LOGGER_ENTRY_MAX_LEN - sizeof_logger_entry"

lemmas logger_consts = sizeof_logger_entry_def LOGGER_ENTRY_MAX_LEN_def LOGGER_ENTRY_MAX_PAYLOAD_def

text \<open>The bytes of the header in memory (little endian, no padding but \<open>__pad\<close>).\<close>

definition entry_bytes :: "logger_entry \<Rightarrow> u8 list" where
  "entry_bytes e = le16 (len e) @ le16 (pad e) @ le32 (pid e) @ le32 (tid e) @ le32 (sec e) @ le32 (nsec e)"

definition logger_offset :: "logger_log \<Rightarrow> nat \<Rightarrow> nat" where
  "logger_offset log n = n AND (log_size log - 1)"

text \<open>\<open>memcpy\<close> into the buffer.\<close>

definition store_bytes :: "nat \<Rightarrow> u8 list \<Rightarrow> u8 list \<Rightarrow> u8 list" where
  "store_bytes off bs buf = take off buf @ bs @ drop (off + length bs) buf"

definition load_bytes :: "nat \<Rightarrow> nat \<Rightarrow> u8 list \<Rightarrow> u8 list" where
  "load_bytes off n buf = take n (drop off buf)"

definition get_entry_len :: "logger_log \<Rightarrow> nat \<Rightarrow> nat" where
  "get_entry_len log off =
     (let val = (if log_size log - off = 1
                 then load_bytes off 1 (buffer log) @ load_bytes 0 1 (buffer log)
                 else load_bytes off 2 (buffer log))
      in sizeof_logger_entry + (unat (val ! 0) + 256 * unat (val ! 1)))"

subsection \<open>Reading\<close>

definition set_r_off :: "addr \<Rightarrow> nat \<Rightarrow> logger_log \<Rightarrow> logger_log" where
  "set_r_off a off log =
     log\<lparr>readers := map (\<lambda>r. if reader_addr r = a then r\<lparr>r_off := off\<rparr> else r) (readers log)\<rparr>"

text \<open>\<open>room\<close> is the number of bytes that can be written at the user's address: \<open>copy_to_user\<close>
  fails beyond it.  The bytes handed over are part of the result.\<close>

definition do_read_log_to_user ::
    "logger_log \<Rightarrow> logger_reader \<Rightarrow> nat \<Rightarrow> nat \<Rightarrow> (errno + u8 list) \<times> logger_log" where
  "do_read_log_to_user log reader room count =
     (let n = min count (log_size log - r_off reader);
          first = load_bytes (r_off reader) n (buffer log)
      in if room < n then (Inl EFAULT, log)
         else if count \<noteq> n \<and> room < count then (Inl EFAULT, log)
         else (Inr (first @ (if count \<noteq> n then load_bytes 0 (count - n) (buffer log) else [])),
               set_r_off (reader_addr reader) (logger_offset log (r_off reader + count)) log))"

text \<open>One round of the waiting loop of \<open>logger_read\<close>.\<close>

datatype read_wait = Wait_ready | Wait_error errno | Wait_schedule

definition logger_read_wait :: "logger_log \<Rightarrow> logger_reader \<Rightarrow> bool \<Rightarrow> bool \<Rightarrow> read_wait" where
  "logger_read_wait log reader nonblock signal_pending =
     (if w_off log \<noteq> r_off reader then Wait_ready
      else if nonblock then Wait_error EAGAIN
      else if signal_pending then Wait_error EINTR
      else Wait_schedule)"

text \<open>The rest of \<open>logger_read\<close>, under the mutex; \<open>None\<close> is the jump back to the waiting loop.\<close>

definition logger_read_locked ::
    "logger_log \<Rightarrow> logger_reader \<Rightarrow> nat \<Rightarrow> nat \<Rightarrow> ((errno + u8 list) \<times> logger_log) option" where
  "logger_read_locked log reader room count =
     (if w_off log = r_off reader then None
      else let ret = get_entry_len log (r_off reader)
           in Some (if count < ret then (Inl EINVAL, log) else do_read_log_to_user log reader room ret))"

text \<open>A call of \<open>logger_read\<close> during which no other call changes the log; \<open>None\<close>: the caller
  sleeps.\<close>

definition logger_read ::
    "logger_log \<Rightarrow> logger_reader \<Rightarrow> bool \<Rightarrow> bool \<Rightarrow> nat \<Rightarrow> nat \<Rightarrow> ((errno + u8 list) \<times> logger_log) option" where
  "logger_read log reader nonblock signal_pending room count =
     (case logger_read_wait log reader nonblock signal_pending of
        Wait_ready \<Rightarrow> logger_read_locked log reader room count
      | Wait_error e \<Rightarrow> Some (Inl e, log)
      | Wait_schedule \<Rightarrow> None)"

subsection \<open>Writing\<close>

function get_next_entry_loop :: "logger_log \<Rightarrow> nat \<Rightarrow> nat \<Rightarrow> nat \<Rightarrow> nat" where
  "get_next_entry_loop log off n count =
     (let nr = get_entry_len log off;
          off' = logger_offset log (off + nr);
          count' = count + nr
      in if count' < n then get_next_entry_loop log off' n count' else off')"
  by pat_completeness auto
termination
  by (relation "measure (\<lambda>(log, off, n, count). n - count)")
     (auto simp: get_entry_len_def sizeof_logger_entry_def Let_def)

declare get_next_entry_loop.simps [simp del]

definition get_next_entry :: "logger_log \<Rightarrow> nat \<Rightarrow> nat \<Rightarrow> nat" where
  "get_next_entry log off n = get_next_entry_loop log off n 0"

definition clock_interval :: "nat \<Rightarrow> nat \<Rightarrow> nat \<Rightarrow> bool" where
  "clock_interval a b c \<longleftrightarrow> (if b < a then a < c \<or> b \<ge> c else a < c \<and> b \<ge> c)"

definition fix_up_readers :: "logger_log \<Rightarrow> nat \<Rightarrow> logger_log" where
  "fix_up_readers log n =
     (let old = w_off log;
          new = logger_offset log (old + n);
          fix_off = (\<lambda>off. if clock_interval old new off then get_next_entry log off n else off)
      in log\<lparr>head := fix_off (head log),
             readers := map (\<lambda>r. r\<lparr>r_off := fix_off (r_off r)\<rparr>) (readers log)\<rparr>)"

definition do_write_log :: "logger_log \<Rightarrow> u8 list \<Rightarrow> logger_log" where
  "do_write_log log buf =
     (let count = length buf;
          n = min count (log_size log - w_off log);
          b1 = store_bytes (w_off log) (take n buf) (buffer log);
          b2 = (if count \<noteq> n then store_bytes 0 (drop n buf) b1 else b1)
      in log\<lparr>buffer := b2, w_off := logger_offset log (w_off log + count)\<rparr>)"

text \<open>Reading \<open>n\<close> bytes at \<open>log->buffer + off\<close> without regard to the end of the buffer: \<open>mem\<close>
  is what lies behind it.\<close>

definition load_unchecked :: "(nat \<Rightarrow> u8) \<Rightarrow> nat \<Rightarrow> nat \<Rightarrow> u8 list \<Rightarrow> u8 list" where
  "load_unchecked mem off n buf =
     map (\<lambda>i. if i < length buf then buf ! i else mem (i - length buf)) [off..<off + n]"

definition klog_mark :: "u8 list" where "klog_mark = [0x21, 0x40]"

definition klog_update :: "(nat \<Rightarrow> u8) \<Rightarrow> logger_log \<Rightarrow> nat \<Rightarrow> u8 list" where
  "klog_update mem log count =
     (let klog = replicate 256 0
      in if load_unchecked mem (w_off log) 2 (buffer log) = klog_mark
         then store_bytes 0 (load_unchecked mem (w_off log) (if count < 255 then count else 255)
                (buffer log)) klog
         else klog)"

text \<open>\<open>src\<close> are the bytes readable at the user's address.  Byte 255 of \<open>klog_buf\<close> is never anything
  but 0.\<close>

definition do_write_log_from_user ::
    "(nat \<Rightarrow> u8) \<Rightarrow> logger_log \<Rightarrow> u8 list \<Rightarrow> u8 list \<Rightarrow> nat \<Rightarrow> (errno + nat) \<times> logger_log \<times> u8 list" where
  "do_write_log_from_user mem log klog src count =
     (let n = min count (log_size log - w_off log);
          (bytes1, left1) = copy_from_user src n;
          log1 = log\<lparr>buffer := store_bytes (w_off log) bytes1 (buffer log)\<rparr>
      in if n \<noteq> 0 \<and> left1 \<noteq> 0 then (Inl EFAULT, log1, klog)
         else
          (let (bytes2, left2) = copy_from_user (drop n src) (count - n);
               log2 = (if count \<noteq> n then log1\<lparr>buffer := store_bytes 0 bytes2 (buffer log1)\<rparr> else log1)
           in if count \<noteq> n \<and> left2 \<noteq> 0 then (Inl EFAULT, log2, klog)
              else (Inr count,
                    log2\<lparr>w_off := logger_offset log (w_off log + count)\<rparr>,
                    klog_update mem log2 count)))"

text \<open>The segments of the vector, each with the length the caller claims and the bytes that are
  readable there; \<open>hlen\<close> is \<open>header.len\<close>, \<open>ret\<close> what has been written.\<close>

type_synonym iovec = "nat \<times> u8 list"

fun write_segments ::
    "(nat \<Rightarrow> u8) \<Rightarrow> nat \<Rightarrow> iovec list \<Rightarrow> nat \<Rightarrow> logger_log \<Rightarrow> u8 list \<Rightarrow> (errno + nat) \<times> logger_log \<times> u8 list" where
  "write_segments mem hlen [] ret log klog = (Inr ret, log, klog)"
| "write_segments mem hlen ((iov_len, src) # iov) ret log klog =
     (case do_write_log_from_user mem log klog src (min iov_len (hlen - ret)) of
        (Inl e, log', klog') \<Rightarrow> (Inl e, log', klog')
      | (Inr nr, log', klog') \<Rightarrow> write_segments mem hlen iov (ret + nr) log' klog')"

text \<open>\<open>logger_aio_write\<close>.  The write offset \<open>orig\<close> that a failing write goes back to is read
  before the mutex is taken, so it is an argument; without a concurrent writer it is
  \<open>w_off log\<close>.  \<open>hdr\<close> has the process, the time and the value of the uninitialised padding;
  \<open>ki_left\<close> is the length of the whole vector.\<close>

definition logger_aio_write ::
    "(nat \<Rightarrow> u8) \<Rightarrow> nat \<Rightarrow> logger_entry \<Rightarrow> nat \<Rightarrow> iovec list \<Rightarrow> logger_log \<Rightarrow> u8 list
      \<Rightarrow> (errno + nat) \<times> logger_log \<times> u8 list" where
  "logger_aio_write mem orig hdr ki_left iov log klog =
     (let header = hdr\<lparr>len := of_nat (min ki_left LOGGER_ENTRY_MAX_PAYLOAD)\<rparr> in
      if len header = 0 then (Inr 0, log, klog)
      else
       (let log1 = fix_up_readers log (sizeof_logger_entry + unat (len header));
            log2 = do_write_log log1 (entry_bytes header)
        in case write_segments mem (unat (len header)) iov 0 log2 klog of
             (Inl e, log3, klog') \<Rightarrow> (Inl e, log3\<lparr>w_off := orig\<rparr>, klog')
           | (Inr ret, log3, klog') \<Rightarrow> (Inr ret, log3, klog')))"

subsection \<open>The devices and their files\<close>

datatype log_id = log_main | log_events | log_radio | log_system

record logger =
  logs :: "log_id \<Rightarrow> logger_log"
  minors :: "log_id \<Rightarrow> int"
  klog_buf :: "u8 list"

text \<open>The private data of an open file: its reader object (which knows its log) when it is open
  for reading, otherwise the log.\<close>

datatype private_data = Reader_of log_id addr | Log_of log_id

record log_file =
  fmode_read :: bool
  fmode_write :: bool
  private_data :: private_data

definition file_get_log :: "log_file \<Rightarrow> log_id" where
  "file_get_log file = (case private_data file of Reader_of l _ \<Rightarrow> l | Log_of l \<Rightarrow> l)"

definition get_log_from_minor :: "logger \<Rightarrow> int \<Rightarrow> log_id option" where
  "get_log_from_minor g minor =
     (if minors g log_main = minor then Some log_main
      else if minors g log_events = minor then Some log_events
      else if minors g log_radio = minor then Some log_radio
      else if minors g log_system = minor then Some log_system
      else None)"

definition set_log :: "log_id \<Rightarrow> logger_log \<Rightarrow> logger \<Rightarrow> logger" where
  "set_log l log g = g\<lparr>logs := (logs g)(l := log)\<rparr>"

text \<open>\<open>mem\<close> is the outcome of the allocation of the reader object.\<close>

definition logger_open ::
    "int \<Rightarrow> bool \<Rightarrow> bool \<Rightarrow> addr option \<Rightarrow> logger \<Rightarrow> (errno + log_file) \<times> logger" where
  "logger_open minor rd wr mem g =
     (case get_log_from_minor g minor of
        None \<Rightarrow> (Inl ENODEV, g)
      | Some l \<Rightarrow>
          if rd then
            (case mem of
               None \<Rightarrow> (Inl ENOMEM, g)
             | Some a \<Rightarrow>
                (let log = logs g l
                 in (Inr \<lparr>fmode_read = rd, fmode_write = wr, private_data = Reader_of l a\<rparr>,
                     set_log l (log\<lparr>readers := readers log @ [\<lparr>reader_addr = a, r_off = head log\<rparr>]\<rparr>) g)))
          else (Inr \<lparr>fmode_read = rd, fmode_write = wr, private_data = Log_of l\<rparr>, g))"

definition logger_release :: "log_file \<Rightarrow> logger \<Rightarrow> logger" where
  "logger_release file g =
     (case private_data file of
        Reader_of l a \<Rightarrow>
          if fmode_read file
          then set_log l ((logs g l)\<lparr>readers := filter (\<lambda>r. reader_addr r \<noteq> a) (readers (logs g l))\<rparr>) g
          else g
      | Log_of l \<Rightarrow> g)"

text \<open>The reader object of a file.\<close>

definition file_reader :: "log_file \<Rightarrow> logger \<Rightarrow> logger_reader option" where
  "file_reader file g =
     (case private_data file of
        Reader_of l a \<Rightarrow> find (\<lambda>r. reader_addr r = a) (readers (logs g l))
      | Log_of _ \<Rightarrow> None)"

definition POLLOUT_MASK :: u32 where "POLLOUT_MASK = 0x4 OR 0x100"
definition POLLIN_MASK :: u32 where "POLLIN_MASK = 0x1 OR 0x40"

definition logger_poll :: "log_file \<Rightarrow> logger \<Rightarrow> u32" where
  "logger_poll file g =
     (if \<not> fmode_read file then POLLOUT_MASK
      else if w_off (logs g (file_get_log file)) \<noteq> r_off (the (file_reader file g))
      then POLLOUT_MASK OR POLLIN_MASK
      else POLLOUT_MASK)"

datatype logger_cmd =
    LOGGER_GET_LOG_BUF_SIZE
  | LOGGER_GET_LOG_LEN
  | LOGGER_GET_NEXT_ENTRY_LEN
  | LOGGER_FLUSH_LOG
  | LOGGER_OTHER

definition logger_ioctl :: "log_file \<Rightarrow> logger_cmd \<Rightarrow> logger \<Rightarrow> (errno + nat) \<times> logger" where
  "logger_ioctl file cmd g =
     (let l = file_get_log file;
          log = logs g l;
          reader = the (file_reader file g)
      in case cmd of
           LOGGER_GET_LOG_BUF_SIZE \<Rightarrow> (Inr (log_size log), g)
         | LOGGER_GET_LOG_LEN \<Rightarrow>
             if \<not> fmode_read file then (Inl EBADF, g)
             else if w_off log \<ge> r_off reader then (Inr (w_off log - r_off reader), g)
             else (Inr ((log_size log - r_off reader) + w_off log), g)
         | LOGGER_GET_NEXT_ENTRY_LEN \<Rightarrow>
             if \<not> fmode_read file then (Inl EBADF, g)
             else if w_off log \<noteq> r_off reader then (Inr (get_entry_len log (r_off reader)), g)
             else (Inr 0, g)
         | LOGGER_FLUSH_LOG \<Rightarrow>
             if \<not> fmode_write file then (Inl EBADF, g)
             else (Inr 0,
                   set_log l (log\<lparr>readers := map (\<lambda>r. r\<lparr>r_off := w_off log\<rparr>) (readers log),
                                  head := w_off log\<rparr>) g)
         | LOGGER_OTHER \<Rightarrow> (Inl ENOTTY, g))"

text \<open>The logs as \<open>DEFINE_LOGGER_DEVICE\<close> defines them; \<open>mn\<close> are the minor numbers that
  \<open>misc_register\<close> assigns.\<close>

definition logger_device :: "nat \<Rightarrow> logger_log" where
  "logger_device sz = \<lparr>buffer = replicate sz 0, readers = [], w_off = 0, head = 0, log_size = sz\<rparr>"

definition logger_device_size :: "log_id \<Rightarrow> nat" where
  "logger_device_size l = (if l = log_system then 64 * 1024 else 256 * 1024)"

definition logger_initial :: "(log_id \<Rightarrow> int) \<Rightarrow> logger" where
  "logger_initial mn =
     \<lparr>logs = (\<lambda>l. logger_device (logger_device_size l)), minors = mn, klog_buf = replicate 256 0\<rparr>"

definition init_log :: "(log_id \<Rightarrow> errno + int) \<Rightarrow> log_id \<Rightarrow> logger \<Rightarrow> (errno + nat) \<times> logger" where
  "init_log misc_register l g =
     (case misc_register l of
        Inl e \<Rightarrow> (Inl e, g)
      | Inr m \<Rightarrow> (Inr 0, g\<lparr>minors := (minors g)(l := m)\<rparr>))"

fun init_logs :: "(log_id \<Rightarrow> errno + int) \<Rightarrow> log_id list \<Rightarrow> logger \<Rightarrow> (errno + nat) \<times> logger" where
  "init_logs misc_register [] g = (Inr 0, g)"
| "init_logs misc_register (l # ls) g =
     (case init_log misc_register l g of
        (Inl e, g') \<Rightarrow> (Inl e, g')
      | (Inr _, g') \<Rightarrow> init_logs misc_register ls g')"

definition logger_init :: "(log_id \<Rightarrow> errno + int) \<Rightarrow> logger \<Rightarrow> (errno + nat) \<times> logger" where
  "logger_init misc_register g =
     init_logs misc_register [log_main, log_events, log_radio, log_system] g"

section \<open>The content of a log\<close>

text \<open>What a reader at an offset has still to read: the bytes of the ring from there, entry by
  entry, up to the write offset.\<close>

definition ring :: "logger_log \<Rightarrow> nat \<Rightarrow> nat \<Rightarrow> u8 list" where
  "ring log off n = map (\<lambda>i. buffer log ! ((off + i) mod log_size log)) [0..<n]"

definition entry_ok :: "u8 list \<Rightarrow> bool" where
  "entry_ok e \<longleftrightarrow> length e = sizeof_logger_entry + (unat (e ! 0) + 256 * unat (e ! 1))"

definition holds :: "logger_log \<Rightarrow> nat \<Rightarrow> u8 list list \<Rightarrow> bool" where
  "holds log off es \<longleftrightarrow>
     off < log_size log \<and> list_all entry_ok es \<and> length (concat es) < log_size log
   \<and> ring log off (length (concat es)) = concat es
   \<and> (off + length (concat es)) mod log_size log = w_off log"

fun entries_from :: "nat \<Rightarrow> logger_log \<Rightarrow> nat \<Rightarrow> u8 list list" where
  "entries_from 0 log off = []"
| "entries_from (Suc fuel) log off =
     (if off = w_off log then []
      else ring log off (get_entry_len log off)
           # entries_from fuel log (logger_offset log (off + get_entry_len log off)))"

definition entries :: "logger_log \<Rightarrow> nat \<Rightarrow> u8 list list" where
  "entries log off = entries_from (log_size log) log off"

definition log_geometry :: "logger_log \<Rightarrow> bool" where
  "log_geometry log \<longleftrightarrow>
     (\<exists>k. log_size log = 2 ^ k) \<and> 2 * LOGGER_ENTRY_MAX_LEN \<le> log_size log
   \<and> length (buffer log) = log_size log \<and> w_off log < log_size log"

definition log_ok :: "logger_log \<Rightarrow> bool" where
  "log_ok log \<longleftrightarrow> log_geometry log \<and> (\<exists>es. holds log (head log) es)
     \<and> (\<forall>r\<in>set (readers log). \<exists>es. holds log (r_off r) es)
     \<and> distinct (map reader_addr (readers log))"

subsection \<open>Walking over entries\<close>

lemma log_geometryD:
  assumes "log_geometry log"
  shows "8192 \<le> log_size log" "length (buffer log) = log_size log" "w_off log < log_size log"
    "logger_offset log n = n mod log_size log"
proof -
  obtain k where k: "log_size log = 2 ^ k" using assms by (auto simp: log_geometry_def)
  show "logger_offset log n = n mod log_size log"
    unfolding logger_offset_def k using take_bit_eq_mask [of k n] mask_eq_exp_minus_1 [of k, where ?'a = nat]
    by (simp add: take_bit_eq_mod)
qed (use assms in \<open>auto simp: log_geometry_def logger_consts\<close>)

lemma ring_step_neq: "off < sz \<Longrightarrow> 0 < n \<Longrightarrow> n < sz \<Longrightarrow> (off + n) mod sz \<noteq> (off::nat)"
  by (cases "off + n < sz") (auto simp: mod_if)

lemma length_ring [simp]: "length (ring log off n) = n"
  by (simp add: ring_def)

lemma nth_ring: "i < n \<Longrightarrow> ring log off n ! i = buffer log ! ((off + i) mod log_size log)"
  by (simp add: ring_def)

lemma ring_append:
  "ring log off (m + n) = ring log off m @ ring log ((off + m) mod log_size log) n"
proof (rule nth_equalityI)
  fix i assume "i < length (ring log off (m + n))"
  then have i: "i < m + n" by simp
  show "ring log off (m + n) ! i = (ring log off m @ ring log ((off + m) mod log_size log) n) ! i"
  proof (cases "i < m")
    case False
    then have "((off + m) mod log_size log + (i - m)) mod log_size log = (off + i) mod log_size log"
      by (subst mod_add_left_eq) simp
    with False i show ?thesis by (simp add: nth_append nth_ring)
  qed (use i in \<open>simp add: nth_append nth_ring\<close>)
qed simp

lemma get_entry_len_ring:
  assumes "log_geometry log" "off < log_size log"
  shows "get_entry_len log off =
    sizeof_logger_entry + (unat (ring log off 2 ! 0) + 256 * unat (ring log off 2 ! 1))"
proof -
  note G = log_geometryD [OF assms(1)]
  have "(if log_size log - off = 1 then load_bytes off 1 (buffer log) @ load_bytes 0 1 (buffer log)
      else load_bytes off 2 (buffer log)) = ring log off 2"
  proof (rule nth_equalityI)
    fix i assume "i < length (if log_size log - off = 1
      then load_bytes off 1 (buffer log) @ load_bytes 0 1 (buffer log) else load_bytes off 2 (buffer log))"
    then have "i = 0 \<or> i = 1" using G(1,2) assms(2) by (auto simp: load_bytes_def split: if_splits)
    then show "(if log_size log - off = 1 then load_bytes off 1 (buffer log) @ load_bytes 0 1 (buffer log)
      else load_bytes off 2 (buffer log)) ! i = ring log off 2 ! i"
    proof
      assume "i = 1"
      moreover have "Suc off mod log_size log = (if log_size log - off = 1 then 0 else Suc off)"
        using assms(2) by (auto simp: mod_Suc)
      ultimately show ?thesis using G(1,2) assms(2) by (simp add: load_bytes_def nth_ring nth_append)
    qed (use G(1,2) assms(2) in \<open>simp add: load_bytes_def nth_ring nth_append\<close>)
  qed (use G(1,2) assms(2) in \<open>auto simp: load_bytes_def\<close>)
  then show ?thesis by (simp add: get_entry_len_def Let_def)
qed

lemma holds_Nil: "log_geometry log \<Longrightarrow> off < log_size log \<Longrightarrow> holds log off [] \<longleftrightarrow> off = w_off log"
  using log_geometryD(1) [of log] by (auto simp: holds_def ring_def)

lemma holds_Cons:
  assumes geo: "log_geometry log" and h: "holds log off (e # es)"
  shows "get_entry_len log off = length e" "ring log off (length e) = e" "20 \<le> length e"
    "holds log ((off + length e) mod log_size log) es" "off \<noteq> w_off log"
proof -
  let ?L = "length (concat es)" and ?off = "(off + length e) mod log_size log"
  have off: "off < log_size log" and ok: "entry_ok e" "list_all entry_ok es" and len: "length e + ?L < log_size log"
    and rg: "ring log off (length e + ?L) = e @ concat es" and w: "(off + (length e + ?L)) mod log_size log = w_off log"
    using h by (auto simp: holds_def)
  show r: "ring log off (length e) = e" using rg by (simp add: ring_append)
  show l20: "20 \<le> length e" using ok(1) by (simp add: entry_ok_def sizeof_logger_entry_def)
  have "ring log off 2 = take 2 e"
  proof -
    have "2 + (length e - 2) = length e" using l20 by simp
    then have "ring log off (2 + (length e - 2)) = e" using r by presburger
    then show ?thesis unfolding ring_append by (metis length_ring append_eq_conv_conj)
  qed
  then show "get_entry_len log off = length e"
    using get_entry_len_ring [OF geo off] ok(1) by (simp add: entry_ok_def)
  show "holds log ?off es"
    using off ok len rg w by (auto simp: holds_def ring_append mod_add_left_eq add.assoc)
  show "off \<noteq> w_off log"
    using ring_step_neq [OF off _ len] w l20 by fastforce
qed

lemma entries_from_holds:
  assumes "log_geometry log"
  shows "holds log off es \<Longrightarrow> length es \<le> fuel \<Longrightarrow> entries_from fuel log off = es"
proof (induction es arbitrary: off fuel)
  case Nil
  then have "off < log_size log" by (simp add: holds_def)
  with Nil(1) have "off = w_off log" using holds_Nil [OF assms] by blast
  then show ?case by (cases fuel) simp_all
next
  case (Cons e es)
  note C = holds_Cons [OF assms Cons.prems(1)]
  obtain f where f: "fuel = Suc f" "length es \<le> f" using Cons.prems(2) by (cases fuel) auto
  show ?case using C Cons.IH [OF C(4) f(2)] f(1) by (simp add: log_geometryD(4) [OF assms])
qed

lemma holds_length: "log_geometry log \<Longrightarrow> holds log off es \<Longrightarrow> length es \<le> length (concat es)"
proof (induction es arbitrary: off)
  case (Cons e es)
  note C = holds_Cons [OF Cons.prems]
  show ?case using C(3) Cons.IH [OF Cons.prems(1) C(4)] by simp
qed simp

text \<open>The entries are determined by the log: \<open>entries\<close> computes them.\<close>

lemma entries_holds:
  assumes "log_geometry log" "holds log off es"
  shows "entries log off = es"
proof -
  have "length es \<le> log_size log" using holds_length [OF assms] assms(2) by (simp add: holds_def)
  then show ?thesis unfolding entries_def using entries_from_holds [OF assms] by simp
qed

text \<open>\<open>get_next_entry\<close> skips entries until \<open>n\<close> bytes are gone.\<close>

fun drop_bytes :: "nat \<Rightarrow> u8 list list \<Rightarrow> u8 list list" where
  "drop_bytes n [] = []"
| "drop_bytes n (e # es) = (if length e < n then drop_bytes (n - length e) es else es)"

lemma length_drop_bytes: "n \<le> length (concat es) \<Longrightarrow> n + length (concat (drop_bytes n es)) \<le> length (concat es)"
proof (induction n es rule: drop_bytes.induct)
  case (2 n e es)
  show ?case
  proof (cases "length e < n")
    case True
    then have "n - length e + length (concat (drop_bytes (n - length e) es)) \<le> length (concat es)"
      using 2 by (intro "2.IH") auto
    with True show ?thesis by simp
  qed simp
qed simp

lemma get_next_entry_loop_holds:
  assumes geo: "log_geometry log"
  shows "holds log off es \<Longrightarrow> count < n \<Longrightarrow> n - count \<le> length (concat es) \<Longrightarrow>
    holds log (get_next_entry_loop log off n count) (drop_bytes (n - count) es)"
proof (induction es arbitrary: off count)
  case (Cons e es)
  note C = holds_Cons [OF geo Cons.prems(1)]
  let ?off = "(off + length e) mod log_size log"
  have step: "get_next_entry_loop log off n count =
      (if count + length e < n then get_next_entry_loop log ?off n (count + length e) else ?off)"
    by (subst get_next_entry_loop.simps) (simp add: C(1) log_geometryD(4) [OF geo] Let_def)
  show ?case
  proof (cases "count + length e < n")
    case True
    then have "holds log (get_next_entry_loop log ?off n (count + length e)) (drop_bytes (n - (count + length e)) es)"
      using Cons.prems(3) by (intro Cons.IH [OF C(4)]) auto
    moreover have "drop_bytes (n - count) (e # es) = drop_bytes (n - (count + length e)) es"
      using True by (auto simp: less_diff_conv2 add.commute)
    ultimately show ?thesis using True unfolding step by simp
  next
    case False
    then have "drop_bytes (n - count) (e # es) = es" by auto
    with False C(4) show ?thesis unfolding step by simp
  qed
qed simp

text \<open>The interval test of \<open>fix_up_readers\<close> finds exactly the offsets whose content does not fit
  next to the new entry.\<close>

lemma clock_interval_lapped:
  assumes w: "w < sz" and off: "off < sz" and L: "L < sz" "(off + L) mod sz = w" and n: "n < sz"
  shows "clock_interval w ((w + n) mod sz) off \<longleftrightarrow> sz \<le> L + n"
proof -
  have new: "(w + n) mod sz = (if w + n < sz then w + n else w + n - sz)"
    using w n by (simp add: mod_if)
  have "off + L = w \<or> off + L = w + sz"
  proof (cases "off + L < sz")
    case False
    then have "(off + L) mod sz = off + L - sz" using off L(1) by (simp add: mod_if)
    with L(2) False show ?thesis by auto
  qed (use L in simp)
  then show ?thesis unfolding clock_interval_def new using assms by auto
qed

subsection \<open>Writing bytes\<close>

text \<open>The distance of a position from the write offset, going forward around the ring.\<close>

definition ring_dist :: "nat \<Rightarrow> nat \<Rightarrow> nat \<Rightarrow> nat" where
  "ring_dist sz w p = (if w \<le> p then p - w else p + sz - w)"

lemma ring_mod: "(off::nat) < sz \<Longrightarrow> n \<le> sz \<Longrightarrow> (off + n) mod sz = (if off + n < sz then off + n else off + n - sz)"
  by (auto simp: mod_if)

lemma ring_dist_before:
  assumes "off < sz" "L < sz" "(off + L) mod sz = w" "i < L"
  shows "ring_dist sz w ((off + i) mod sz) = sz - L + i"
  using assms by (auto simp: ring_mod ring_dist_def split: if_splits)

lemma ring_dist_after: "w < sz \<Longrightarrow> i < sz \<Longrightarrow> ring_dist sz w ((w + i) mod sz) = i"
  by (auto simp: ring_mod ring_dist_def split: if_splits)

lemma ring_dist_step:
  assumes "w < sz" "m \<le> sz" "p < sz"
  shows "ring_dist sz ((w + m) mod sz) p =
    (if m \<le> ring_dist sz w p then ring_dist sz w p - m else ring_dist sz w p + sz - m)"
  using assms by (auto simp: ring_mod ring_dist_def split: if_splits)

text \<open>\<open>written log0 bs log\<close>: \<open>log\<close> is \<open>log0\<close> after the bytes \<open>bs\<close> were written;
  \<open>agree_outside log0 m log\<close>: at most the \<open>m\<close> bytes from the write offset on differ.\<close>

definition written :: "logger_log \<Rightarrow> u8 list \<Rightarrow> logger_log \<Rightarrow> bool" where
  "written log0 bs log \<longleftrightarrow>
     log_size log = log_size log0 \<and> head log = head log0 \<and> readers log = readers log0
   \<and> w_off log = (w_off log0 + length bs) mod log_size log0
   \<and> length (buffer log) = log_size log0
   \<and> (\<forall>p<log_size log0. buffer log ! p =
        (if ring_dist (log_size log0) (w_off log0) p < length bs
         then bs ! ring_dist (log_size log0) (w_off log0) p else buffer log0 ! p))"

definition agree_outside :: "logger_log \<Rightarrow> nat \<Rightarrow> logger_log \<Rightarrow> bool" where
  "agree_outside log0 m log \<longleftrightarrow>
     log_size log = log_size log0 \<and> head log = head log0 \<and> readers log = readers log0
   \<and> length (buffer log) = log_size log0
   \<and> (\<forall>p<log_size log0. m \<le> ring_dist (log_size log0) (w_off log0) p \<longrightarrow> buffer log ! p = buffer log0 ! p)"

lemma written_sizes:
  "written log0 bs log \<Longrightarrow> log_size log = log_size log0"
  "written log0 bs log \<Longrightarrow> w_off log = (w_off log0 + length bs) mod log_size log0"
  "written log0 bs log \<Longrightarrow> head log = head log0"
  "written log0 bs log \<Longrightarrow> readers log = readers log0"
  by (simp_all add: written_def)

lemma written_geometry:
  assumes "log_geometry log0" "written log0 bs log"
  shows "log_geometry log"
proof -
  have "w_off log < log_size log0" unfolding written_sizes(2) [OF assms(2)] using log_geometryD(1) [OF assms(1)] by simp
  moreover have "length (buffer log) = log_size log0" using assms(2) by (simp add: written_def)
  ultimately show ?thesis using assms(1) unfolding log_geometry_def written_sizes(1) [OF assms(2)] by blast
qed

lemma nth_store_bytes:
  assumes "off + length bs \<le> length buf" "p < length buf"
  shows "store_bytes off bs buf ! p = (if off \<le> p \<and> p < off + length bs then bs ! (p - off) else buf ! p)"
  using assms by (auto simp: store_bytes_def nth_append min_def)

lemma length_store_bytes [simp]: "off + length bs \<le> length buf \<Longrightarrow> length (store_bytes off bs buf) = length buf"
  by (simp add: store_bytes_def)

text \<open>Two stores, up to the end of the buffer and from its start.\<close>

definition ring_store :: "nat \<Rightarrow> u8 list \<Rightarrow> u8 list \<Rightarrow> u8 list" where
  "ring_store w bs buf =
     (let n = min (length bs) (length buf - w)
      in store_bytes 0 (drop n bs) (store_bytes w (take n bs) buf))"

lemma length_ring_store [simp]: "w \<le> length buf \<Longrightarrow> length bs \<le> length buf \<Longrightarrow> length (ring_store w bs buf) = length buf"
  by (simp add: ring_store_def Let_def min_def)

lemma nth_ring_store:
  assumes "w < length buf" "length bs \<le> length buf" "p < length buf"
  shows "ring_store w bs buf ! p =
    (if ring_dist (length buf) w p < length bs then bs ! ring_dist (length buf) w p else buf ! p)"
proof (cases "length bs \<le> length buf - w")
  case True
  then have "ring_store w bs buf = store_bytes w bs buf"
    by (simp add: ring_store_def store_bytes_def Let_def min_def)
  with True assms show ?thesis by (auto simp: nth_store_bytes ring_dist_def)
next
  case False
  let ?n = "length buf - w"
  have n: "min (length bs) (length buf - w) = ?n" using False by simp
  have l1: "length (take ?n bs) = ?n" using False by simp
  have s1: "store_bytes w (take ?n bs) buf ! p = (if w \<le> p then bs ! (p - w) else buf ! p)"
    using assms False by (auto simp: nth_store_bytes l1)
  have s2: "ring_store w bs buf ! p =
      (if p < length bs - ?n then bs ! (?n + p) else store_bytes w (take ?n bs) buf ! p)"
    unfolding ring_store_def Let_def n using assms False by (subst nth_store_bytes) (auto simp: l1)
  show ?thesis unfolding s2 s1 using assms False by (auto simp: ring_dist_def add.commute)
qed

lemma do_write_log_ring_store:
  assumes "log_geometry log"
  shows "do_write_log log bs =
    log\<lparr>buffer := ring_store (w_off log) bs (buffer log), w_off := (w_off log + length bs) mod log_size log\<rparr>"
proof -
  have "store_bytes 0 [] buf = buf" for buf by (simp add: store_bytes_def)
  then show ?thesis
    unfolding do_write_log_def ring_store_def Let_def log_geometryD(2,4) [OF assms]
    by (cases "length bs = min (length bs) (log_size log - w_off log)") simp_all
qed

lemma ring_store_written:
  assumes "log_geometry log" "length bs \<le> log_size log"
  shows "written log bs (log\<lparr>buffer := ring_store (w_off log) bs (buffer log),
    w_off := (w_off log + length bs) mod log_size log\<rparr>)"
  using log_geometryD(2,3) [OF assms(1)] assms(2) by (simp add: written_def nth_ring_store)

lemma written_trans:
  assumes "log_geometry log0" "written log0 xs log1" "written log1 ys log2"
    and "length xs + length ys \<le> log_size log0"
  shows "written log0 (xs @ ys) log2"
proof -
  let ?sz = "log_size log0" and ?w = "w_off log0"
  note S = written_sizes [OF assms(2)] and T = written_sizes [OF assms(3)]
  have w: "?w < ?sz" using log_geometryD(3) [OF assms(1)] .
  have "buffer log2 ! p = (if ring_dist ?sz ?w p < length (xs @ ys)
      then (xs @ ys) ! ring_dist ?sz ?w p else buffer log0 ! p)" if p: "p < ?sz" for p
  proof -
    let ?d = "ring_dist ?sz ?w p" and ?e = "ring_dist ?sz (w_off log1) p"
    have e: "?e = (if length xs \<le> ?d then ?d - length xs else ?d + ?sz - length xs)"
      unfolding S(2) using ring_dist_step [OF w _ p] assms(4) by simp
    have b2: "buffer log2 ! p = (if ?e < length ys then ys ! ?e else buffer log1 ! p)"
      using assms(3) p S(1) by (simp add: written_def)
    have b1: "buffer log1 ! p = (if ?d < length xs then xs ! ?d else buffer log0 ! p)"
      using assms(2) p by (simp add: written_def)
    show ?thesis unfolding b2 b1 e using assms(4) by (auto simp: nth_append)
  qed
  moreover have "w_off log2 = (?w + length (xs @ ys)) mod ?sz"
    unfolding T(2) S by (simp add: mod_add_left_eq add.assoc)
  moreover have "length (buffer log2) = ?sz" using assms(3) S(1) by (simp add: written_def)
  ultimately show ?thesis unfolding written_def T(1,3,4) S(1,3,4) by blast
qed

lemma written_agree: "written log0 bs log \<Longrightarrow> length bs \<le> m \<Longrightarrow> agree_outside log0 m log"
  by (auto simp: written_def agree_outside_def)

lemma agree_holds:
  assumes geo: "log_geometry log0" and h: "holds log0 off es" and a: "agree_outside log0 m log"
    and fit: "length (concat es) + m \<le> log_size log0"
  shows "off < log_size log" "ring log off (length (concat es)) = concat es"
proof -
  let ?L = "length (concat es)" and ?sz = "log_size log0"
  have H: "off < ?sz" "?L < ?sz" "ring log0 off ?L = concat es" "(off + ?L) mod ?sz = w_off log0"
    using h by (auto simp: holds_def)
  have sz: "log_size log = ?sz" using a by (simp add: agree_outside_def)
  with H(1) show "off < log_size log" by simp
  have "ring log off ?L = ring log0 off ?L"
  proof (rule nth_equalityI)
    fix i assume "i < length (ring log off ?L)"
    then have i: "i < ?L" by simp
    have "ring_dist ?sz (w_off log0) ((off + i) mod ?sz) = ?sz - ?L + i"
      by (rule ring_dist_before [OF H(1,2,4) i])
    moreover have "(off + i) mod ?sz < ?sz" using H(1) by (intro mod_less_divisor) simp
    ultimately show "ring log off ?L ! i = ring log0 off ?L ! i"
      using a fit i by (simp add: nth_ring sz agree_outside_def)
  qed simp
  with H(3) show "ring log off ?L = concat es" by simp
qed

text \<open>Content that fits next to what is written stays, and a complete entry is appended to it.\<close>

lemma holds_agree:
  assumes "log_geometry log0" "holds log0 off es" "agree_outside log0 m log"
    "length (concat es) + m \<le> log_size log0" "w_off log = w_off log0"
  shows "holds log off es"
  using agree_holds [OF assms(1-4)] assms by (simp add: holds_def agree_outside_def)

lemma holds_written:
  assumes geo: "log_geometry log0" and h: "holds log0 off es" and w: "written log0 e log"
    and e: "entry_ok e" and fit: "length (concat es) + length e < log_size log0"
  shows "holds log off (es @ [e])"
proof -
  let ?L = "length (concat es)" and ?sz = "log_size log0" and ?w = "w_off log0"
  note S = written_sizes [OF w]
  have H: "(off + ?L) mod ?sz = ?w" "list_all entry_ok es" using h by (auto simp: holds_def)
  have old: "off < log_size log" "ring log off ?L = concat es"
    using agree_holds [OF geo h written_agree [OF w order_refl]] fit by auto
  have "ring log ?w (length e) = e"
  proof (rule nth_equalityI)
    fix i assume "i < length (ring log ?w (length e))"
    then have i: "i < length e" "i < ?sz" using fit by auto
    moreover have "?w < ?sz" "(?w + i) mod ?sz < ?sz" using log_geometryD(1,3) [OF geo] by auto
    ultimately show "ring log ?w (length e) ! i = e ! i"
      using w ring_dist_after [of ?w ?sz i] by (simp add: nth_ring S(1) written_def)
  qed simp
  then have "ring log off (length (concat (es @ [e]))) = concat (es @ [e])"
    using old(2) H(1) by (simp add: ring_append S(1))
  moreover have "(off + length (concat (es @ [e]))) mod ?sz = (?w + length e) mod ?sz"
    unfolding H(1) [symmetric] by (simp add: mod_add_left_eq add.assoc)
  ultimately show ?thesis using old(1) H(2) e fit by (simp add: holds_def S)
qed

subsection \<open>Payload from user space\<close>

lemma write_user_ok:
  assumes "log_geometry log" "count \<le> log_size log" "count \<le> length src"
  shows "\<exists>log' klog'. do_write_log_from_user mem log klog src count = (Inr count, log', klog')
     \<and> written log (take count src) log'"
proof -
  let ?n = "min count (log_size log - w_off log)"
  let ?log = "log\<lparr>buffer := ring_store (w_off log) (take count src) (buffer log),
    w_off := (w_off log + length (take count src)) mod log_size log\<rparr>"
  note G = log_geometryD [OF assms(1)]
  have c1: "copy_from_user src ?n = (take ?n src, 0)" "copy_from_user (drop ?n src) (count - ?n) = (take (count - ?n) (drop ?n src), 0)"
    using assms(3) by (simp_all add: copy_from_user_ok)
  have e: "store_bytes 0 [] buf = buf" for buf by (simp add: store_bytes_def)
  have "\<exists>klog'. do_write_log_from_user mem log klog src count = (Inr count, ?log, klog')"
  proof (cases "count \<le> log_size log - w_off log")
    case True
    then have "?n = count" by simp
    then show ?thesis
      using assms(3) e c1 by (simp add: do_write_log_from_user_def Let_def ring_store_def G(2,4))
  next
    case False
    then have "?n = log_size log - w_off log" "count \<noteq> log_size log - w_off log" by simp_all
    then show ?thesis
      using assms(3) e c1 by (simp add: do_write_log_from_user_def Let_def ring_store_def G(2,4) drop_take)
  qed
  moreover have "written log (take count src) ?log"
    by (rule ring_store_written [OF assms(1)]) (use assms in simp)
  ultimately show ?thesis by blast
qed

lemma write_user_fault:
  assumes "log_geometry log" "count \<le> log_size log" "length src < count"
  shows "\<exists>log' klog'. do_write_log_from_user mem log klog src count = (Inl EFAULT, log', klog')
     \<and> agree_outside log count log'"
proof -
  let ?n = "min count (log_size log - w_off log)" and ?sz = "log_size log"
  note G = log_geometryD [OF assms(1)]
  have cu: "\<exists>b l. copy_from_user xs k = (b, l) \<and> length b = k \<and> l = k - length xs" for xs :: "u8 list" and k
    by (simp add: copy_from_user_def)
  obtain b1 l1 where c1: "copy_from_user src ?n = (b1, l1)" "length b1 = ?n" "l1 = ?n - length src"
    using cu by blast
  obtain b2 l2 where c2: "copy_from_user (drop ?n src) (count - ?n) = (b2, l2)" "length b2 = count - ?n"
      "l2 = (count - ?n) - length (drop ?n src)"
    using cu by blast
  let ?B1 = "store_bytes (w_off log) b1 (buffer log)" and ?B2 = "store_bytes 0 b2 (store_bytes (w_off log) b1 (buffer log))"
  have L: "length ?B1 = ?sz" using G(2,3) c1(2) by simp
  have n1: "?B1 ! p = buffer log ! p" if "p < ?sz" "count \<le> ring_dist ?sz (w_off log) p" for p
    using that G(2,3) c1(2) by (subst nth_store_bytes) (auto simp: ring_dist_def split: if_splits)
  have n2: "?B2 ! p = buffer log ! p" if p: "p < ?sz" "count \<le> ring_dist ?sz (w_off log) p" and "?n \<noteq> count" for p
    using n1 [OF p] p that(3) G(3) c2(2) L assms(2)
    by (subst nth_store_bytes) (auto simp: ring_dist_def min_def split: if_splits)
  have a1: "agree_outside log count (log\<lparr>buffer := ?B1\<rparr>)" using L n1 by (simp add: agree_outside_def)
  have a2: "agree_outside log count (log\<lparr>buffer := ?B2\<rparr>)" if "count \<noteq> ?n"
    using L n2 that c2(2) assms(2) G(3) by (auto simp: agree_outside_def min_def split: if_splits)
  show ?thesis
    using a1 a2 assms(3) c1(3) c2(3)
    by (auto simp: do_write_log_from_user_def Let_def c1(1) c2(1))
qed

text \<open>Whether all the bytes of the segments that are needed can be read, and these bytes.\<close>

fun segs_ok :: "nat \<Rightarrow> nat \<Rightarrow> iovec list \<Rightarrow> bool" where
  "segs_ok hlen ret [] \<longleftrightarrow> True"
| "segs_ok hlen ret ((n, src) # iov) \<longleftrightarrow>
     min n (hlen - ret) \<le> length src \<and> segs_ok hlen (ret + min n (hlen - ret)) iov"

fun segs_bytes :: "nat \<Rightarrow> nat \<Rightarrow> iovec list \<Rightarrow> u8 list" where
  "segs_bytes hlen ret [] = []"
| "segs_bytes hlen ret ((n, src) # iov) =
     take (min n (hlen - ret)) src @ segs_bytes hlen (ret + min n (hlen - ret)) iov"

lemma length_segs_bytes:
  "segs_ok hlen ret iov \<Longrightarrow> length (segs_bytes hlen ret iov) = min (hlen - ret) (\<Sum>(n, src)\<leftarrow>iov. n)"
  by (induction hlen ret iov rule: segs_ok.induct) (auto simp: min_def)

text \<open>If every segment has all its bytes, these are the first \<open>hlen\<close> bytes of the vector.\<close>

lemma segs_bytes_concat:
  assumes "\<forall>(n, src)\<in>set iov. n \<le> length src"
  shows "segs_ok hlen ret iov" "segs_bytes hlen ret iov = take (hlen - ret) (concat (map (\<lambda>(n, src). take n src) iov))"
  using assms by (induction hlen ret iov rule: segs_ok.induct) (auto simp: min_def take_append)

lemma written_agree_trans:
  assumes "log_geometry log0" "written log0 bs log1" "agree_outside log1 m log2"
    and "length bs + m \<le> k" "k \<le> log_size log0"
  shows "agree_outside log0 k log2"
proof -
  let ?sz = "log_size log0" and ?w = "w_off log0"
  note S = written_sizes [OF assms(2)]
  have w: "?w < ?sz" using log_geometryD(3) [OF assms(1)] .
  have "buffer log2 ! p = buffer log0 ! p" if p: "p < ?sz" "k \<le> ring_dist ?sz ?w p" for p
  proof -
    have "ring_dist ?sz (w_off log1) p = ring_dist ?sz ?w p - length bs"
      unfolding S(2) using ring_dist_step [OF w _ p(1), of "length bs"] assms(4,5) p(2) by simp
    then have "buffer log2 ! p = buffer log1 ! p"
      using assms(3,4) p by (simp add: agree_outside_def S(1))
    also have "\<dots> = buffer log0 ! p" using assms(2,4) p by (simp add: written_def)
    finally show ?thesis .
  qed
  then show ?thesis using assms(3) S by (simp add: agree_outside_def)
qed

lemma write_segments_result:
  assumes "log_geometry log0" "written log0 bs log" "ret \<le> hlen" "length bs + (hlen - ret) \<le> k" "k \<le> log_size log0"
  shows "\<exists>log' klog'. if segs_ok hlen ret iov
     then write_segments mem hlen iov ret log klog = (Inr (ret + length (segs_bytes hlen ret iov)), log', klog')
        \<and> written log0 (bs @ segs_bytes hlen ret iov) log'
     else write_segments mem hlen iov ret log klog = (Inl EFAULT, log', klog') \<and> agree_outside log0 k log'"
  using assms(2-)
proof (induction iov arbitrary: ret bs log klog)
  case Nil
  then show ?case by simp
next
  case (Cons seg iov)
  obtain n src where seg: "seg = (n, src)" by fastforce
  define c where "c = min n (hlen - ret)"
  have geo: "log_geometry log" and sz: "log_size log = log_size log0"
    using written_geometry [OF assms(1) Cons.prems(1)] written_sizes(1) [OF Cons.prems(1)] .
  have le: "c \<le> log_size log" "length bs + c \<le> k" "length bs + c \<le> log_size log0"
    using Cons.prems sz by (auto simp: c_def)
  show ?case
  proof (cases "c \<le> length src")
    case True
    then obtain log1 klog1 where u: "do_write_log_from_user mem log klog src c = (Inr c, log1, klog1)"
        "written log (take c src) log1"
      using write_user_ok [OF geo le(1) True] by blast
    have "written log0 (bs @ take c src) log1"
      by (rule written_trans [OF assms(1) Cons.prems(1) u(2)]) (use True le(3) in auto)
    moreover have "ret + c \<le> hlen" "length (bs @ take c src) + (hlen - (ret + c)) \<le> k"
      using Cons.prems True by (auto simp: c_def)
    ultimately obtain log' klog' where "if segs_ok hlen (ret + c) iov
      then write_segments mem hlen iov (ret + c) log1 klog1 =
            (Inr (ret + c + length (segs_bytes hlen (ret + c) iov)), log', klog')
        \<and> written log0 ((bs @ take c src) @ segs_bytes hlen (ret + c) iov) log'
      else write_segments mem hlen iov (ret + c) log1 klog1 = (Inl EFAULT, log', klog') \<and> agree_outside log0 k log'"
      using Cons.IH [of "bs @ take c src" log1 "ret + c" klog1] Cons.prems(4) by blast
    with True u(1) show ?thesis
      unfolding seg
      by (intro exI [of _ log'] exI [of _ klog']) (simp add: add.assoc c_def [symmetric] split: if_splits)
  next
    case False
    then have "length src < c" by simp
    then obtain log1 klog1 where u: "do_write_log_from_user mem log klog src c = (Inl EFAULT, log1, klog1)"
        "agree_outside log c log1"
      using write_user_fault [OF geo le(1)] by blast
    have "agree_outside log0 k log1"
      by (rule written_agree_trans [OF assms(1) Cons.prems(1) u(2) le(2) Cons.prems(4)])
    with False u(1) show ?thesis unfolding seg by (simp add: c_def [symmetric])
  qed
qed

subsection \<open>Pulling readers forward\<close>

definition trim :: "nat \<Rightarrow> nat \<Rightarrow> u8 list list \<Rightarrow> u8 list list" where
  "trim sz n es = (if sz \<le> length (concat es) + n then drop_bytes n es else es)"

definition fix_off :: "logger_log \<Rightarrow> nat \<Rightarrow> nat \<Rightarrow> nat" where
  "fix_off log n off =
     (if clock_interval (w_off log) (logger_offset log (w_off log + n)) off then get_next_entry log off n else off)"

lemma fix_up_readers_fix_off:
  "fix_up_readers log n = log\<lparr>head := fix_off log n (head log),
     readers := map (\<lambda>r. r\<lparr>r_off := fix_off log n (r_off r)\<rparr>) (readers log)\<rparr>"
  by (simp add: fix_up_readers_def fix_off_def Let_def)

lemma fix_off_holds:
  assumes geo: "log_geometry log" and h: "holds log off es" and n: "0 < n" "n \<le> LOGGER_ENTRY_MAX_LEN"
  shows "holds log (fix_off log n off) (trim (log_size log) n es)"
    "length (concat (trim (log_size log) n es)) + n < log_size log"
proof -
  let ?sz = "log_size log" and ?L = "length (concat es)"
  have H: "off < ?sz" "?L < ?sz" "(off + ?L) mod ?sz = w_off log" using h by (auto simp: holds_def)
  have n2: "2 * n \<le> ?sz" "n < ?sz" using n geo by (auto simp: log_geometry_def logger_consts)
  have iff: "clock_interval (w_off log) (logger_offset log (w_off log + n)) off \<longleftrightarrow> ?sz \<le> ?L + n"
    unfolding log_geometryD(4) [OF geo]
    by (rule clock_interval_lapped [OF log_geometryD(3) [OF geo] H n2(2)])
  show "holds log (fix_off log n off) (trim ?sz n es)"
  proof (cases "?sz \<le> ?L + n")
    case True
    then have "n - 0 \<le> ?L" using n2 by simp
    then have "holds log (get_next_entry log off n) (drop_bytes (n - 0) es)"
      unfolding get_next_entry_def by (intro get_next_entry_loop_holds [OF geo h]) (use n in auto)
    with True iff show ?thesis by (simp add: fix_off_def trim_def)
  qed (use h iff in \<open>simp add: fix_off_def trim_def\<close>)
  show "length (concat (trim ?sz n es)) + n < ?sz"
    using length_drop_bytes [of n es] H(2) n2 by (auto simp: trim_def)
qed

section \<open>The log as a queue of entries\<close>

text \<open>The abstract state: the entries a new reader would get, and for each reader the entries it
  has not read yet.\<close>

type_synonym log_queue = "u8 list list \<times> (addr \<times> u8 list list) list"

definition logger_abs :: "logger_log \<Rightarrow> log_queue" where
  "logger_abs log =
     (entries log (head log), map (\<lambda>r. (reader_addr r, entries log (r_off r))) (readers log))"

definition queue_map :: "(u8 list list \<Rightarrow> u8 list list) \<Rightarrow> log_queue \<Rightarrow> log_queue" where
  "queue_map f q = (f (fst q), map (\<lambda>(a, es). (a, f es)) (snd q))"

lemma log_okD:
  assumes "log_ok log"
  shows "log_geometry log" "holds log (head log) (entries log (head log))"
    "r \<in> set (readers log) \<Longrightarrow> holds log (r_off r) (entries log (r_off r))"
    "distinct (map reader_addr (readers log))"
proof -
  show geo: "log_geometry log" and "distinct (map reader_addr (readers log))"
    using assms by (simp_all add: log_ok_def)
  have e: "holds log off (entries log off)" if "\<exists>es. holds log off es" for off
    using that entries_holds [OF geo] by auto
  show "holds log (head log) (entries log (head log))"
    "r \<in> set (readers log) \<Longrightarrow> holds log (r_off r) (entries log (r_off r))"
    using assms by (auto simp: log_ok_def intro!: e)
qed

text \<open>A log whose offsets are those of \<open>log\<close> after a function on the contents.\<close>

lemma log_abs_map:
  assumes ok: "log_ok log" and geo: "log_geometry log'"
    and hd: "holds log' (head log') (f (entries log (head log)))"
    and rd: "readers log' = map (\<lambda>r. r\<lparr>r_off := g (r_off r)\<rparr>) (readers log)"
    and h: "\<And>r. r \<in> set (readers log) \<Longrightarrow> holds log' (g (r_off r)) (f (entries log (r_off r)))"
  shows "log_ok log'" "logger_abs log' = queue_map f (logger_abs log)"
proof -
  have "map reader_addr (readers log') = map reader_addr (readers log)" unfolding rd by simp
  then show "log_ok log'"
    using geo hd h log_okD(4) [OF ok] unfolding log_ok_def by (auto simp: rd comp_def)
  show "logger_abs log' = queue_map f (logger_abs log)"
    using entries_holds [OF geo hd] entries_holds [OF geo h] by (simp add: logger_abs_def queue_map_def rd)
qed

lemma holds_cong:
  "buffer log' = buffer log \<Longrightarrow> log_size log' = log_size log \<Longrightarrow> w_off log' = w_off log \<Longrightarrow>
   holds log' off es = holds log off es"
  by (simp add: holds_def ring_def)

lemma geometry_cong:
  "buffer log' = buffer log \<Longrightarrow> log_size log' = log_size log \<Longrightarrow> w_off log' = w_off log \<Longrightarrow>
   log_geometry log' = log_geometry log"
  by (simp add: log_geometry_def)

lemma length_entry_bytes [simp]: "length (entry_bytes e) = 20"
  by (simp add: entry_bytes_def)

lemma entry_bytes_ok:
  assumes "length bs = unat (len h)"
  shows "entry_ok (entry_bytes h @ bs)"
proof -
  have "(entry_bytes h @ bs) ! 0 = le16 (len h) ! 0" "(entry_bytes h @ bs) ! 1 = le16 (len h) ! 1"
    by (simp_all add: entry_bytes_def nth_append)
  then show ?thesis using le16_value [of "len h"] assms by (simp add: entry_ok_def sizeof_logger_entry_def)
qed

text \<open>The header that is written, and the entry.\<close>

definition write_header :: "logger_entry \<Rightarrow> nat \<Rightarrow> logger_entry" where
  "write_header hdr ki_left = hdr\<lparr>len := of_nat (min ki_left LOGGER_ENTRY_MAX_PAYLOAD)\<rparr>"

lemma unat_header_len: "unat (len (write_header hdr n)) = min n LOGGER_ENTRY_MAX_PAYLOAD"
  by (simp add: write_header_def logger_consts unat_of_nat)

lemma logger_write_result:
  fixes hdr n defines "hl \<equiv> min n LOGGER_ENTRY_MAX_PAYLOAD"
  assumes ok: "log_ok log" and orig: "orig = w_off log" and pos: "0 < n"
    and n: "n = (\<Sum>(k, src)\<leftarrow>iov. k)"
  shows "\<exists>log' klog'. if segs_ok hl 0 iov
    then logger_aio_write mem orig hdr n iov log klog = (Inr hl, log', klog') \<and> log_ok log'
       \<and> logger_abs log' = queue_map (\<lambda>es. trim (log_size log) (20 + hl) es
            @ [entry_bytes (write_header hdr n) @ segs_bytes hl 0 iov]) (logger_abs log)
    else logger_aio_write mem orig hdr n iov log klog = (Inl EFAULT, log', klog') \<and> log_ok log'
       \<and> logger_abs log' = queue_map (trim (log_size log) (20 + hl)) (logger_abs log)"
proof -
  let ?h = "write_header hdr n" and ?m = "20 + hl" and ?sz = "log_size log"
  note D = log_okD [OF ok]
  have hl: "0 < hl" "?m \<le> LOGGER_ENTRY_MAX_LEN" "?m \<le> ?sz"
    using pos D(1) by (auto simp: hl_def logger_consts log_geometry_def)
  have ulen: "unat (len ?h) = hl" by (simp add: unat_header_len hl_def)
  then have lh: "len ?h \<noteq> 0" using hl(1) by auto
  define log1 where "log1 = fix_up_readers log ?m"
  have same: "buffer log1 = buffer log" "log_size log1 = ?sz" "w_off log1 = w_off log"
    "head log1 = fix_off log ?m (head log)"
    "readers log1 = map (\<lambda>r. r\<lparr>r_off := fix_off log ?m (r_off r)\<rparr>) (readers log)"
    by (simp_all add: log1_def fix_up_readers_fix_off)
  have geo1: "log_geometry log1" using D(1) geometry_cong [OF same(1-3)] by simp
  have pull: "holds log1 (fix_off log ?m off) (trim ?sz ?m es)" "length (concat (trim ?sz ?m es)) + ?m < ?sz"
    if "holds log off es" for off es
    using fix_off_holds [OF D(1) that _ hl(2)] holds_cong [OF same(1-3)] by simp_all
  define log2 where "log2 = do_write_log log1 (entry_bytes ?h)"
  have w2: "written log1 (entry_bytes ?h) log2"
    unfolding log2_def do_write_log_ring_store [OF geo1]
    by (rule ring_store_written [OF geo1]) (use hl(3) same(2) in simp)
  obtain log3 klog' where seg: "if segs_ok hl 0 iov
      then write_segments mem hl iov 0 log2 klog = (Inr (length (segs_bytes hl 0 iov)), log3, klog')
        \<and> written log1 (entry_bytes ?h @ segs_bytes hl 0 iov) log3
      else write_segments mem hl iov 0 log2 klog = (Inl EFAULT, log3, klog') \<and> agree_outside log1 ?m log3"
    using write_segments_result [OF geo1 w2, of 0 hl ?m iov mem klog] hl(3) same(2)
    by (auto simp only: length_entry_bytes add_0 diff_zero le0 order_refl)
  have call: "logger_aio_write mem orig hdr n iov log klog =
      (case write_segments mem hl iov 0 log2 klog of
         (Inl e, l, k) \<Rightarrow> (Inl e, l\<lparr>w_off := orig\<rparr>, k) | (Inr r, l, k) \<Rightarrow> (Inr r, l, k))"
    using lh ulen unfolding logger_aio_write_def write_header_def [symmetric] log2_def log1_def
    by (simp add: Let_def sizeof_logger_entry_def)
  show ?thesis
  proof (cases "segs_ok hl 0 iov")
    case True
    let ?e = "entry_bytes ?h @ segs_bytes hl 0 iov"
    from True seg have ws: "write_segments mem hl iov 0 log2 klog = (Inr (length (segs_bytes hl 0 iov)), log3, klog')"
      and w3: "written log1 ?e log3" by simp_all
    have le: "length (segs_bytes hl 0 iov) = hl" using length_segs_bytes [OF True] by (simp add: hl_def n)
    have app: "holds log3 (fix_off log ?m off) (trim ?sz ?m es @ [?e])" if "holds log off es" for off es
      by (rule holds_written [OF geo1 pull(1) [OF that] w3]) (use entry_bytes_ok ulen le pull(2) [OF that] same(2) in auto)
    have "log_ok log3 \<and> logger_abs log3 = queue_map (\<lambda>es. trim ?sz ?m es @ [?e]) (logger_abs log)"
      using log_abs_map [OF ok written_geometry [OF geo1 w3], where g = "fix_off log ?m"
          and f = "\<lambda>es. trim ?sz ?m es @ [?e]"]
        app D(2,3) written_sizes(3,4) [OF w3] same(4,5) by auto
    with True call ws le show ?thesis by (intro exI [of _ log3] exI [of _ klog']) simp
  next
    case False
    then have ws: "write_segments mem hl iov 0 log2 klog = (Inl EFAULT, log3, klog')" and a: "agree_outside log1 ?m log3"
      using seg by simp_all
    let ?l = "log3\<lparr>w_off := orig\<rparr>"
    have a': "agree_outside log1 ?m ?l" and wo: "w_off ?l = w_off log1"
      using a orig same(3) by (simp_all add: agree_outside_def)
    have ag: "head ?l = head log1" "readers ?l = readers log1" "log_size ?l = log_size log1" "length (buffer ?l) = log_size log1"
      using a by (simp_all add: agree_outside_def)
    have geo: "log_geometry ?l"
      using geo1 ag wo unfolding log_geometry_def by simp
    have keep: "holds ?l (fix_off log ?m off) (trim ?sz ?m es)" if "holds log off es" for off es
      by (rule holds_agree [OF geo1 pull(1) [OF that] a' _ wo]) (use pull(2) [OF that] same(2) in simp)
    have "log_ok ?l \<and> logger_abs ?l = queue_map (trim ?sz ?m) (logger_abs log)"
      using log_abs_map [OF ok geo, where g = "fix_off log ?m" and f = "trim ?sz ?m"]
        keep D(2,3) ag(1,2) same(4,5) by auto
    with False call ws show ?thesis by (intro exI [of _ ?l] exI [of _ klog']) simp
  qed
qed

subsection \<open>Reading\<close>

lemma load_ring:
  assumes "log_geometry log" "off < log_size log" "count \<le> log_size log"
  shows "load_bytes off (min count (log_size log - off)) (buffer log) @
    (if count \<noteq> min count (log_size log - off)
     then load_bytes 0 (count - min count (log_size log - off)) (buffer log) else []) = ring log off count"
proof (rule nth_equalityI)
  note G = log_geometryD [OF assms(1)]
  show "length (load_bytes off (min count (log_size log - off)) (buffer log) @
    (if count \<noteq> min count (log_size log - off)
     then load_bytes 0 (count - min count (log_size log - off)) (buffer log) else [])) = length (ring log off count)"
    using G(2) assms by (auto simp: load_bytes_def)
  fix i assume "i < length (load_bytes off (min count (log_size log - off)) (buffer log) @
    (if count \<noteq> min count (log_size log - off)
     then load_bytes 0 (count - min count (log_size log - off)) (buffer log) else []))"
  then have i: "i < count" using G(2) assms by (auto simp: load_bytes_def split: if_splits)
  show "(load_bytes off (min count (log_size log - off)) (buffer log) @
    (if count \<noteq> min count (log_size log - off)
     then load_bytes 0 (count - min count (log_size log - off)) (buffer log) else [])) ! i = ring log off count ! i"
    using i G(2) assms by (auto simp: load_bytes_def nth_append nth_ring ring_mod min_def add.commute)
qed

lemma do_read_entry:
  assumes ok: "log_ok log" and r: "r \<in> set (readers log)" and es: "entries log (r_off r) = e # es"
  shows "do_read_log_to_user log r room (length e) =
    (if room < length e then (Inl EFAULT, log)
     else (Inr e, set_r_off (reader_addr r) ((r_off r + length e) mod log_size log) log))"
proof -
  note D = log_okD [OF ok]
  have h: "holds log (r_off r) (e # es)" using D(3) [OF r] es by simp
  then have b: "r_off r < log_size log" "length e \<le> log_size log" by (auto simp: holds_def)
  show ?thesis
    using load_ring [OF D(1) b] holds_Cons(2) [OF D(1) h]
    by (auto simp: do_read_log_to_user_def Let_def log_geometryD(4) [OF D(1)] not_less)
qed

text \<open>Moving one reader to another place of the log.\<close>

definition queue_set :: "addr \<Rightarrow> u8 list list \<Rightarrow> log_queue \<Rightarrow> log_queue" where
  "queue_set a es q = (fst q, map (\<lambda>(b, fs). (b, if b = a then es else fs)) (snd q))"

lemma set_r_off_abs:
  assumes ok: "log_ok log" and h: "holds log off es"
  shows "log_ok (set_r_off a off log)" "logger_abs (set_r_off a off log) = queue_set a es (logger_abs log)"
proof -
  let ?log = "set_r_off a off log"
  have same: "buffer ?log = buffer log" "log_size ?log = log_size log" "w_off ?log = w_off log" "head ?log = head log"
    by (simp_all add: set_r_off_def)
  note C = holds_cong [OF same(1-3)] and D = log_okD [OF ok]
  have geo: "log_geometry ?log" using D(1) geometry_cong [OF same(1-3)] by simp
  have E: "entries ?log o' = fs" if "holds log o' fs" for o' fs
    using entries_holds [OF geo] that C by simp
  have "map reader_addr (readers ?log) = map reader_addr (readers log)"
    by (auto simp: set_r_off_def)
  then have dist: "distinct (map reader_addr (readers ?log))" using D(4) by presburger
  show "log_ok ?log"
    unfolding log_ok_def C same(4) using geo dist D(2,3) h by (auto simp: set_r_off_def)
  have "map (\<lambda>r. (reader_addr r, entries ?log (r_off r))) (readers ?log)
      = map (\<lambda>(b, fs). (b, if b = a then es else fs)) (map (\<lambda>r. (reader_addr r, entries log (r_off r))) (readers log))"
    using E [OF h] E [OF D(3)] by (auto simp: set_r_off_def)
  then show "logger_abs ?log = queue_set a es (logger_abs log)"
    using E [OF D(2)] by (simp add: logger_abs_def queue_set_def same(4))
qed

subsection \<open>The devices\<close>

definition logger_ok :: "logger \<Rightarrow> bool" where
  "logger_ok g \<longleftrightarrow> (\<forall>l. log_ok (logs g l) \<and> log_size (logs g l) = logger_device_size l)"

lemma logger_device_ok: "k \<ge> 13 \<Longrightarrow> log_ok (logger_device (2 ^ k))"
proof -
  assume k: "k \<ge> 13"
  have "(2::nat) ^ 13 \<le> 2 ^ k" using k by (intro power_increasing) auto
  then have geo: "log_geometry (logger_device (2 ^ k))"
    by (auto simp: log_geometry_def logger_device_def logger_consts)
  moreover have "holds (logger_device (2 ^ k)) 0 []"
    by (subst holds_Nil [OF geo]) (simp_all add: logger_device_def)
  ultimately show ?thesis by (auto simp: log_ok_def logger_device_def)
qed

lemma logger_initial_ok: "logger_ok (logger_initial mn)"
proof -
  have "logger_device_size l = 2 ^ (if l = log_system then 16 else 18)" for l
    by (simp add: logger_device_size_def)
  then have "log_ok (logger_device (logger_device_size l))" for l
    using logger_device_ok [of "if l = log_system then 16 else 18"] by simp
  then show ?thesis by (simp add: logger_ok_def logger_initial_def logger_device_def)
qed

lemma log_ok_readers:
  assumes ok: "log_ok log" and "\<And>r. r \<in> set rs \<Longrightarrow> \<exists>es. holds log (r_off r) es"
    and "distinct (map reader_addr rs)" and "\<exists>es. holds log h0 es"
  shows "log_ok (log\<lparr>readers := rs, head := h0\<rparr>)"
proof -
  let ?log = "log\<lparr>readers := rs, head := h0\<rparr>"
  have C: "holds ?log off es = holds log off es" for off es by (rule holds_cong) simp_all
  have "log_geometry ?log" using log_okD(1) [OF ok] geometry_cong [of ?log log] by simp
  with assms show ?thesis unfolding log_ok_def C by simp
qed

lemma set_log_ok: "logger_ok g \<Longrightarrow> log_ok log \<Longrightarrow> log_size log = log_size (logs g l) \<Longrightarrow> logger_ok (set_log l log g)"
  by (simp add: logger_ok_def set_log_def)

lemma holds_end: "log_ok log \<Longrightarrow> holds log (w_off log) []"
  using holds_Nil log_okD(1) log_geometryD(3) by blast

subsection \<open>Every operation keeps the logs well-formed\<close>

lemma logger_read_result:
  assumes ok: "log_ok log" and r: "r \<in> set (readers log)"
  shows "logger_read log r nonblock sig room count =
    (case entries log (r_off r) of
       [] \<Rightarrow> if nonblock then Some (Inl EAGAIN, log) else if sig then Some (Inl EINTR, log) else None
     | e # es \<Rightarrow>
        Some (if count < length e then (Inl EINVAL, log)
              else if room < length e then (Inl EFAULT, log)
              else (Inr e, set_r_off (reader_addr r) ((r_off r + length e) mod log_size log) log)))"
proof (cases "entries log (r_off r)")
  case Nil
  note D = log_okD [OF ok]
  have "holds log (r_off r) []" "r_off r < log_size log" using D(3) [OF r] Nil by (auto simp: holds_def)
  then have "r_off r = w_off log" using holds_Nil [OF D(1)] by blast
  with Nil show ?thesis by (simp add: logger_read_def logger_read_wait_def)
next
  case (Cons e es)
  note D = log_okD [OF ok]
  have "holds log (r_off r) (e # es)" using D(3) [OF r] Cons by simp
  from holds_Cons [OF D(1) this] do_read_entry [OF ok r Cons] Cons show ?thesis
    by (auto simp: logger_read_def logger_read_wait_def logger_read_locked_def Let_def)
qed

lemma logger_read_ok:
  assumes ok: "log_ok log" and r: "r \<in> set (readers log)"
    and res: "logger_read log r nonblock sig room count = Some (x, log')"
  shows "log_ok log' \<and> log_size log' = log_size log"
proof (cases "entries log (r_off r)")
  case (Cons e es)
  note D = log_okD [OF ok]
  have "holds log ((r_off r + length e) mod log_size log) es"
    using holds_Cons(4) [OF D(1)] D(3) [OF r] Cons by simp
  with Cons res ok show ?thesis
    using set_r_off_abs(1) [OF ok] by (auto simp: logger_read_result [OF ok r] set_r_off_def split: if_splits)
qed (use res ok in \<open>auto simp: logger_read_result [OF ok r] split: if_splits\<close>)

lemma fix_up_size [simp]: "log_size (fix_up_readers log n) = log_size log"
  by (simp add: fix_up_readers_def Let_def)

lemma do_write_size [simp]: "log_size (do_write_log log bs) = log_size log"
  by (simp add: do_write_log_def Let_def)

lemma do_write_user_frame:
  "log_size (fst (snd (do_write_log_from_user mem log klog src count))) = log_size log"
  "readers (fst (snd (do_write_log_from_user mem log klog src count))) = readers log"
proof -
  obtain n where n: "min count (log_size log - w_off log) = n" by blast
  show "log_size (fst (snd (do_write_log_from_user mem log klog src count))) = log_size log"
    "readers (fst (snd (do_write_log_from_user mem log klog src count))) = readers log"
    unfolding do_write_log_from_user_def n Let_def case_prod_beta by simp_all
qed

lemma write_segments_frame:
  "write_segments mem hlen iov ret log klog = (x, log', klog') \<Longrightarrow>
   log_size log' = log_size log \<and> readers log' = readers log"
proof (induction iov arbitrary: ret log klog)
  case (Cons seg iov)
  obtain n src where seg: "seg = (n, src)" by fastforce
  obtain y l1 k1 where u: "do_write_log_from_user mem log klog src (min n (hlen - ret)) = (y, l1, k1)"
    by (cases "do_write_log_from_user mem log klog src (min n (hlen - ret))") simp
  have f: "log_size l1 = log_size log" "readers l1 = readers log"
    using do_write_user_frame [of mem log klog src "min n (hlen - ret)"] unfolding u by simp_all
  show ?case
  proof (cases y)
    case (Inl e)
    with Cons.prems seg u f show ?thesis by simp
  next
    case (Inr nr)
    with Cons.prems seg u have "write_segments mem hlen iov (ret + nr) l1 k1 = (x, log', klog')" by simp
    from Cons.IH [OF this] f show ?thesis by simp
  qed
qed simp

lemma logger_aio_write_size:
  assumes "logger_aio_write mem orig hdr n iov log klog = (x, log', klog')"
  shows "log_size log' = log_size log"
proof -
  let ?h = "len (write_header hdr n)"
  let ?l = "do_write_log (fix_up_readers log (sizeof_logger_entry + unat ?h)) (entry_bytes (write_header hdr n))"
  obtain y l k where ws: "write_segments mem (unat ?h) iov 0 ?l klog = (y, l, k)"
    by (cases "write_segments mem (unat ?h) iov 0 ?l klog") auto
  have "log_size l = log_size log" using write_segments_frame [OF ws] by simp
  with assms ws show ?thesis
    unfolding logger_aio_write_def write_header_def [symmetric] Let_def
    by (cases y) (auto split: if_splits)
qed

lemma logger_aio_write_ok:
  assumes ok: "log_ok log" and n: "n = (\<Sum>(k, src)\<leftarrow>iov. k)"
    and res: "logger_aio_write mem (w_off log) hdr n iov log klog = (x, log', klog')"
  shows "log_ok log' \<and> log_size log' = log_size log"
proof (cases "n = 0")
  case True
  with res ok show ?thesis by (simp add: logger_aio_write_def Let_def)
next
  case False
  with logger_write_result [OF ok refl _ n, of mem hdr klog] res logger_aio_write_size [OF res]
  show ?thesis by (auto split: if_splits)
qed

lemma logger_open_ok:
  assumes ok: "logger_ok g" and op: "logger_open minor rd wr mem g = (res, g')"
    and fresh: "\<And>a l r. mem = Some a \<Longrightarrow> r \<in> set (readers (logs g l)) \<Longrightarrow> reader_addr r \<noteq> a"
  shows "logger_ok g'"
proof (cases "get_log_from_minor g minor")
  case (Some l)
  let ?log = "logs g l"
  have lok: "log_ok ?log" using ok by (simp add: logger_ok_def)
  note D = log_okD [OF lok]
  show ?thesis
  proof (cases "rd \<and> mem \<noteq> None")
    case True
    then obtain a where a: "mem = Some a" by blast
    let ?rs = "readers ?log @ [\<lparr>reader_addr = a, r_off = head ?log\<rparr>]"
    have "log_ok (?log\<lparr>readers := ?rs, head := head ?log\<rparr>)"
      by (rule log_ok_readers [OF lok]) (use D fresh [OF a, of _ l] in auto)
    moreover have "g' = set_log l (?log\<lparr>readers := ?rs\<rparr>) g"
      using op Some True a by (auto simp: logger_open_def Let_def)
    ultimately show ?thesis using ok by (auto intro: set_log_ok)
  qed (use op Some ok in \<open>auto simp: logger_open_def split: option.splits if_splits\<close>)
qed (use op ok in \<open>simp add: logger_open_def\<close>)

lemma logger_release_ok:
  assumes ok: "logger_ok g" shows "logger_ok (logger_release file g)"
proof (cases "private_data file")
  case (Reader_of l a)
  let ?log = "logs g l" and ?rs = "filter (\<lambda>r. reader_addr r \<noteq> a) (readers (logs g l))"
  have lok: "log_ok ?log" using ok by (simp add: logger_ok_def)
  note D = log_okD [OF lok]
  have "log_ok (?log\<lparr>readers := ?rs, head := head ?log\<rparr>)"
    by (rule log_ok_readers [OF lok]) (use D in \<open>auto simp: distinct_map_filter\<close>)
  then show ?thesis using ok Reader_of by (auto simp: logger_release_def intro: set_log_ok)
qed (use ok in \<open>simp add: logger_release_def\<close>)

lemma logger_ioctl_ok:
  assumes ok: "logger_ok g" shows "logger_ok (snd (logger_ioctl file cmd g))"
proof (cases "cmd = LOGGER_FLUSH_LOG \<and> fmode_write file")
  case True
  let ?log = "logs g (file_get_log file)"
  let ?rs = "map (\<lambda>r. r\<lparr>r_off := w_off ?log\<rparr>) (readers ?log)"
  have lok: "log_ok ?log" using ok by (simp add: logger_ok_def)
  have "log_ok (?log\<lparr>readers := ?rs, head := w_off ?log\<rparr>)"
    by (rule log_ok_readers [OF lok]) (use log_okD(4) [OF lok] holds_end [OF lok] in \<open>auto simp: comp_def\<close>)
  then show ?thesis using ok True by (auto simp: logger_ioctl_def Let_def intro: set_log_ok)
next
  case False
  then have "snd (logger_ioctl file cmd g) = g"
    by (cases cmd) (auto simp: logger_ioctl_def Let_def)
  with ok show ?thesis by simp
qed

text \<open>The steps of the subsystem: a call on any of the devices, one after the other.\<close>

inductive logger_step :: "logger \<Rightarrow> logger \<Rightarrow> bool" where
  step_open: "logger_open minor rd wr mem g = (res, g') \<Longrightarrow>
    (\<And>a l r. mem = Some a \<Longrightarrow> r \<in> set (readers (logs g l)) \<Longrightarrow> reader_addr r \<noteq> a) \<Longrightarrow> logger_step g g'"
| step_release: "logger_step g (logger_release file g)"
| step_ioctl: "logger_step g (snd (logger_ioctl file cmd g))"
| step_read: "r \<in> set (readers (logs g l)) \<Longrightarrow>
    logger_read (logs g l) r nonblock sig room count = Some (x, log') \<Longrightarrow> logger_step g (set_log l log' g)"
| step_write: "logger_aio_write mem (w_off (logs g l)) hdr (\<Sum>(k, src)\<leftarrow>iov. k) iov (logs g l) (klog_buf g) = (x, log', klog') \<Longrightarrow>
    logger_step g ((set_log l log' g)\<lparr>klog_buf := klog'\<rparr>)"

inductive_cases logger_stepE: "logger_step g g'"

lemma logger_step_ok: "logger_step g g' \<Longrightarrow> logger_ok g \<Longrightarrow> logger_ok g'"
proof (induction rule: logger_step.induct)
  case (step_open minor rd wr mem g res g')
  then show ?case using logger_open_ok by blast
next
  case (step_read r g l nonblock sig room count x log')
  then have "log_ok (logs g l)" by (simp add: logger_ok_def)
  with step_read show ?case using logger_read_ok by (metis set_log_ok)
next
  case (step_write mem g l hdr iov x log' klog')
  have "log_ok (logs g l)" using step_write(2) by (simp add: logger_ok_def)
  then have "logger_ok (set_log l log' g)"
    using step_write logger_aio_write_ok [OF _ refl step_write(1)] by (metis set_log_ok)
  then show ?case by (simp add: logger_ok_def)
qed (blast intro: logger_release_ok logger_ioctl_ok)+

section \<open>Properties\<close>

lemma entries_end: "log_ok log \<Longrightarrow> entries log (w_off log) = []"
  using entries_holds [OF log_okD(1) holds_end] .



text \<open>C2: a write refines appending one entry to a bounded queue.  Each reader, and the head, first
  loses its oldest entries if its content and the new entry do not fit into the buffer (at least as many bytes
  as the new entry has: \<open>trim\<close>), then gets the header and the first 4076 bytes of the payload as one entry.
  If a segment cannot be read, nothing is appended and the call fails with \<open>EFAULT\<close>.\<close>

theorem logger_write_correct:
  fixes n hdr
  defines "hl \<equiv> min n LOGGER_ENTRY_MAX_PAYLOAD"
  assumes ok: "log_ok log" and n: "n = (\<Sum>(k, src)\<leftarrow>iov. k)" and pos: "0 < n"
  shows "case logger_aio_write mem (w_off log) hdr n iov log klog of (ret, log', klog') \<Rightarrow>
      log_ok log'
    \<and> (ret = Inr hl
         \<and> logger_abs log' = queue_map (\<lambda>es. trim (log_size log) (20 + hl) es
              @ [entry_bytes (write_header hdr n) @ segs_bytes hl 0 iov]) (logger_abs log)
       \<or> ret = Inl EFAULT \<and> (\<exists>(k, src)\<in>set iov. length src < k)
         \<and> logger_abs log' = queue_map (trim (log_size log) (20 + hl)) (logger_abs log))
    \<and> ((\<forall>(k, src)\<in>set iov. k = length src) \<longrightarrow>
         ret = Inr hl \<and> segs_bytes hl 0 iov = take hl (concat (map snd iov)))"
proof -
  obtain log' klog' where W: "if segs_ok hl 0 iov
    then logger_aio_write mem (w_off log) hdr n iov log klog = (Inr hl, log', klog') \<and> log_ok log'
       \<and> logger_abs log' = queue_map (\<lambda>es. trim (log_size log) (20 + hl) es
            @ [entry_bytes (write_header hdr n) @ segs_bytes hl 0 iov]) (logger_abs log)
    else logger_aio_write mem (w_off log) hdr n iov log klog = (Inl EFAULT, log', klog') \<and> log_ok log'
       \<and> logger_abs log' = queue_map (trim (log_size log) (20 + hl)) (logger_abs log)"
    using logger_write_result [OF ok refl pos n, of mem hdr klog] unfolding hl_def by blast
  have all: "segs_ok hl 0 iov" if "\<forall>(k, src)\<in>set iov. k \<le> length src"
    using segs_bytes_concat(1) [OF that] .
  have full: "segs_ok hl 0 iov \<and> segs_bytes hl 0 iov = take hl (concat (map snd iov))"
    if l: "\<forall>(k, src)\<in>set iov. k = length src"
  proof -
    have "\<forall>(k, src)\<in>set iov. k \<le> length src" using l by auto
    moreover have "map (\<lambda>(k, src). take k src) iov = map snd iov" using l by auto
    ultimately show ?thesis using segs_bytes_concat [of iov hl 0] by (metis diff_zero)
  qed
  show ?thesis
  proof (cases "segs_ok hl 0 iov")
    case True
    with W full show ?thesis by auto
  next
    case False
    then have "\<exists>(k, src)\<in>set iov. length src < k" using all by (force simp: not_le)
    with False W full show ?thesis by auto
  qed
qed

theorem logger_write_correct_witness:
  "case logger_aio_write (\<lambda>_. 0) 0 \<lparr>len = 0, pad = 0, pid = 1, tid = 1, sec = 0, nsec = 0\<rparr> 3 [(2, [5, 6]), (1, [7])]
      (logger_device 65536) [] of (ret, log', _) \<Rightarrow> ret = Inr 3 \<and> log_ok log'
   \<and> logger_abs log' = ([[3, 0, 0, 0, 1, 0, 0, 0, 1, 0, 0, 0, 0, 0, 0, 0, 0, 0, 0, 0, 5, 6, 7]], [])"
proof -
  let ?h = "\<lparr>len = 0, pad = 0, pid = 1, tid = 1, sec = 0, nsec = 0\<rparr>" and ?iov = "[(2, [5, 6]), (1, [7])] :: iovec list"
  have ok: "log_ok (logger_device 65536)" using logger_device_ok [of 16] by simp
  have ab: "logger_abs (logger_device 65536) = ([], [])"
    using entries_end [OF ok] by (simp add: logger_abs_def logger_device_def)
  have d: "w_off (logger_device 65536) = 0" "log_size (logger_device 65536) = 65536" by (simp_all add: logger_device_def)
  have h: "entry_bytes (write_header ?h 3) = [3, 0, 0, 0, 1, 0, 0, 0, 1, 0, 0, 0, 0, 0, 0, 0, 0, 0, 0, 0]"
    by (simp add: entry_bytes_def write_header_def logger_consts le16_def le32_def)
  show ?thesis
    using logger_write_correct [OF ok, where n = 3 and iov = ?iov and mem = "\<lambda>_. 0" and hdr = ?h and klog = "[]"]
    by (auto simp: ab d h queue_map_def trim_def logger_consts)
qed

text \<open>C16: a read delivers exactly the oldest entry that the reader has not read, in full, and only
  this reader moves; it fails with \<open>EINVAL\<close> if the caller's buffer is too small and with \<open>EFAULT\<close> if
  it cannot be written, and then nothing moves.  With nothing to read it answers \<open>EAGAIN\<close> (non-blocking), \<open>EINTR\<close> (signal)
  or sleeps.\<close>

theorem logger_read_correct:
  assumes ok: "log_ok log" and r: "r \<in> set (readers log)"
  shows "case entries log (r_off r) of
      [] \<Rightarrow> logger_read log r nonblock sig room count =
        (if nonblock then Some (Inl EAGAIN, log) else if sig then Some (Inl EINTR, log) else None)
    | e # es \<Rightarrow> \<exists>log'. logger_read log r nonblock sig room count =
          Some (if count < length e then (Inl EINVAL, log)
                else if room < length e then (Inl EFAULT, log) else (Inr e, log'))
        \<and> log_ok log' \<and> logger_abs log' = queue_set (reader_addr r) es (logger_abs log)"
proof (cases "entries log (r_off r)")
  case Nil
  then show ?thesis by (simp add: logger_read_result [OF ok r])
next
  case (Cons e es)
  note D = log_okD [OF ok]
  have h: "holds log ((r_off r + length e) mod log_size log) es"
    using holds_Cons(4) [OF D(1)] D(3) [OF r] Cons by simp
  let ?log = "set_r_off (reader_addr r) ((r_off r + length e) mod log_size log) log"
  have "log_ok ?log" "logger_abs ?log = queue_set (reader_addr r) es (logger_abs log)"
    using set_r_off_abs [OF ok h] by auto
  then show ?thesis unfolding logger_read_result [OF ok r] Cons list.case by blast
qed

theorem logger_read_correct_witness:
  "logger_read ((logger_device 65536)\<lparr>readers := [\<lparr>reader_addr = 1, r_off = 0\<rparr>]\<rparr>) \<lparr>reader_addr = 1, r_off = 0\<rparr>
     True False 100 100 = Some (Inl EAGAIN, (logger_device 65536)\<lparr>readers := [\<lparr>reader_addr = 1, r_off = 0\<rparr>]\<rparr>)"
proof -
  let ?r = "\<lparr>reader_addr = 1, r_off = 0\<rparr>" and ?d = "logger_device 65536"
  have ok: "log_ok ?d" using logger_device_ok [of 16] by simp
  have "log_ok (?d\<lparr>readers := [?r], head := 0\<rparr>)"
    by (rule log_ok_readers [OF ok]) (use holds_end [OF ok] in \<open>auto simp: logger_device_def\<close>)
  then have ok': "log_ok (?d\<lparr>readers := [?r]\<rparr>)" by (simp add: logger_device_def)
  have "entries (?d\<lparr>readers := [?r]\<rparr>) 0 = []" using entries_end [OF ok'] by (simp add: logger_device_def)
  then show ?thesis using logger_read_correct [OF ok', of ?r True False 100 100] by simp
qed

text \<open>What a reader is told about its log is what it will read: \<open>LOGGER_GET_LOG_LEN\<close> is the
  number of bytes of the entries it has not read, \<open>LOGGER_GET_NEXT_ENTRY_LEN\<close> the length of the
  next one (0 if there is none), and \<open>poll\<close> reports the log as readable exactly if there is one.\<close>

theorem logger_reader_status:
  assumes ok: "logger_ok g" and f: "private_data file = Reader_of l a" "fmode_read file"
    and r: "file_reader file g = Some r"
  shows "fst (logger_ioctl file LOGGER_GET_LOG_LEN g) = Inr (length (concat (entries (logs g l) (r_off r))))
    \<and> fst (logger_ioctl file LOGGER_GET_NEXT_ENTRY_LEN g) =
        Inr (case entries (logs g l) (r_off r) of [] \<Rightarrow> 0 | e # es \<Rightarrow> length e)
    \<and> (logger_poll file g AND POLLIN_MASK \<noteq> 0 \<longleftrightarrow> entries (logs g l) (r_off r) \<noteq> [])"
proof -
  let ?log = "logs g l" and ?es = "entries (logs g l) (r_off r)"
  have lok: "log_ok ?log" using ok by (simp add: logger_ok_def)
  note D = log_okD [OF lok]
  have fl: "file_get_log file = l" using f(1) by (simp add: file_get_log_def)
  have "r \<in> set (readers ?log)"
    using r f(1) by (auto simp: file_reader_def find_Some_iff)
  then have h: "holds ?log (r_off r) ?es" by (rule D(3))
  let ?L = "length (concat ?es)"
  have H: "r_off r < log_size ?log" "?L < log_size ?log" "(r_off r + ?L) mod log_size ?log = w_off ?log"
    using h by (auto simp: holds_def)
  have "(if w_off ?log \<ge> r_off r then w_off ?log - r_off r else (log_size ?log - r_off r) + w_off ?log) = ?L"
    using H by (auto simp: ring_mod split: if_splits)
  then have len: "fst (logger_ioctl file LOGGER_GET_LOG_LEN g) = Inr ?L"
    using f r fl by (auto simp: logger_ioctl_def Let_def split: if_splits)
  have iff: "?es = [] \<longleftrightarrow> w_off ?log = r_off r"
    using h holds_Nil [OF D(1) H(1)] entries_end [OF lok] by metis
  have "get_entry_len ?log (r_off r) = length e" if "?es = e # es" for e es
    using holds_Cons(1) [OF D(1)] h that by simp
  then have next_len: "fst (logger_ioctl file LOGGER_GET_NEXT_ENTRY_LEN g) =
      Inr (case ?es of [] \<Rightarrow> 0 | e # es \<Rightarrow> length e)"
    using f r fl iff by (cases ?es) (auto simp: logger_ioctl_def Let_def)
  have "POLLOUT_MASK AND POLLIN_MASK = 0" "(POLLOUT_MASK OR POLLIN_MASK) AND POLLIN_MASK \<noteq> 0"
    by (simp_all add: POLLOUT_MASK_def POLLIN_MASK_def)
  then have "logger_poll file g AND POLLIN_MASK \<noteq> 0 \<longleftrightarrow> ?es \<noteq> []"
    using f r fl iff by (simp add: logger_poll_def)
  with len next_len show ?thesis by blast
qed

theorem logger_reader_status_witness:
  "let g = snd (logger_open 7 True False (Some 1) (logger_initial (\<lambda>_. 7)));
       file = \<lparr>fmode_read = True, fmode_write = False, private_data = Reader_of log_main 1\<rparr>
   in fst (logger_ioctl file LOGGER_GET_LOG_LEN g) = Inr 0 \<and> logger_poll file g AND POLLIN_MASK = 0"
proof -
  let ?file = "\<lparr>fmode_read = True, fmode_write = False, private_data = Reader_of log_main 1\<rparr>"
  let ?r = "\<lparr>reader_addr = 1, r_off = 0\<rparr>"
  define g where "g = snd (logger_open 7 True False (Some 1) (logger_initial (\<lambda>_. 7)))"
  have "logger_ok g" unfolding g_def
    by (rule logger_open_ok [OF logger_initial_ok [of "\<lambda>_. 7"] prod.collapse [symmetric]])
       (simp add: logger_initial_def logger_device_def)
  moreover have r: "file_reader ?file g = Some ?r" and w: "w_off (logs g log_main) = 0"
    by (simp_all add: g_def logger_open_def logger_initial_def get_log_from_minor_def Let_def
        file_reader_def set_log_def logger_device_def)
  ultimately show ?thesis
    using logger_reader_status [of g ?file log_main 1 ?r] entries_end [of "logs g log_main"]
    unfolding g_def [symmetric] Let_def by (simp add: logger_ok_def)
qed

text \<open>C37: the write offset that a failing write restores is read before the mutex is taken.  If
  another writer completes in between, the failing write moves the write offset back (or, after a
  wrap-around, forward): a reader that had read everything is told that there is something to read,
  at an offset where no entry was written for it.\<close>

theorem logger_write_race:
  assumes ok: "log_ok log" and r: "r \<in> set (readers log)" "r_off r = w_off log"
    and n: "n = (\<Sum>(k, src)\<leftarrow>iov. k)" "0 < n"
    and fault: "\<not> segs_ok (min n LOGGER_ENTRY_MAX_PAYLOAD) 0 iov"
    and stale: "orig \<noteq> w_off log"
  shows "entries log (r_off r) = []
    \<and> (case logger_aio_write mem orig hdr n iov log klog of (ret, log', klog') \<Rightarrow>
         ret = Inl EFAULT \<and> r \<in> set (readers log') \<and> r_off r \<noteq> w_off log')"
proof -
  let ?hl = "min n LOGGER_ENTRY_MAX_PAYLOAD" and ?h = "len (write_header hdr n)"
  let ?l1 = "fix_up_readers log (sizeof_logger_entry + unat ?h)"
  let ?l2 = "do_write_log ?l1 (entry_bytes (write_header hdr n))"
  note D = log_okD [OF ok]
  have hl: "0 < ?hl" using n(2) by (simp add: logger_consts)
  have uh: "unat ?h = ?hl" by (rule unat_header_len)
  then have h0: "?h \<noteq> 0" using hl by auto
  have e: "entries log (r_off r) = []" using entries_end [OF ok] r(2) by simp
  obtain log1 klog1 where g: "logger_aio_write mem (w_off log) hdr n iov log klog = (Inl EFAULT, log1, klog1)"
    "log_ok log1" "logger_abs log1 = queue_map (trim (log_size log) (20 + ?hl)) (logger_abs log)"
    using logger_write_result [OF ok refl n(2,1), of mem hdr klog] fault by auto
  obtain l3 k3 where ws: "write_segments mem (unat ?h) iov 0 ?l2 klog = (Inl EFAULT, l3, k3)" and l1: "log1 = l3\<lparr>w_off := w_off log\<rparr>"
    using g(1) h0 unfolding logger_aio_write_def write_header_def [symmetric] Let_def
    by (auto split: prod.splits sum.splits)
  have call: "logger_aio_write mem orig hdr n iov log klog = (Inl EFAULT, l3\<lparr>w_off := orig\<rparr>, k3)"
    using h0 ws unfolding logger_aio_write_def write_header_def [symmetric] Let_def by simp
  have "readers l3 = readers ?l1"
    using write_segments_frame [OF ws] by (simp add: do_write_log_def Let_def)
  moreover have "r \<in> set (readers ?l1)"
  proof -
    have m: "0 < 20 + ?hl" "20 + ?hl \<le> LOGGER_ENTRY_MAX_LEN" by (auto simp: logger_consts)
    have "\<not> clock_interval (w_off log) (logger_offset log (w_off log + (20 + ?hl))) (w_off log)"
      using log_geometryD(3) [OF D(1)] by (auto simp: clock_interval_def log_geometryD(4) [OF D(1)])
    then have "fix_off log (20 + ?hl) (r_off r) = r_off r"
      unfolding r(2) by (simp add: fix_off_def)
    then have "r\<lparr>r_off := fix_off log (20 + ?hl) (r_off r)\<rparr> = r" by simp
    with r(1) show ?thesis by (auto simp: fix_up_readers_fix_off uh sizeof_logger_entry_def intro: image_eqI [of _ _ r])
  qed
  ultimately show ?thesis using e r(2) stale unfolding call prod.case by simp
qed

theorem logger_write_race_witness:
  "let r = \<lparr>reader_addr = 1, r_off = 0\<rparr>; log = (logger_device 65536)\<lparr>readers := [r]\<rparr>
   in r_off r = w_off log
    \<and> w_off (fst (snd (logger_aio_write (\<lambda>_. 0) 24 \<lparr>len = 0, pad = 0, pid = 1, tid = 1, sec = 0, nsec = 0\<rparr> 5
        [(5, [])] log []))) \<noteq> 0"
proof -
  let ?r = "\<lparr>reader_addr = 1, r_off = 0\<rparr>" and ?d = "logger_device 65536"
  let ?h = "\<lparr>len = 0, pad = 0, pid = 1, tid = 1, sec = 0, nsec = 0\<rparr>"
  have ok: "log_ok ?d" using logger_device_ok [of 16] by simp
  have "log_ok (?d\<lparr>readers := [?r], head := 0\<rparr>)"
    by (rule log_ok_readers [OF ok]) (use holds_end [OF ok] in \<open>auto simp: logger_device_def\<close>)
  then have ok': "log_ok (?d\<lparr>readers := [?r]\<rparr>)" by (simp add: logger_device_def)
  show ?thesis
    using logger_write_race [OF ok', where r = ?r and n = 5 and iov = "[(5, [])]" and orig = 24
        and mem = "\<lambda>_. 0" and hdr = ?h and klog = "[]"]
    by (simp add: logger_device_def logger_consts case_prod_beta Let_def)
qed



end
