(* ===== verification/Dpm.thy ===== *)
theory Dpm
  imports Kernel_Prelude
begin

text \<open>
  The power management of devices, \<open>drivers/base/power/main.c\<close>: the list of devices in the order of their
  registration, the status of each, and the loops that prepare, suspend, resume and complete them.

  The callbacks of drivers are code outside this component: the environment gives the result of each call,
  which may depend on everything called before (the number of calls so far).  \<open>callbacks\<close> records the calls,
  \<open>dev_trace\<close> the operations on devices with their results, the latest last.  The list does not change
  while the loops run: devices that come or go during a transition are not modelled, so the test
  for a device that left the list is always true.  Run-time power management, hibernation and
  tracing are not configured; the watchdog timer, which stops the system when a driver hangs, is not modelled.
\<close>

section \<open>The model\<close>

datatype dpm_status = DPM_INVALID | DPM_ON | DPM_PREPARING | DPM_RESUMING | DPM_SUSPENDING | DPM_OFF | DPM_OFF_IRQ

text \<open>The status is compared as a number.\<close>

fun dpm_rank :: "dpm_status \<Rightarrow> nat" where
  "dpm_rank DPM_INVALID = 0"
| "dpm_rank DPM_ON = 1"
| "dpm_rank DPM_PREPARING = 2"
| "dpm_rank DPM_RESUMING = 3"
| "dpm_rank DPM_SUSPENDING = 4"
| "dpm_rank DPM_OFF = 5"
| "dpm_rank DPM_OFF_IRQ = 6"

instantiation dpm_status :: linorder
begin
definition less_eq_dpm_status where "x \<le> y \<longleftrightarrow> dpm_rank x \<le> dpm_rank y"
definition less_dpm_status where "x < y \<longleftrightarrow> dpm_rank x < dpm_rank y"
instance
proof
  fix x y :: dpm_status
  show "x \<le> y \<Longrightarrow> y \<le> x \<Longrightarrow> x = y" by (cases x; cases y) (simp_all add: less_eq_dpm_status_def)
qed (auto simp: less_eq_dpm_status_def less_dpm_status_def)
end

datatype pm_event = PM_EVENT_ON | PM_EVENT_FREEZE | PM_EVENT_SUSPEND | PM_EVENT_HIBERNATE | PM_EVENT_QUIESCE
  | PM_EVENT_RESUME | PM_EVENT_THAW | PM_EVENT_RESTORE | PM_EVENT_RECOVER

text \<open>The callbacks of a bus, a type or a class that are not \<open>NULL\<close>.\<close>

record dev_pm_ops =
  op_prepare :: bool
  op_complete :: bool
  op_suspend :: bool
  op_resume :: bool
  op_suspend_noirq :: bool
  op_resume_noirq :: bool

record pm_layer =
  layer_pm :: "dev_pm_ops option"
  legacy_suspend :: bool
  legacy_resume :: bool

record device =
  dev_bus :: "pm_layer option"
  dev_type :: "pm_layer option"
  dev_class :: "pm_layer option"
  dev_parent :: "addr option"

datatype layer = Bus | Type | Class
datatype dev_op = Prepare | Suspend | Suspend_noirq | Resume_noirq | Resume | Complete

record dpm =
  dpm_list :: "addr list"
  dev_status :: "addr \<Rightarrow> dpm_status"
  device :: "addr \<Rightarrow> device"
  transition_started :: bool
  irqs_suspended :: bool
  callbacks :: "(addr \<times> layer \<times> dev_op) list"
  dev_trace :: "(addr \<times> dev_op \<times> errno option) list"

type_synonym dev_env = "nat \<Rightarrow> addr \<Rightarrow> layer \<Rightarrow> dev_op \<Rightarrow> errno option"

definition set_status :: "addr \<Rightarrow> dpm_status \<Rightarrow> dpm \<Rightarrow> dpm" where
  "set_status d st s = s\<lparr>dev_status := (dev_status s)(d := st)\<rparr>"

definition call_op :: "dev_env \<Rightarrow> addr \<Rightarrow> layer \<Rightarrow> dev_op \<Rightarrow> dpm \<Rightarrow> errno option \<times> dpm" where
  "call_op env d k op s = (env (length (callbacks s)) d k op, s\<lparr>callbacks := callbacks s @ [(d, k, op)]\<rparr>)"

text \<open>The next layer of an operation, unless there was an error.\<close>

definition and_then :: "errno option \<times> dpm \<Rightarrow> (dpm \<Rightarrow> errno option \<times> dpm) \<Rightarrow> errno option \<times> dpm" where
  "and_then r f = (case r of (Some e, s) \<Rightarrow> (Some e, s) | (None, s) \<Rightarrow> f s)"

definition done_op :: "addr \<Rightarrow> dev_op \<Rightarrow> errno option \<times> dpm \<Rightarrow> errno option \<times> dpm" where
  "done_op d op r = (case r of (e, s) \<Rightarrow> (e, s\<lparr>dev_trace := dev_trace s @ [(d, op, e)]\<rparr>))"

subsection \<open>The list\<close>

definition device_pm_init :: "addr \<Rightarrow> dpm \<Rightarrow> dpm" where
  "device_pm_init d s = set_status d DPM_ON s"

definition device_pm_add :: "addr \<Rightarrow> dpm \<Rightarrow> dpm" where
  "device_pm_add d s = s\<lparr>dpm_list := dpm_list s @ [d]\<rparr>"

definition device_pm_remove :: "addr \<Rightarrow> dpm \<Rightarrow> dpm" where
  "device_pm_remove d s = s\<lparr>dpm_list := remove1 d (dpm_list s)\<rparr>"

fun insert_before :: "'a \<Rightarrow> 'a \<Rightarrow> 'a list \<Rightarrow> 'a list" where
  "insert_before x y [] = []"
| "insert_before x y (z # zs) = (if z = y then x # z # zs else z # insert_before x y zs)"

fun insert_after :: "'a \<Rightarrow> 'a \<Rightarrow> 'a list \<Rightarrow> 'a list" where
  "insert_after x y [] = []"
| "insert_after x y (z # zs) = (if z = y then z # x # zs else z # insert_after x y zs)"

definition device_pm_move_before :: "addr \<Rightarrow> addr \<Rightarrow> dpm \<Rightarrow> dpm" where
  "device_pm_move_before a b s = s\<lparr>dpm_list := insert_before a b (remove1 a (dpm_list s))\<rparr>"

definition device_pm_move_after :: "addr \<Rightarrow> addr \<Rightarrow> dpm \<Rightarrow> dpm" where
  "device_pm_move_after a b s = s\<lparr>dpm_list := insert_after a b (remove1 a (dpm_list s))\<rparr>"

definition device_pm_move_last :: "addr \<Rightarrow> dpm \<Rightarrow> dpm" where
  "device_pm_move_last d s = s\<lparr>dpm_list := remove1 d (dpm_list s) @ [d]\<rparr>"

subsection \<open>One device\<close>

definition pm_op :: "dev_env \<Rightarrow> addr \<Rightarrow> layer \<Rightarrow> dev_pm_ops \<Rightarrow> pm_event \<Rightarrow> dpm \<Rightarrow> errno option \<times> dpm" where
  "pm_op env d k ops ev s = (case ev of
       PM_EVENT_SUSPEND \<Rightarrow> if op_suspend ops then call_op env d k Suspend s else (None, s)
     | PM_EVENT_RESUME \<Rightarrow> if op_resume ops then call_op env d k Resume s else (None, s)
     | _ \<Rightarrow> (Some EINVAL, s))"

definition pm_noirq_op :: "dev_env \<Rightarrow> addr \<Rightarrow> layer \<Rightarrow> dev_pm_ops \<Rightarrow> pm_event \<Rightarrow> dpm \<Rightarrow> errno option \<times> dpm" where
  "pm_noirq_op env d k ops ev s = (case ev of
       PM_EVENT_SUSPEND \<Rightarrow> if op_suspend_noirq ops then call_op env d k Suspend_noirq s else (None, s)
     | PM_EVENT_RESUME \<Rightarrow> if op_resume_noirq ops then call_op env d k Resume_noirq s else (None, s)
     | _ \<Rightarrow> (Some EINVAL, s))"

text \<open>The noirq operations, which only the bus has.\<close>

definition bus_noirq :: "dev_env \<Rightarrow> addr \<Rightarrow> pm_event \<Rightarrow> dpm \<Rightarrow> errno option \<times> dpm" where
  "bus_noirq env d ev s = (case dev_bus (device s d) of None \<Rightarrow> (None, s)
     | Some b \<Rightarrow> (case layer_pm b of Some ops \<Rightarrow> pm_noirq_op env d Bus ops ev s | None \<Rightarrow> (None, s)))"

definition device_resume_noirq :: "dev_env \<Rightarrow> addr \<Rightarrow> pm_event \<Rightarrow> dpm \<Rightarrow> errno option \<times> dpm" where
  "device_resume_noirq env d ev s = done_op d Resume_noirq (bus_noirq env d ev s)"

definition device_suspend_noirq :: "dev_env \<Rightarrow> addr \<Rightarrow> pm_event \<Rightarrow> dpm \<Rightarrow> errno option \<times> dpm" where
  "device_suspend_noirq env d ev s = done_op d Suspend_noirq (bus_noirq env d ev s)"

text \<open>A layer with its operations, or its legacy callback (which a type does not have).\<close>

definition layer_op :: "dev_env \<Rightarrow> addr \<Rightarrow> layer \<Rightarrow> pm_layer option \<Rightarrow> (pm_layer \<Rightarrow> bool) \<Rightarrow> dev_op \<Rightarrow> pm_event \<Rightarrow> dpm \<Rightarrow> errno option \<times> dpm" where
  "layer_op env d k L legacy op ev s = (case L of None \<Rightarrow> (None, s)
     | Some l \<Rightarrow> (case layer_pm l of Some ops \<Rightarrow> pm_op env d k ops ev s
                  | None \<Rightarrow> if k \<noteq> Type \<and> legacy l then call_op env d k op s else (None, s)))"

definition device_resume :: "dev_env \<Rightarrow> addr \<Rightarrow> pm_event \<Rightarrow> dpm \<Rightarrow> errno option \<times> dpm" where
  "device_resume env d ev s =
     done_op d Resume
      (and_then (and_then (layer_op env d Bus (dev_bus (device s d)) legacy_resume Resume ev s)
        (layer_op env d Type (dev_type (device s d)) legacy_resume Resume ev))
        (layer_op env d Class (dev_class (device s d)) legacy_resume Resume ev))"

definition device_suspend :: "dev_env \<Rightarrow> addr \<Rightarrow> pm_event \<Rightarrow> dpm \<Rightarrow> errno option \<times> dpm" where
  "device_suspend env d ev s =
     done_op d Suspend
      (and_then (and_then (layer_op env d Class (dev_class (device s d)) legacy_suspend Suspend ev s)
        (layer_op env d Type (dev_type (device s d)) legacy_suspend Suspend ev))
        (layer_op env d Bus (dev_bus (device s d)) legacy_suspend Suspend ev))"

text \<open>Prepare and complete, which only the operations of a layer have.\<close>

definition layer_call :: "dev_env \<Rightarrow> addr \<Rightarrow> layer \<Rightarrow> pm_layer option \<Rightarrow> (dev_pm_ops \<Rightarrow> bool) \<Rightarrow> dev_op \<Rightarrow> dpm \<Rightarrow> errno option \<times> dpm" where
  "layer_call env d k L has op s = (case L of None \<Rightarrow> (None, s)
     | Some l \<Rightarrow> (case layer_pm l of Some ops \<Rightarrow> if has ops then call_op env d k op s else (None, s) | None \<Rightarrow> (None, s)))"

definition device_prepare :: "dev_env \<Rightarrow> addr \<Rightarrow> dpm \<Rightarrow> errno option \<times> dpm" where
  "device_prepare env d s =
     done_op d Prepare
      (and_then (and_then (layer_call env d Bus (dev_bus (device s d)) op_prepare Prepare s)
        (layer_call env d Type (dev_type (device s d)) op_prepare Prepare))
        (layer_call env d Class (dev_class (device s d)) op_prepare Prepare))"

definition device_complete :: "dev_env \<Rightarrow> addr \<Rightarrow> dpm \<Rightarrow> dpm" where
  "device_complete env d s =
     (let s1 = snd (layer_call env d Class (dev_class (device s d)) op_complete Complete s);
          s2 = snd (layer_call env d Type (dev_type (device s d)) op_complete Complete s1);
          s3 = snd (layer_call env d Bus (dev_bus (device s d)) op_complete Complete s2)
      in snd (done_op d Complete (None, s3)))"

text \<open>The operations on one device call callbacks and nothing else.\<close>

definition calls_only :: "dpm \<Rightarrow> dpm \<Rightarrow> bool" where
  "calls_only s t \<longleftrightarrow> dpm_list t = dpm_list s \<and> dev_status t = dev_status s \<and> device t = device s
     \<and> transition_started t = transition_started s \<and> irqs_suspended t = irqs_suspended s
     \<and> length (callbacks s) \<le> length (callbacks t)"

lemma calls_only_refl [simp]: "calls_only s s" by (simp add: calls_only_def)

lemma calls_only_trans: "calls_only s t \<Longrightarrow> calls_only t u \<Longrightarrow> calls_only s u" by (simp add: calls_only_def)

lemma calls_only_call: "calls_only s (snd (call_op env d k op s))" by (simp add: call_op_def calls_only_def)

lemma calls_only_layer:
  "calls_only s (snd (layer_op env d k L legacy op ev s))" "calls_only s (snd (layer_call env d k L has op s))"
  "calls_only s (snd (bus_noirq env d ev s))"
  by (auto simp: layer_op_def layer_call_def bus_noirq_def pm_op_def pm_noirq_op_def calls_only_call
      split: option.split pm_event.split)

lemma calls_only_then:
  assumes "calls_only s (snd r)" "\<And>t. calls_only t (snd (f t))"
  shows "calls_only s (snd (and_then r f))"
  using assms calls_only_trans by (auto simp: and_then_def split: prod.splits option.splits)

text \<open>An operation on one device: its error, and a state that differs in the calls and the new entry of the trace.\<close>

definition one_op :: "addr \<Rightarrow> dev_op \<Rightarrow> dpm \<Rightarrow> errno option \<times> dpm \<Rightarrow> bool" where
  "one_op d op s r \<longleftrightarrow> calls_only s (snd r) \<and> dev_trace (snd r) = dev_trace s @ [(d, op, fst r)]"

lemma same_trace:
  "dev_trace (snd (layer_op env d k L legacy op ev s)) = dev_trace s" "dev_trace (snd (layer_call env d k L has op s)) = dev_trace s"
  "dev_trace (snd (bus_noirq env d ev s)) = dev_trace s"
  by (auto simp: layer_op_def layer_call_def bus_noirq_def pm_op_def pm_noirq_op_def call_op_def
      split: option.split pm_event.split)

lemma same_trace_then:
  assumes "dev_trace (snd r) = x" "\<And>t. dev_trace (snd (f t)) = dev_trace t"
  shows "dev_trace (snd (and_then r f)) = x"
  using assms by (auto simp: and_then_def split: prod.splits option.splits)

lemma one_op_done:
  assumes "calls_only s (snd r)" "dev_trace (snd r) = dev_trace s"
  shows "one_op d op s (done_op d op r)"
  using assms by (cases r) (auto simp: one_op_def done_op_def calls_only_def)

lemma one_op:
  "one_op d Suspend s (device_suspend env d ev s)" "one_op d Resume s (device_resume env d ev s)"
  "one_op d Prepare s (device_prepare env d s)"
  "one_op d Suspend_noirq s (device_suspend_noirq env d ev s)" "one_op d Resume_noirq s (device_resume_noirq env d ev s)"
  "one_op d Complete s (None, device_complete env d s)"
proof -
  show "one_op d Suspend s (device_suspend env d ev s)" "one_op d Resume s (device_resume env d ev s)"
    "one_op d Prepare s (device_prepare env d s)"
    unfolding device_suspend_def device_resume_def device_prepare_def
    by (rule one_op_done; (intro calls_only_then calls_only_layer same_trace_then same_trace)?)+
  show "one_op d Suspend_noirq s (device_suspend_noirq env d ev s)" "one_op d Resume_noirq s (device_resume_noirq env d ev s)"
    unfolding device_suspend_noirq_def device_resume_noirq_def
    by (rule one_op_done; (intro calls_only_layer same_trace)?)+
  have c: "calls_only s (snd (layer_call env d k L has op t))" if "calls_only s t" for k L has op t
    using calls_only_trans [OF that calls_only_layer(2)] .
  let ?s3 = "snd (layer_call env d Bus (dev_bus (device s d)) op_complete Complete
     (snd (layer_call env d Type (dev_type (device s d)) op_complete Complete
       (snd (layer_call env d Class (dev_class (device s d)) op_complete Complete s)))))"
  have "one_op d Complete s (done_op d Complete (None, ?s3))"
    by (rule one_op_done) (simp_all add: c same_trace)
  then show "one_op d Complete s (None, device_complete env d s)"
    by (simp add: device_complete_def Let_def done_op_def)
qed

lemma one_opD:
  assumes "one_op d op s (e, t)"
  shows "dpm_list t = dpm_list s" "dev_status t = dev_status s" "device t = device s"
    "transition_started t = transition_started s" "irqs_suspended t = irqs_suspended s"
    "dev_trace t = dev_trace s @ [(d, op, e)]"
  using assms by (auto simp: one_op_def calls_only_def)

lemma list_kept [simp]:
  "dpm_list (snd (device_suspend env d ev s)) = dpm_list s" "dpm_list (snd (device_resume env d ev s)) = dpm_list s"
  "dpm_list (device_complete env d s) = dpm_list s"
  using one_op(1) [of d s env ev] one_op(2) [of d s env ev] one_op(6) [of d s env] by (auto simp: one_op_def calls_only_def)

lemma set_status_list [simp]: "dpm_list (set_status d st s) = dpm_list s" by (simp add: set_status_def)

subsection \<open>The loops\<close>

fun dpm_resume_noirq_loop :: "dev_env \<Rightarrow> pm_event \<Rightarrow> addr list \<Rightarrow> dpm \<Rightarrow> dpm" where
  "dpm_resume_noirq_loop env ev [] s = s"
| "dpm_resume_noirq_loop env ev (d # ds) s =
     dpm_resume_noirq_loop env ev ds
       (if dev_status s d > DPM_OFF then snd (device_resume_noirq env d ev (set_status d DPM_OFF s)) else s)"

definition dpm_resume_noirq :: "dev_env \<Rightarrow> pm_event \<Rightarrow> dpm \<Rightarrow> dpm" where
  "dpm_resume_noirq env ev s =
     (dpm_resume_noirq_loop env ev (dpm_list s) (s\<lparr>transition_started := False\<rparr>))\<lparr>irqs_suspended := False\<rparr>"

function dpm_resume_loop :: "dev_env \<Rightarrow> pm_event \<Rightarrow> addr list \<Rightarrow> dpm \<Rightarrow> addr list \<times> dpm" where
  "dpm_resume_loop env ev list s =
     (if dpm_list s = [] then (list, s)
      else (let d = hd (dpm_list s);
                s1 = (if dev_status s d \<ge> DPM_OFF then snd (device_resume env d ev (set_status d DPM_RESUMING s))
                      else if dev_status s d = DPM_SUSPENDING then set_status d DPM_RESUMING s
                      else s)
            in dpm_resume_loop env ev (list @ [d]) (s1\<lparr>dpm_list := tl (dpm_list s1)\<rparr>)))"
  by pat_completeness auto
termination
  by (relation "measure (\<lambda>(env, ev, list, s). length (dpm_list s))") auto

definition dpm_resume :: "dev_env \<Rightarrow> pm_event \<Rightarrow> dpm \<Rightarrow> dpm" where
  "dpm_resume env ev s = (let (list, s1) = dpm_resume_loop env ev [] s in s1\<lparr>dpm_list := list @ dpm_list s1\<rparr>)"

function dpm_complete_loop :: "dev_env \<Rightarrow> addr list \<Rightarrow> dpm \<Rightarrow> addr list \<times> dpm" where
  "dpm_complete_loop env list s =
     (if dpm_list s = [] then (list, s)
      else (let d = last (dpm_list s);
                s1 = (if dev_status s d > DPM_ON then device_complete env d (set_status d DPM_ON s) else s)
            in dpm_complete_loop env (d # list) (s1\<lparr>dpm_list := butlast (dpm_list s1)\<rparr>)))"
  by pat_completeness auto
termination
  by (relation "measure (\<lambda>(env, list, s). length (dpm_list s))") auto

definition dpm_complete :: "dev_env \<Rightarrow> dpm \<Rightarrow> dpm" where
  "dpm_complete env s =
     (let (list, s1) = dpm_complete_loop env [] (s\<lparr>transition_started := False\<rparr>) in s1\<lparr>dpm_list := list @ dpm_list s1\<rparr>)"

definition dpm_resume_end :: "dev_env \<Rightarrow> pm_event \<Rightarrow> dpm \<Rightarrow> dpm" where
  "dpm_resume_end env ev s = dpm_complete env (dpm_resume env ev s)"

fun resume_event :: "pm_event \<Rightarrow> pm_event" where
  "resume_event PM_EVENT_SUSPEND = PM_EVENT_RESUME"
| "resume_event PM_EVENT_FREEZE = PM_EVENT_RECOVER"
| "resume_event PM_EVENT_QUIESCE = PM_EVENT_RECOVER"
| "resume_event PM_EVENT_HIBERNATE = PM_EVENT_RESTORE"
| "resume_event _ = PM_EVENT_ON"

fun dpm_suspend_noirq_loop :: "dev_env \<Rightarrow> pm_event \<Rightarrow> addr list \<Rightarrow> dpm \<Rightarrow> errno option \<times> dpm" where
  "dpm_suspend_noirq_loop env ev [] s = (None, s)"
| "dpm_suspend_noirq_loop env ev (d # ds) s =
     (case device_suspend_noirq env d ev s of
        (Some e, s1) \<Rightarrow> (Some e, s1)
      | (None, s1) \<Rightarrow> dpm_suspend_noirq_loop env ev ds (set_status d DPM_OFF_IRQ s1))"

definition dpm_suspend_noirq :: "dev_env \<Rightarrow> pm_event \<Rightarrow> dpm \<Rightarrow> errno option \<times> dpm" where
  "dpm_suspend_noirq env ev s =
     (let (error, s1) = dpm_suspend_noirq_loop env ev (rev (dpm_list s)) (s\<lparr>irqs_suspended := True\<rparr>)
      in (error, if error \<noteq> None then dpm_resume_noirq env (resume_event ev) s1 else s1))"

function dpm_suspend_loop :: "dev_env \<Rightarrow> pm_event \<Rightarrow> addr list \<Rightarrow> dpm \<Rightarrow> errno option \<times> addr list \<times> dpm" where
  "dpm_suspend_loop env ev list s =
     (if dpm_list s = [] then (None, list, s)
      else (let d = last (dpm_list s); r = device_suspend env d ev s; s1 = snd r
            in case fst r of
                 Some e \<Rightarrow> (Some e, list, s1)
               | None \<Rightarrow> dpm_suspend_loop env ev (d # list) ((set_status d DPM_OFF s1)\<lparr>dpm_list := butlast (dpm_list s1)\<rparr>)))"
  by pat_completeness auto
termination
  by (relation "measure (\<lambda>(env, ev, list, s). length (dpm_list s))") auto

definition dpm_suspend :: "dev_env \<Rightarrow> pm_event \<Rightarrow> dpm \<Rightarrow> errno option \<times> dpm" where
  "dpm_suspend env ev s =
     (let (error, list, s1) = dpm_suspend_loop env ev [] s in (error, s1\<lparr>dpm_list := dpm_list s1 @ list\<rparr>))"

text \<open>A \<open>prepare\<close> callback that fails with \<open>EAGAIN\<close> is called again, without a bound.\<close>

partial_function (option) dpm_prepare_loop :: "dev_env \<Rightarrow> addr list \<Rightarrow> dpm \<Rightarrow> (errno option \<times> addr list \<times> dpm) option" where
  "dpm_prepare_loop env list s =
     (if dpm_list s = [] then Some (None, list, s)
      else (let d = hd (dpm_list s);
                r = device_prepare env d (set_status d DPM_PREPARING s);
                s1 = snd r
            in case fst r of
                 Some e \<Rightarrow> (if e = EAGAIN then dpm_prepare_loop env list (set_status d DPM_ON s1)
                            else Some (Some e, list, set_status d DPM_ON s1))
               | None \<Rightarrow> dpm_prepare_loop env (list @ [d]) ((set_status d DPM_SUSPENDING s1)\<lparr>dpm_list := tl (dpm_list s1)\<rparr>)))"

declare dpm_prepare_loop.simps [code]

definition dpm_prepare :: "dev_env \<Rightarrow> dpm \<Rightarrow> (errno option \<times> dpm) option" where
  "dpm_prepare env s =
     map_option (\<lambda>(error, list, s1). (error, s1\<lparr>dpm_list := list @ dpm_list s1\<rparr>))
       (dpm_prepare_loop env [] (s\<lparr>transition_started := True\<rparr>))"

definition dpm_suspend_start :: "dev_env \<Rightarrow> pm_event \<Rightarrow> dpm \<Rightarrow> (errno option \<times> dpm) option" where
  "dpm_suspend_start env ev s =
     map_option (\<lambda>(error, s1). if error = None then dpm_suspend env ev s1 else (error, s1)) (dpm_prepare env s)"

declare dpm_resume_loop.simps [simp del] dpm_complete_loop.simps [simp del] dpm_suspend_loop.simps [simp del]

section \<open>What the loops do\<close>

definition rest_same :: "dpm \<Rightarrow> dpm \<Rightarrow> bool" where
  "rest_same s t \<longleftrightarrow> device t = device s \<and> transition_started t = transition_started s \<and> irqs_suspended t = irqs_suspended s"

lemma rest_same_trans: "rest_same s t \<Longrightarrow> rest_same t u \<Longrightarrow> rest_same s u" by (simp add: rest_same_def)

lemma rest_same_upd [simp]:
  "rest_same s (t\<lparr>dpm_list := ds\<rparr>) = rest_same s t" "rest_same s (set_status d st t) = rest_same s t"
  "rest_same (s\<lparr>dpm_list := ds\<rparr>) t = rest_same s t" "rest_same (set_status d st s) t = rest_same s t" "rest_same s s"
  by (simp_all add: rest_same_def set_status_def)

lemma one_op_rest: "one_op d op s r \<Longrightarrow> rest_same s (snd r)"
  by (simp add: one_op_def calls_only_def rest_same_def)

lemma set_status_fields [simp]:
  "dev_status (set_status d st s) = (dev_status s)(d := st)" "dev_trace (set_status d st s) = dev_trace s"
  by (simp_all add: set_status_def)

text \<open>The devices of an operation in a trace, and those where it succeeded.\<close>

definition devs :: "dev_op \<Rightarrow> (addr \<times> dev_op \<times> errno option) list \<Rightarrow> addr list" where
  "devs op t = map fst (filter (\<lambda>(d, o', e). o' = op) t)"

definition devs_ok :: "dev_op \<Rightarrow> (addr \<times> dev_op \<times> errno option) list \<Rightarrow> addr list" where
  "devs_ok op t = map fst (filter (\<lambda>(d, o', e). o' = op \<and> e = None) t)"

lemma devs_simps [simp]:
  "devs op [] = []" "devs op (t @ u) = devs op t @ devs op u" "devs op [(d, o', e)] = (if o' = op then [d] else [])"
  "devs_ok op [] = []" "devs_ok op (t @ u) = devs_ok op t @ devs_ok op u"
  "devs_ok op [(d, o', e)] = (if o' = op \<and> e = None then [d] else [])"
  by (simp_all add: devs_def devs_ok_def)

lemma devs_other:
  assumes "\<forall>(d, o', e)\<in>set t. o' = op'" "op \<noteq> op'"
  shows "devs op t = []" "devs_ok op t = []"
  using assms by (auto simp: devs_def devs_ok_def filter_empty_conv)

text \<open>A phase: it extends the trace by entries of one operation.\<close>

definition phase_of :: "dev_op \<Rightarrow> dpm \<Rightarrow> dpm \<Rightarrow> (addr \<times> dev_op \<times> errno option) list \<Rightarrow> bool" where
  "phase_of op s t u \<longleftrightarrow> dev_trace t = dev_trace s @ u \<and> (\<forall>(d, o', e)\<in>set u. o' = op) \<and> device t = device s"

lemma phase_of_Cons:
  assumes "one_op d op s0 (e, s1)" "dev_trace s0 = dev_trace s" "device s0 = device s" "phase_of op s1' t u"
    "dev_trace s1' = dev_trace s1" "device s1' = device s1"
  shows "phase_of op s t ((d, op, e) # u)"
  using assms one_opD [OF assms(1)] by (auto simp: phase_of_def)

subsection \<open>Suspend\<close>

lemma suspend_loop:
  assumes "dpm_suspend_loop env ev list s = (err, l, t)" "distinct (dpm_list s)"
  shows "\<exists>xs ys u. dpm_list s = xs @ ys \<and> l = ys @ list \<and> dpm_list t = xs \<and> (err = None \<longleftrightarrow> xs = [])
    \<and> dev_status t = (\<lambda>d. if d \<in> set ys then DPM_OFF else dev_status s d)
    \<and> phase_of Suspend s t u \<and> devs_ok Suspend u = rev ys \<and> rest_same s t"
  using assms
proof (induction env ev list s arbitrary: err l t rule: dpm_suspend_loop.induct)
  case (1 env ev list s)
  show ?case
  proof (cases "dpm_list s = []")
    case True
    then have "err = None" "l = list" "t = s" using 1(2) by (simp_all add: dpm_suspend_loop.simps)
    then show ?thesis using True by (intro exI [of _ "[]"]) (simp add: phase_of_def)
  next
    case False
    let ?d = "last (dpm_list s)"
    obtain e s1 where r: "device_suspend env ?d ev s = (e, s1)" by fastforce
    have op: "one_op ?d Suspend s (e, s1)" using one_op(1) [of ?d s env ev] r by simp
    note D = one_opD [OF op]
    show ?thesis
    proof (cases e)
      case (Some a)
      then have "err = Some a" "l = list" "t = s1"
        using 1(2) False r by (simp_all add: dpm_suspend_loop.simps [of env ev list s] Let_def)
      then show ?thesis using False D Some one_op_rest [OF op]
        by (intro exI [of _ "dpm_list s"] exI [of _ "[]"] exI [of _ "[(?d, Suspend, e)]"]) (simp add: phase_of_def)
    next
      case None
      let ?s2 = "(set_status ?d DPM_OFF s1)\<lparr>dpm_list := butlast (dpm_list s1)\<rparr>"
      have rec: "dpm_suspend_loop env ev (?d # list) ?s2 = (err, l, t)"
        using 1(2) False r None by (simp add: dpm_suspend_loop.simps [of env ev list s] Let_def)
      have ds: "dpm_list s = butlast (dpm_list s) @ [?d]" using False by simp
      have dist: "distinct (butlast (dpm_list s))" "?d \<notin> set (butlast (dpm_list s))"
        using 1(3) ds by (metis distinct_butlast, metis distinct_append disjoint_iff list.set_intros(1))
      obtain xs ys u where xy: "butlast (dpm_list s) = xs @ ys" "l = ys @ ?d # list" "dpm_list t = xs"
          "err = None \<longleftrightarrow> xs = []" "dev_status t = (\<lambda>d. if d \<in> set ys then DPM_OFF else dev_status ?s2 d)"
          "phase_of Suspend ?s2 t u" "devs_ok Suspend u = rev ys" "rest_same ?s2 t"
        using 1(1) [of ?d "(e, s1)" s1 err l t] False r None rec dist(1) D(1) by auto
      have "phase_of Suspend s t ((?d, Suspend, e) # u)"
        using phase_of_Cons [OF op _ _ xy(6)] by (simp add: set_status_def)
      moreover have "devs_ok Suspend ((?d, Suspend, e) # u) = rev (ys @ [?d])"
        using xy(7) None devs_simps(5) [of Suspend "[(?d, Suspend, e)]" u] by simp
      moreover have "dev_status t = (\<lambda>d. if d \<in> set (ys @ [?d]) then DPM_OFF else dev_status s d)"
        using xy(5) D(2) by (auto simp: fun_eq_iff)
      moreover have "rest_same s t" using xy(8) one_op_rest [OF op] rest_same_trans by auto
      ultimately show ?thesis using xy(1-4) ds by (metis append.assoc append_Cons append_Nil)
    qed
  qed
qed

lemma dpm_suspend_spec:
  assumes "dpm_suspend env ev s = (err, t)" "distinct (dpm_list s)"
  shows "\<exists>xs ys u. dpm_list s = xs @ ys \<and> dpm_list t = dpm_list s \<and> (err = None \<longleftrightarrow> xs = [])
    \<and> dev_status t = (\<lambda>d. if d \<in> set ys then DPM_OFF else dev_status s d)
    \<and> phase_of Suspend s t u \<and> devs_ok Suspend u = rev ys \<and> rest_same s t"
proof -
  obtain l s1 where l: "dpm_suspend_loop env ev [] s = (err, l, s1)" "t = s1\<lparr>dpm_list := dpm_list s1 @ l\<rparr>"
    using assms(1) by (auto simp: dpm_suspend_def split: prod.splits)
  show ?thesis using suspend_loop [OF l(1) assms(2)] unfolding l(2) by (auto simp: phase_of_def)
qed

subsection \<open>Prepare\<close>

lemma set_status_others [simp]:
  "device (set_status d st s) = device s" "transition_started (set_status d st s) = transition_started s"
  "irqs_suspended (set_status d st s) = irqs_suspended s" "callbacks (set_status d st s) = callbacks s"
  by (simp_all add: set_status_def)

lemma prepare_loop:
  assumes "dpm_prepare_loop env list s = Some r" "distinct (dpm_list s)" "\<forall>d\<in>set (dpm_list s). dev_status s d = DPM_ON"
  shows "\<exists>xs ys u. dpm_list s = xs @ ys \<and> fst (snd r) = list @ xs \<and> dpm_list (snd (snd r)) = ys \<and> (fst r = None \<longleftrightarrow> ys = [])
    \<and> dev_status (snd (snd r)) = (\<lambda>d. if d \<in> set xs then DPM_SUSPENDING else dev_status s d)
    \<and> phase_of Prepare s (snd (snd r)) u \<and> devs_ok Prepare u = xs \<and> rest_same s (snd (snd r))"
  using assms
proof (induction rule: dpm_prepare_loop.raw_induct [rotated, consumes 1])
  case (1 loop env list s r)
  show ?case
  proof (cases "dpm_list s")
    case Nil
    then have "r = (None, list, s)" using 1(2) by simp
    then show ?thesis using Nil by (intro exI [of _ "[]"]) (simp add: phase_of_def)
  next
    case (Cons d ds)
    let ?s0 = "set_status d DPM_PREPARING s"
    obtain e s1 where p: "device_prepare env d ?s0 = (e, s1)" by fastforce
    have op: "one_op d Prepare ?s0 (e, s1)" using one_op(3) [of d ?s0 env] p by simp
    note D = one_opD [OF op]
    have s0: "dev_trace ?s0 = dev_trace s" "device ?s0 = device s" by (simp_all add: set_status_def)
    have on: "(dev_status s)(d := DPM_ON) = dev_status s" using 1(4) Cons by (auto simp: fun_upd_idem)
    let ?s2 = "set_status d DPM_ON s1" and ?s3 = "(set_status d DPM_SUSPENDING s1)\<lparr>dpm_list := tl (dpm_list s1)\<rparr>"
    have r2: "dev_status ?s2 = dev_status s" "rest_same s ?s2" "rest_same s ?s3"
      using D(2) on one_op_rest [OF op] by simp_all
    consider (ok) "e = None" "loop env (list @ [d]) ?s3 = Some r" | (again) "e = Some EAGAIN" "loop env list ?s2 = Some r"
      | (fail) e' where "e = Some e'" "r = (e, list, ?s2)"
      using 1(2) Cons p by (auto simp: Let_def split: option.splits if_splits)
    then show ?thesis
    proof cases
      case ok
      have "dpm_list ?s3 = ds" "distinct ds" "d \<notin> set ds" using D(1) 1(3) Cons by simp_all
      moreover have "\<forall>k\<in>set ds. dev_status ?s3 k = DPM_ON" using D(2) 1(4) Cons \<open>d \<notin> set ds\<close> by auto
      ultimately obtain xs ys u where x: "ds = xs @ ys" "fst (snd r) = (list @ [d]) @ xs" "dpm_list (snd (snd r)) = ys"
          "fst r = None \<longleftrightarrow> ys = []" "dev_status (snd (snd r)) = (\<lambda>k. if k \<in> set xs then DPM_SUSPENDING else dev_status ?s3 k)"
          "phase_of Prepare ?s3 (snd (snd r)) u" "devs_ok Prepare u = xs" "rest_same ?s3 (snd (snd r))"
        using 1(1) [OF ok(2)] by auto
      have "phase_of Prepare s (snd (snd r)) ((d, Prepare, e) # u)"
        using phase_of_Cons [OF op s0 x(6)] by (simp add: set_status_def)
      moreover have "devs_ok Prepare ((d, Prepare, e) # u) = d # xs"
        using x(7) ok(1) devs_simps(5) [of Prepare "[(d, Prepare, e)]" u] by simp
      moreover have "dev_status (snd (snd r)) = (\<lambda>k. if k \<in> set (d # xs) then DPM_SUSPENDING else dev_status s k)"
        using x(5) D(2) by (auto simp: fun_eq_iff)
      moreover have "rest_same s (snd (snd r))" using x(8) r2(3) rest_same_trans by blast
      ultimately show ?thesis using x(1-4) Cons
        by (intro exI [of _ "d # xs"] exI [of _ ys] exI [of _ "(d, Prepare, e) # u"]) simp
    next
      case again
      have l2: "dpm_list ?s2 = dpm_list s" using D(1) by simp
      obtain xs ys u where x: "dpm_list s = xs @ ys" "fst (snd r) = list @ xs" "dpm_list (snd (snd r)) = ys"
          "fst r = None \<longleftrightarrow> ys = []" "dev_status (snd (snd r)) = (\<lambda>k. if k \<in> set xs then DPM_SUSPENDING else dev_status s k)"
          "phase_of Prepare ?s2 (snd (snd r)) u" "devs_ok Prepare u = xs" "rest_same ?s2 (snd (snd r))"
        using 1(1) [OF again(2), unfolded r2(1) l2, OF 1(3,4)] by (elim exE conjE) (rule that)
      have "phase_of Prepare s (snd (snd r)) ((d, Prepare, e) # u)"
        using phase_of_Cons [OF op s0 x(6)] by (simp add: set_status_def)
      moreover have "devs_ok Prepare ((d, Prepare, e) # u) = xs"
        using x(7) again(1) devs_simps(5) [of Prepare "[(d, Prepare, e)]" u] by simp
      moreover have "rest_same s (snd (snd r))" using x(8) r2(2) rest_same_trans by blast
      ultimately show ?thesis using x(1-5)
        by (intro exI [of _ xs] exI [of _ ys] exI [of _ "(d, Prepare, e) # u"] conjI)
    next
      case (fail e')
      then show ?thesis using Cons D r2 s0
        by (intro exI [of _ "[]"] exI [of _ "dpm_list s"] exI [of _ "[(d, Prepare, e)]"]) (simp add: phase_of_def)
    qed
  qed
qed

lemma dpm_prepare_spec:
  assumes "dpm_prepare env s = Some (err, t)" "distinct (dpm_list s)" "\<forall>d\<in>set (dpm_list s). dev_status s d = DPM_ON"
  shows "\<exists>xs ys u. dpm_list s = xs @ ys \<and> dpm_list t = dpm_list s \<and> (err = None \<longleftrightarrow> ys = [])
    \<and> dev_status t = (\<lambda>d. if d \<in> set xs then DPM_SUSPENDING else dev_status s d)
    \<and> phase_of Prepare s t u \<and> devs_ok Prepare u = xs \<and> transition_started t \<and> irqs_suspended t = irqs_suspended s"
proof -
  let ?s = "s\<lparr>transition_started := True\<rparr>"
  obtain l s1 where l: "dpm_prepare_loop env [] ?s = Some (err, l, s1)" "t = s1\<lparr>dpm_list := l @ dpm_list s1\<rparr>"
    using assms(1) by (auto simp: dpm_prepare_def)
  have "phase_of op ?s a b = phase_of op s a b" for op a b by (simp add: phase_of_def)
  moreover have e: "dev_status ?s = dev_status s" "dpm_list ?s = dpm_list s" by simp_all
  ultimately show ?thesis using prepare_loop [OF l(1), unfolded e] assms(2,3) unfolding l(2) by (auto simp: phase_of_def rest_same_def)
qed

text \<open>Preparing the devices ends if the callbacks stop answering \<open>EAGAIN\<close>.\<close>

lemma call_again:
  "fst (layer_call env d k L has op s) = Some EAGAIN \<Longrightarrow>
   snd (layer_call env d k L has op s) = s\<lparr>callbacks := callbacks s @ [(d, k, op)]\<rparr> \<and> env (length (callbacks s)) d k op = Some EAGAIN"
  by (auto simp: layer_call_def call_op_def split: option.splits if_splits)

lemma prepare_again:
  assumes "fst (device_prepare env d s) = Some EAGAIN"
  shows "\<exists>n k. length (callbacks s) \<le> n \<and> n < length (callbacks (snd (device_prepare env d s))) \<and> env n d k Prepare = Some EAGAIN"
proof -
  let ?b = "layer_call env d Bus (dev_bus (device s d)) op_prepare Prepare s"
  let ?t = "layer_call env d Type (dev_type (device s d)) op_prepare Prepare (snd ?b)"
  let ?c = "layer_call env d Class (dev_class (device s d)) op_prepare Prepare (snd ?t)"
  have le: "length (callbacks s) \<le> length (callbacks (snd ?b))" "length (callbacks (snd ?b)) \<le> length (callbacks (snd ?t))"
    using calls_only_layer(2) by (auto simp: calls_only_def)
  have res: "fst (device_prepare env d s) = (if fst ?b \<noteq> None then fst ?b else if fst ?t \<noteq> None then fst ?t else fst ?c)"
    "callbacks (snd (device_prepare env d s)) =
       callbacks (if fst ?b \<noteq> None then snd ?b else if fst ?t \<noteq> None then snd ?t else snd ?c)"
    by (auto simp: device_prepare_def done_op_def and_then_def split: prod.splits option.splits)
  consider "fst ?b = Some EAGAIN" | "fst ?b = None" "fst ?t = Some EAGAIN" | "fst ?b = None" "fst ?t = None" "fst ?c = Some EAGAIN"
    using assms res(1) by (auto split: if_splits)
  then show ?thesis
  proof cases
    case 1 then show ?thesis using call_again [OF 1] res by auto
  next
    case 2
    then show ?thesis using call_again [OF 2(2)] res le
      by (intro exI [of _ "length (callbacks (snd ?b))"] exI [of _ Type]) simp
  next
    case 3
    then show ?thesis using call_again [OF 3(3)] res le
      by (intro exI [of _ "length (callbacks (snd ?t))"] exI [of _ Class]) simp
  qed
qed

lemma prepare_loop_terminates:
  assumes "\<forall>n\<ge>N. \<forall>d k. env n d k Prepare \<noteq> Some EAGAIN"
  shows "\<exists>r. dpm_prepare_loop env list s = Some r"
proof (induction "(length (dpm_list s), N - length (callbacks s))" arbitrary: list s rule: wf_induct_rule [OF wf_lex_prod [OF wf_less wf_less]])
  case 1
  show ?case
  proof (cases "dpm_list s")
    case Nil
    then show ?thesis by (simp add: dpm_prepare_loop.simps)
  next
    case (Cons d ds)
    let ?s0 = "set_status d DPM_PREPARING s"
    let ?r = "device_prepare env d ?s0"
    have op: "calls_only ?s0 (snd ?r)" using one_op(3) [of d ?s0 env] by (simp add: one_op_def)
    have l: "dpm_list (snd ?r) = dpm_list s" using op by (simp add: calls_only_def)
    consider "fst ?r = None" | "fst ?r = Some EAGAIN" | e where "fst ?r = Some e" "e \<noteq> EAGAIN" by fastforce
    then show ?thesis
    proof cases
      case a: 1
      let ?s3 = "(set_status d DPM_SUSPENDING (snd ?r))\<lparr>dpm_list := tl (dpm_list (snd ?r))\<rparr>"
      have "\<exists>r. dpm_prepare_loop env (list @ [d]) ?s3 = Some r"
        by (rule 1) (use l Cons in simp)
      then show ?thesis using a Cons by (simp add: dpm_prepare_loop.simps [of env list s] Let_def)
    next
      case a: 2
      let ?s2 = "set_status d DPM_ON (snd ?r)"
      obtain n k where n: "length (callbacks s) \<le> n" "n < length (callbacks (snd ?r))" "env n d k Prepare = Some EAGAIN"
        using prepare_again [OF a] by (auto simp: set_status_def)
      moreover have "n < N" using assms n(3) by (metis leI)
      ultimately have "N - length (callbacks ?s2) < N - length (callbacks s)" by (simp add: set_status_def)
      then have "\<exists>r. dpm_prepare_loop env list ?s2 = Some r"
        by (intro 1) (use l in simp)
      then show ?thesis using a Cons by (simp add: dpm_prepare_loop.simps [of env list s] Let_def)
    next
      case (3 e)
      then show ?thesis using Cons by (simp add: dpm_prepare_loop.simps [of env list s] Let_def)
    qed
  qed
qed

subsection \<open>Resume and complete\<close>

lemma devs_Cons [simp]: "devs op ((d, o', e) # u) = (if o' = op then d # devs op u else devs op u)"
  by (simp add: devs_def)

lemma resume_loop:
  assumes "distinct (dpm_list s)"
  shows "\<exists>t u. dpm_resume_loop env ev list s = (list @ dpm_list s, t) \<and> dpm_list t = []
    \<and> (\<forall>d. dev_status t d = (if d \<in> set (dpm_list s) \<and> DPM_SUSPENDING \<le> dev_status s d then DPM_RESUMING else dev_status s d))
    \<and> phase_of Resume s t u \<and> devs Resume u = filter (\<lambda>d. DPM_OFF \<le> dev_status s d) (dpm_list s) \<and> rest_same s t"
  using assms
proof (induction "dpm_list s" arbitrary: list s)
  case Nil
  then show ?case by (intro exI [of _ s] exI [of _ "[]"]) (simp add: dpm_resume_loop.simps phase_of_def)
next
  case (Cons d ds)
  note dl = Cons.hyps(2) [symmetric]
  let ?s0 = "set_status d DPM_RESUMING s"
  obtain e s1 where r: "device_resume env d ev ?s0 = (e, s1)" by fastforce
  have op: "one_op d Resume ?s0 (e, s1)" using one_op(2) [of d ?s0 env ev] r by simp
  note D = one_opD [OF op]
  let ?s2 = "if DPM_OFF \<le> dev_status s d then s1 else if dev_status s d = DPM_SUSPENDING then ?s0 else s"
  let ?s3 = "?s2\<lparr>dpm_list := ds\<rparr>"
  have s2: "dpm_list ?s2 = d # ds" "rest_same s ?s2" "device ?s2 = device s" using D(1,3) dl one_op_rest [OF op] by simp_all
  have d: "d \<notin> set ds" "distinct ds" using Cons.prems dl by simp_all
  have step: "dpm_resume_loop env ev list s = dpm_resume_loop env ev (list @ [d]) ?s3"
    using D(1) by (subst dpm_resume_loop.simps) (simp add: dl Let_def r)
  have st3: "dev_status ?s3 d = (if DPM_SUSPENDING \<le> dev_status s d then DPM_RESUMING else dev_status s d)"
    "k \<noteq> d \<Longrightarrow> dev_status ?s3 k = dev_status s k" for k
    using D(2) by (cases "dev_status s d"; simp add: less_eq_dpm_status_def)+
  obtain t u where t: "dpm_resume_loop env ev (list @ [d]) ?s3 = ((list @ [d]) @ ds, t)" "dpm_list t = []"
      "\<forall>k. dev_status t k = (if k \<in> set ds \<and> DPM_SUSPENDING \<le> dev_status ?s3 k then DPM_RESUMING else dev_status ?s3 k)"
      "phase_of Resume ?s3 t u" "devs Resume u = filter (\<lambda>k. DPM_OFF \<le> dev_status ?s3 k) ds" "rest_same ?s3 t"
    using Cons.hyps(1) [of ?s3 "list @ [d]"] d(2) by auto
  let ?u = "if DPM_OFF \<le> dev_status s d then (d, Resume, e) # u else u"
  have "phase_of Resume s t ?u" using t(4) D(3,6) by (auto simp: phase_of_def)
  moreover have "devs Resume ?u = filter (\<lambda>k. DPM_OFF \<le> dev_status s k) (d # ds)"
  proof -
    have "filter (\<lambda>k. DPM_OFF \<le> dev_status ?s3 k) ds = filter (\<lambda>k. DPM_OFF \<le> dev_status s k) ds"
      by (rule filter_cong) (use st3(2) d(1) in metis)+
    then show ?thesis using t(5) by simp
  qed
  moreover have "\<forall>k. dev_status t k = (if k \<in> set (d # ds) \<and> DPM_SUSPENDING \<le> dev_status s k then DPM_RESUMING else dev_status s k)"
  proof
    fix k show "dev_status t k = (if k \<in> set (d # ds) \<and> DPM_SUSPENDING \<le> dev_status s k then DPM_RESUMING else dev_status s k)"
      using t(3) [rule_format, of k] st3(1) st3(2) [of k] d(1) by (cases "k = d") simp_all
  qed
  moreover have "rest_same s t" using t(6) rest_same_trans [OF s2(2), of t] by simp
  moreover have "dpm_resume_loop env ev list s = (list @ (d # ds), t)" unfolding step using t(1) by simp
  ultimately show ?case using t(2) unfolding dl by (intro exI [of _ t] exI [of _ ?u] conjI)
qed

lemma dpm_resume_spec:
  assumes "distinct (dpm_list s)"
  shows "\<exists>u. dpm_list (dpm_resume env ev s) = dpm_list s
    \<and> (\<forall>d. dev_status (dpm_resume env ev s) d =
         (if d \<in> set (dpm_list s) \<and> DPM_SUSPENDING \<le> dev_status s d then DPM_RESUMING else dev_status s d))
    \<and> phase_of Resume s (dpm_resume env ev s) u \<and> devs Resume u = filter (\<lambda>d. DPM_OFF \<le> dev_status s d) (dpm_list s)
    \<and> rest_same s (dpm_resume env ev s)"
proof -
  obtain t u where t: "dpm_resume_loop env ev [] s = (dpm_list s, t)" "dpm_list t = []"
    "\<forall>d. dev_status t d = (if d \<in> set (dpm_list s) \<and> DPM_SUSPENDING \<le> dev_status s d then DPM_RESUMING else dev_status s d)"
    "phase_of Resume s t u" "devs Resume u = filter (\<lambda>d. DPM_OFF \<le> dev_status s d) (dpm_list s)" "rest_same s t"
    using resume_loop [OF assms, of env ev "[]"] by auto
  have "dpm_resume env ev s = t\<lparr>dpm_list := dpm_list s\<rparr>" using t(1,2) by (simp add: dpm_resume_def)
  then show ?thesis using t(3-6) by (intro exI [of _ u]) (simp add: phase_of_def)
qed

lemma complete_loop:
  assumes "distinct (dpm_list s)"
  shows "\<exists>t u. dpm_complete_loop env list s = (dpm_list s @ list, t) \<and> dpm_list t = []
    \<and> (\<forall>d. dev_status t d = (if d \<in> set (dpm_list s) \<and> DPM_ON < dev_status s d then DPM_ON else dev_status s d))
    \<and> phase_of Complete s t u \<and> devs Complete u = rev (filter (\<lambda>d. DPM_ON < dev_status s d) (dpm_list s)) \<and> rest_same s t"
  using assms
proof (induction "dpm_list s" arbitrary: list s rule: rev_induct)
  case Nil
  then show ?case by (intro exI [of _ s] exI [of _ "[]"]) (simp add: dpm_complete_loop.simps phase_of_def)
next
  case (snoc d ds)
  note dl = snoc.hyps(2) [symmetric]
  let ?s0 = "set_status d DPM_ON s"
  let ?s1 = "device_complete env d ?s0"
  have op: "one_op d Complete ?s0 (None, ?s1)" by (rule one_op(6))
  note D = one_opD [OF op]
  let ?s2 = "if DPM_ON < dev_status s d then ?s1 else s"
  let ?s3 = "?s2\<lparr>dpm_list := ds\<rparr>"
  have s2: "dpm_list ?s2 = ds @ [d]" "rest_same s ?s2" "device ?s2 = device s" using D(1,3) dl one_op_rest [OF op] by simp_all
  have d: "d \<notin> set ds" "distinct ds" using snoc.prems dl by simp_all
  have step: "dpm_complete_loop env list s = dpm_complete_loop env (d # list) ?s3"
    using D(1) by (subst dpm_complete_loop.simps) (simp add: dl Let_def)
  have st3: "dev_status ?s3 d = (if DPM_ON < dev_status s d then DPM_ON else dev_status s d)"
    "k \<noteq> d \<Longrightarrow> dev_status ?s3 k = dev_status s k" for k
    using D(2) by simp_all
  obtain t u where t: "dpm_complete_loop env (d # list) ?s3 = (ds @ d # list, t)" "dpm_list t = []"
      "\<forall>k. dev_status t k = (if k \<in> set ds \<and> DPM_ON < dev_status ?s3 k then DPM_ON else dev_status ?s3 k)"
      "phase_of Complete ?s3 t u" "devs Complete u = rev (filter (\<lambda>k. DPM_ON < dev_status ?s3 k) ds)" "rest_same ?s3 t"
    using snoc.hyps(1) [of ?s3 "d # list"] d(2) by auto
  let ?u = "if DPM_ON < dev_status s d then (d, Complete, None) # u else u"
  have "phase_of Complete s t ?u" using t(4) D(3,6) by (auto simp: phase_of_def)
  moreover have "devs Complete ?u = rev (filter (\<lambda>k. DPM_ON < dev_status s k) (ds @ [d]))"
  proof -
    have "filter (\<lambda>k. DPM_ON < dev_status ?s3 k) ds = filter (\<lambda>k. DPM_ON < dev_status s k) ds"
      by (rule filter_cong) (use st3(2) d(1) in metis)+
    then show ?thesis using t(5) by simp
  qed
  moreover have "\<forall>k. dev_status t k = (if k \<in> set (ds @ [d]) \<and> DPM_ON < dev_status s k then DPM_ON else dev_status s k)"
  proof
    fix k show "dev_status t k = (if k \<in> set (ds @ [d]) \<and> DPM_ON < dev_status s k then DPM_ON else dev_status s k)"
      using t(3) [rule_format, of k] st3(1) st3(2) [of k] d(1) by (cases "k = d") simp_all
  qed
  moreover have "rest_same s t" using t(6) rest_same_trans [OF s2(2), of t] by simp
  moreover have "dpm_complete_loop env list s = ((ds @ [d]) @ list, t)" unfolding step using t(1) by simp
  ultimately show ?case using t(2) unfolding dl by (intro exI [of _ t] exI [of _ ?u] conjI)
qed

lemma dpm_complete_spec:
  assumes "distinct (dpm_list s)"
  shows "\<exists>u. dpm_list (dpm_complete env s) = dpm_list s
    \<and> (\<forall>d. dev_status (dpm_complete env s) d = (if d \<in> set (dpm_list s) \<and> DPM_ON < dev_status s d then DPM_ON else dev_status s d))
    \<and> phase_of Complete s (dpm_complete env s) u \<and> devs Complete u = rev (filter (\<lambda>d. DPM_ON < dev_status s d) (dpm_list s))
    \<and> \<not> transition_started (dpm_complete env s) \<and> irqs_suspended (dpm_complete env s) = irqs_suspended s"
proof -
  let ?s = "s\<lparr>transition_started := False\<rparr>"
  obtain t u where t: "dpm_complete_loop env [] ?s = (dpm_list s, t)" "dpm_list t = []"
    "\<forall>d. dev_status t d = (if d \<in> set (dpm_list s) \<and> DPM_ON < dev_status s d then DPM_ON else dev_status s d)"
    "phase_of Complete ?s t u" "devs Complete u = rev (filter (\<lambda>d. DPM_ON < dev_status s d) (dpm_list s))" "rest_same ?s t"
    using complete_loop [of ?s env "[]"] assms by auto
  have "dpm_complete env s = t\<lparr>dpm_list := dpm_list s\<rparr>" using t(1,2) by (simp add: dpm_complete_def)
  then show ?thesis using t(3-6) by (intro exI [of _ u]) (simp add: phase_of_def rest_same_def)
qed

subsection \<open>The noirq phases\<close>

lemma resume_noirq_loop:
  assumes "distinct ds"
  shows "\<exists>u. (\<forall>d. dev_status (dpm_resume_noirq_loop env ev ds s) d =
         (if d \<in> set ds \<and> DPM_OFF < dev_status s d then DPM_OFF else dev_status s d))
    \<and> phase_of Resume_noirq s (dpm_resume_noirq_loop env ev ds s) u
    \<and> devs Resume_noirq u = filter (\<lambda>d. DPM_OFF < dev_status s d) ds
    \<and> rest_same s (dpm_resume_noirq_loop env ev ds s) \<and> dpm_list (dpm_resume_noirq_loop env ev ds s) = dpm_list s"
  using assms
proof (induction ds arbitrary: s)
  case Nil
  then show ?case by (intro exI [of _ "[]"]) (simp add: phase_of_def)
next
  case (Cons d ds)
  let ?s0 = "set_status d DPM_OFF s"
  obtain e s1 where r: "device_resume_noirq env d ev ?s0 = (e, s1)" by fastforce
  have op: "one_op d Resume_noirq ?s0 (e, s1)" using one_op(5) [of d ?s0 env ev] r by simp
  note D = one_opD [OF op]
  let ?s2 = "if DPM_OFF < dev_status s d then s1 else s"
  let ?t = "dpm_resume_noirq_loop env ev ds ?s2"
  have d: "d \<notin> set ds" "distinct ds" using Cons.prems by simp_all
  obtain u where t: "\<forall>k. dev_status ?t k = (if k \<in> set ds \<and> DPM_OFF < dev_status ?s2 k then DPM_OFF else dev_status ?s2 k)"
      "phase_of Resume_noirq ?s2 ?t u" "devs Resume_noirq u = filter (\<lambda>k. DPM_OFF < dev_status ?s2 k) ds" "rest_same ?s2 ?t"
      "dpm_list ?t = dpm_list ?s2"
    using Cons.IH [OF d(2), of ?s2] by blast
  have st: "dev_status ?s2 d = (if DPM_OFF < dev_status s d then DPM_OFF else dev_status s d)"
    "k \<noteq> d \<Longrightarrow> dev_status ?s2 k = dev_status s k" for k
    using D(2) by simp_all
  let ?u = "if DPM_OFF < dev_status s d then (d, Resume_noirq, e) # u else u"
  have "phase_of Resume_noirq s ?t ?u" using t(2) D(3,6) by (auto simp: phase_of_def)
  moreover have "devs Resume_noirq ?u = filter (\<lambda>k. DPM_OFF < dev_status s k) (d # ds)"
  proof -
    have "filter (\<lambda>k. DPM_OFF < dev_status ?s2 k) ds = filter (\<lambda>k. DPM_OFF < dev_status s k) ds"
      by (rule filter_cong) (use st(2) d(1) in metis)+
    then show ?thesis using t(3) by simp
  qed
  moreover have "\<forall>k. dev_status ?t k = (if k \<in> set (d # ds) \<and> DPM_OFF < dev_status s k then DPM_OFF else dev_status s k)"
  proof
    fix k show "dev_status ?t k = (if k \<in> set (d # ds) \<and> DPM_OFF < dev_status s k then DPM_OFF else dev_status s k)"
      using t(1) [rule_format, of k] st(1) st(2) [of k] d(1) by (cases "k = d") simp_all
  qed
  moreover have "rest_same s ?t" "dpm_list ?t = dpm_list s"
    using t(4,5) one_op_rest [OF op] D(1) rest_same_trans [of s ?s2 ?t] by (simp_all split: if_splits)
  moreover have eq: "dpm_resume_noirq_loop env ev (d # ds) s = ?t" by (simp add: r)
  ultimately show ?case unfolding eq by (intro exI [of _ ?u] conjI)
qed

lemma devs_ok_Cons [simp]: "devs_ok op ((d, o', e) # u) = (if o' = op \<and> e = None then d # devs_ok op u else devs_ok op u)"
  by (simp add: devs_ok_def)

lemma suspend_noirq_loop:
  assumes "dpm_suspend_noirq_loop env ev ds s = (err, t)" "distinct ds"
  shows "\<exists>xs ys u. ds = xs @ ys \<and> (err = None \<longleftrightarrow> ys = [])
    \<and> (\<forall>d. dev_status t d = (if d \<in> set xs then DPM_OFF_IRQ else dev_status s d))
    \<and> phase_of Suspend_noirq s t u \<and> devs_ok Suspend_noirq u = xs \<and> rest_same s t \<and> dpm_list t = dpm_list s"
  using assms
proof (induction ds arbitrary: s)
  case Nil
  then show ?case by (intro exI [of _ "[]"]) (simp add: phase_of_def)
next
  case (Cons d ds)
  obtain e s1 where r: "device_suspend_noirq env d ev s = (e, s1)" by fastforce
  have op: "one_op d Suspend_noirq s (e, s1)" using one_op(4) [of d s env ev] r by simp
  note D = one_opD [OF op]
  show ?case
  proof (cases e)
    case (Some a)
    then have "err = Some a" "t = s1" using Cons.prems r by simp_all
    then show ?thesis using D one_op_rest [OF op] Some
      by (intro exI [of _ "[]"] exI [of _ "d # ds"] exI [of _ "[(d, Suspend_noirq, e)]"]) (simp add: phase_of_def)
  next
    case None
    let ?s2 = "set_status d DPM_OFF_IRQ s1"
    have rec: "dpm_suspend_noirq_loop env ev ds ?s2 = (err, t)" "distinct ds" "d \<notin> set ds" using Cons.prems r None by simp_all
    obtain xs ys u where x: "ds = xs @ ys" "err = None \<longleftrightarrow> ys = []"
        "\<forall>k. dev_status t k = (if k \<in> set xs then DPM_OFF_IRQ else dev_status ?s2 k)"
        "phase_of Suspend_noirq ?s2 t u" "devs_ok Suspend_noirq u = xs" "rest_same ?s2 t" "dpm_list t = dpm_list ?s2"
      using Cons.IH [OF rec(1,2)] by (elim exE conjE) (rule that)
    have "rest_same s t" using rest_same_trans [OF one_op_rest [OF op], of t] x(6) by simp
    moreover have "phase_of Suspend_noirq s t ((d, Suspend_noirq, e) # u)" using x(4) D(3,6) by (simp add: phase_of_def)
    moreover have "\<forall>k. dev_status t k = (if k \<in> set (d # xs) then DPM_OFF_IRQ else dev_status s k)"
      using x(3) D(2) by simp
    ultimately show ?thesis using x(1,2,5,7) None D(1)
      by (intro exI [of _ "d # xs"] exI [of _ ys] exI [of _ "(d, Suspend_noirq, e) # u"]) simp
  qed
qed

lemma dpm_resume_noirq_spec:
  assumes "distinct (dpm_list s)"
  shows "\<exists>u. (\<forall>d. dev_status (dpm_resume_noirq env ev s) d =
         (if d \<in> set (dpm_list s) \<and> DPM_OFF < dev_status s d then DPM_OFF else dev_status s d))
    \<and> phase_of Resume_noirq s (dpm_resume_noirq env ev s) u
    \<and> devs Resume_noirq u = filter (\<lambda>d. DPM_OFF < dev_status s d) (dpm_list s)
    \<and> dpm_list (dpm_resume_noirq env ev s) = dpm_list s
    \<and> \<not> transition_started (dpm_resume_noirq env ev s) \<and> \<not> irqs_suspended (dpm_resume_noirq env ev s)"
proof -
  let ?s = "s\<lparr>transition_started := False\<rparr>"
  let ?t = "dpm_resume_noirq_loop env ev (dpm_list s) ?s"
  obtain u where u: "\<forall>d. dev_status ?t d = (if d \<in> set (dpm_list s) \<and> DPM_OFF < dev_status ?s d then DPM_OFF else dev_status ?s d)"
    "phase_of Resume_noirq ?s ?t u" "devs Resume_noirq u = filter (\<lambda>d. DPM_OFF < dev_status ?s d) (dpm_list s)"
    "rest_same ?s ?t" "dpm_list ?t = dpm_list ?s"
    using resume_noirq_loop [OF assms, of env ev ?s] by (elim exE conjE) (rule that)
  then show ?thesis
    by (intro exI [of _ u]) (simp add: dpm_resume_noirq_def phase_of_def rest_same_def)
qed

lemma dpm_suspend_noirq_spec:
  assumes "dpm_suspend_noirq env ev s = (err, t)" "distinct (dpm_list s)" "\<forall>d\<in>set (dpm_list s). dev_status s d = DPM_OFF"
  shows "dpm_list t = dpm_list s \<and> device t = device s \<and> (\<forall>d. d \<notin> set (dpm_list s) \<longrightarrow> dev_status t d = dev_status s d)
    \<and> (\<forall>d\<in>set (dpm_list s). dev_status t d = (if err = None then DPM_OFF_IRQ else DPM_OFF))
    \<and> (\<exists>u v. dev_trace t = dev_trace s @ u @ v \<and> (\<forall>(d, op, e)\<in>set u. op = Suspend_noirq) \<and> (\<forall>(d, op, e)\<in>set v. op = Resume_noirq)
        \<and> (if err = None then devs_ok Suspend_noirq u = rev (dpm_list s) \<and> v = []
           else devs Resume_noirq v = rev (devs_ok Suspend_noirq u)))
    \<and> irqs_suspended t = (err = None)"
proof -
  let ?s = "s\<lparr>irqs_suspended := True\<rparr>"
  obtain s1 where l: "dpm_suspend_noirq_loop env ev (rev (dpm_list s)) ?s = (err, s1)"
      "t = (if err \<noteq> None then dpm_resume_noirq env (resume_event ev) s1 else s1)"
    using assms(1) by (auto simp: dpm_suspend_noirq_def split: prod.splits)
  obtain xs ys u where x: "rev (dpm_list s) = xs @ ys" "err = None \<longleftrightarrow> ys = []"
      "\<forall>k. dev_status s1 k = (if k \<in> set xs then DPM_OFF_IRQ else dev_status ?s k)"
      "phase_of Suspend_noirq ?s s1 u" "devs_ok Suspend_noirq u = xs" "rest_same ?s s1" "dpm_list s1 = dpm_list ?s"
    using suspend_noirq_loop [OF l(1)] assms(2) by auto
  have xs: "set xs \<subseteq> set (dpm_list s)" using x(1) by (metis Un_upper1 set_append set_rev)
  have ys0: "ys = [] \<Longrightarrow> set xs = set (dpm_list s)" using x(1) by (metis append_Nil2 set_rev)
  show ?thesis
  proof (cases "err = None")
    case True
    then have "t = s1" "set xs = set (dpm_list s)" "devs_ok Suspend_noirq u = rev (dpm_list s)" using l(2) x(1,2,5) ys0 by auto
    then show ?thesis using True x(3,4,6,7)
      by (auto simp: phase_of_def rest_same_def intro: exI [of _ u])
  next
    case False
    have d1: "distinct (dpm_list s1)" using assms(2) x(7) by simp
    have t: "t = dpm_resume_noirq env (resume_event ev) s1" using False l(2) by simp
    obtain v where v: "\<forall>d. dev_status t d = (if d \<in> set (dpm_list s1) \<and> DPM_OFF < dev_status s1 d then DPM_OFF else dev_status s1 d)"
      "phase_of Resume_noirq s1 t v" "devs Resume_noirq v = filter (\<lambda>d. DPM_OFF < dev_status s1 d) (dpm_list s1)"
      "dpm_list t = dpm_list s1" "\<not> irqs_suspended t"
      using dpm_resume_noirq_spec [OF d1, of env "resume_event ev", folded t] by (elim exE conjE) (rule that)
    have st: "d \<in> set (dpm_list s) \<Longrightarrow> DPM_OFF < dev_status s1 d \<longleftrightarrow> d \<in> set xs" for d
      using x(3) assms(3) by (auto simp: less_dpm_status_def)
    have ds: "dpm_list s = rev ys @ rev xs" using arg_cong [OF x(1), of rev] by simp
    have "filter (\<lambda>d. DPM_OFF < dev_status s1 d) (dpm_list s) = filter (\<lambda>d. d \<in> set xs) (dpm_list s)"
      by (rule filter_cong) (use st in auto)
    also have "\<dots> = rev xs" using assms(2) unfolding ds by (auto simp: filter_empty_conv filter_id_conv)
    finally have "devs Resume_noirq v = rev (devs_ok Suspend_noirq u)" using v(3) x(5,7) by simp
    moreover have "dev_trace t = dev_trace s @ u @ v" "device t = device s" using v(2) x(4) by (auto simp: phase_of_def)
    moreover have "\<forall>(d, op, e)\<in>set u. op = Suspend_noirq" "\<forall>(d, op, e)\<in>set v. op = Resume_noirq" using v(2) x(4) by (auto simp: phase_of_def)
    moreover have "dev_status t d = (if d \<in> set (dpm_list s) then DPM_OFF else dev_status s d)" for d
      using v(1) [rule_format, of d] x(3) [rule_format, of d] x(7) xs assms(3) by (auto simp: less_dpm_status_def)
    moreover have "dpm_list t = dpm_list s" using v(4) x(7) by simp
    ultimately show ?thesis using False v(5) by (intro conjI exI [of _ u] exI [of _ v]) auto
  qed
qed

subsection \<open>A whole transition\<close>

lemma dpm_suspend_start_spec:
  assumes st: "dpm_suspend_start env ev s = Some (err, t)" and dist: "distinct (dpm_list s)"
    and on: "\<forall>d\<in>set (dpm_list s). dev_status s d = DPM_ON"
  shows "\<exists>u v as bs cs. dev_trace t = dev_trace s @ u @ v \<and> (\<forall>(d, op, e)\<in>set u. op = Prepare) \<and> (\<forall>(d, op, e)\<in>set v. op = Suspend)
    \<and> dpm_list t = dpm_list s \<and> device t = device s \<and> irqs_suspended t = irqs_suspended s
    \<and> dpm_list s = as @ bs @ cs \<and> devs_ok Prepare u = as @ bs \<and> devs_ok Suspend v = rev bs
    \<and> (\<forall>d. dev_status t d = (if d \<in> set bs then DPM_OFF else if d \<in> set as then DPM_SUSPENDING else dev_status s d))
    \<and> (err = None \<longrightarrow> as = [] \<and> cs = [])"
proof -
  obtain q where q: "dpm_prepare env s = Some q" using st by (cases "dpm_prepare env s") (auto simp: dpm_suspend_start_def)
  obtain err1 s1 where e: "q = (err1, s1)" by fastforce
  have p: "dpm_prepare env s = Some (err1, s1)"
    and r: "(err, t) = (if err1 = None then dpm_suspend env ev s1 else (err1, s1))"
    using st q e by (auto simp: dpm_suspend_start_def)
  obtain xs ys u where x: "dpm_list s = xs @ ys" "dpm_list s1 = dpm_list s" "err1 = None \<longleftrightarrow> ys = []"
    "dev_status s1 = (\<lambda>d. if d \<in> set xs then DPM_SUSPENDING else dev_status s d)"
    "phase_of Prepare s s1 u" "devs_ok Prepare u = xs" "irqs_suspended s1 = irqs_suspended s"
    using dpm_prepare_spec [OF p dist on] by (elim exE conjE) (rule that)
  show ?thesis
  proof (cases "err1 = None")
    case False
    then have "err = err1" "t = s1" "err \<noteq> None" using r by (simp_all del: not_None_eq)
    then show ?thesis using x
      by (intro exI [of _ u] exI [of _ "[]"] exI [of _ xs] exI [of _ ys]) (simp add: phase_of_def)
  next
    case True
    then have s: "dpm_suspend env ev s1 = (err, t)" using r by simp
    have dist1: "distinct (dpm_list s1)" using dist x(2) by simp
    obtain as bs v where y: "dpm_list s1 = as @ bs" "dpm_list t = dpm_list s1" "err = None \<longleftrightarrow> as = []"
      "dev_status t = (\<lambda>d. if d \<in> set bs then DPM_OFF else dev_status s1 d)"
      "phase_of Suspend s1 t v" "devs_ok Suspend v = rev bs" "rest_same s1 t"
      using dpm_suspend_spec [OF s dist1] by (elim exE conjE) (rule that)
    have "xs = as @ bs" "ys = []" using True x(1-3) y(1) by simp_all
    then show ?thesis using x y
      by (intro exI [of _ u] exI [of _ v] exI [of _ as] exI [of _ bs] exI [of _ "[]"]) (simp add: phase_of_def rest_same_def)
  qed
qed

text \<open>What happens between suspend and resume: the noirq phases, balanced.\<close>

definition noirq_mid :: "dpm \<Rightarrow> dpm \<Rightarrow> bool" where
  "noirq_mid s t \<longleftrightarrow> dpm_list t = dpm_list s \<and> device t = device s \<and> dev_status t = dev_status s
     \<and> irqs_suspended t = irqs_suspended s
     \<and> (\<exists>w. dev_trace t = dev_trace s @ w \<and> (\<forall>(d, op, e)\<in>set w. op = Suspend_noirq \<or> op = Resume_noirq)
          \<and> devs Resume_noirq w = rev (devs_ok Suspend_noirq w))"

lemma noirq_mid_refl: "noirq_mid s s"
  by (simp add: noirq_mid_def)

lemma noirq_cycle:
  assumes r: "dpm_suspend_noirq env ev s = (err, t)" and dist: "distinct (dpm_list s)"
    and off: "\<forall>d\<in>set (dpm_list s). dev_status s d = DPM_OFF" and irq: "\<not> irqs_suspended s"
  shows "noirq_mid s (if err = None then dpm_resume_noirq env' ev' t else t)"
proof -
  note S = dpm_suspend_noirq_spec [OF r dist off]
  obtain u v where t: "dpm_list t = dpm_list s" "device t = device s" "\<forall>d. d \<notin> set (dpm_list s) \<longrightarrow> dev_status t d = dev_status s d"
    "\<forall>d\<in>set (dpm_list s). dev_status t d = (if err = None then DPM_OFF_IRQ else DPM_OFF)"
    "dev_trace t = dev_trace s @ u @ v" "\<forall>(d, op, e)\<in>set u. op = Suspend_noirq" "\<forall>(d, op, e)\<in>set v. op = Resume_noirq"
    "if err = None then devs_ok Suspend_noirq u = rev (dpm_list s) \<and> v = [] else devs Resume_noirq v = rev (devs_ok Suspend_noirq u)"
    "irqs_suspended t = (err = None)"
    using S by (elim exE conjE) (rule that)
  note nu = devs_other [OF t(6)] and nv = devs_other [OF t(7)]
  show ?thesis
  proof (cases "err = None")
    case False
    have "dev_status t d = dev_status s d" for d using t(3,4) off False by (cases "d \<in> set (dpm_list s)") simp_all
    then show ?thesis using False t irq nu nv by (auto simp: noirq_mid_def intro!: exI [of _ "u @ v"] ext)
  next
    case True
    let ?r = "dpm_resume_noirq env' ev' t"
    have d1: "distinct (dpm_list t)" using dist t(1) by simp
    obtain w where w: "\<forall>d. dev_status ?r d = (if d \<in> set (dpm_list t) \<and> DPM_OFF < dev_status t d then DPM_OFF else dev_status t d)"
      "phase_of Resume_noirq t ?r w" "devs Resume_noirq w = filter (\<lambda>d. DPM_OFF < dev_status t d) (dpm_list t)"
      "dpm_list ?r = dpm_list t" "\<not> irqs_suspended ?r"
      using dpm_resume_noirq_spec [OF d1, of env' ev'] by (elim exE conjE) (rule that)
    have st: "dev_status ?r d = dev_status s d" for d
      using w(1) [rule_format, of d] t(1,3,4) off True by (cases "d \<in> set (dpm_list s)") (simp_all add: less_dpm_status_def)
    have all: "filter (\<lambda>d. DPM_OFF < dev_status t d) (dpm_list t) = dpm_list s"
      using t(1,4) True by (auto simp: filter_id_conv less_dpm_status_def)
    have nw: "devs_ok Suspend_noirq w = []" using devs_other(2) [of w Resume_noirq Suspend_noirq] w(2) by (simp add: phase_of_def)
    have u: "devs_ok Suspend_noirq u = rev (dpm_list s)" "v = []" using t(8) True by simp_all
    have "devs Resume_noirq (u @ w) = rev (devs_ok Suspend_noirq (u @ w))" using w(3) all u(1) nw nu(1) by simp
    moreover have "\<forall>(d, op, e)\<in>set (u @ w). op = Suspend_noirq \<or> op = Resume_noirq" using t(6) w(2) by (auto simp: phase_of_def)
    moreover have "dev_trace ?r = dev_trace s @ u @ w" "device ?r = device s" using w(2) t(2,5) u(2) by (simp_all add: phase_of_def)
    ultimately show ?thesis using True w(4,5) t(1) irq st unfolding noirq_mid_def
      by (intro conjI exI [of _ "u @ w"]) auto
  qed
qed

text \<open>The balance of a trace: what was suspended is resumed, what was prepared is completed, each in the opposite order.\<close>

definition balanced :: "(addr \<times> dev_op \<times> errno option) list \<Rightarrow> bool" where
  "balanced u \<longleftrightarrow> devs Resume u = rev (devs_ok Suspend u) \<and> devs Complete u = rev (devs_ok Prepare u)
     \<and> devs Resume_noirq u = rev (devs_ok Suspend_noirq u)"

lemma dpm_cycle:
  assumes st: "dpm_suspend_start env ev s = Some (err, s1)" and dist: "distinct (dpm_list s)"
    and on: "\<forall>d\<in>set (dpm_list s). dev_status s d = DPM_ON" and mid: "noirq_mid s1 s2"
  shows "dpm_list (dpm_resume_end env' ev' s2) = dpm_list s \<and> dev_status (dpm_resume_end env' ev' s2) = dev_status s
    \<and> device (dpm_resume_end env' ev' s2) = device s \<and> \<not> transition_started (dpm_resume_end env' ev' s2)
    \<and> irqs_suspended (dpm_resume_end env' ev' s2) = irqs_suspended s
    \<and> (\<exists>u. dev_trace (dpm_resume_end env' ev' s2) = dev_trace s @ u \<and> balanced u)"
proof -
  obtain u v as bs cs where a: "dev_trace s1 = dev_trace s @ u @ v" "\<forall>(d, op, e)\<in>set u. op = Prepare" "\<forall>(d, op, e)\<in>set v. op = Suspend"
    "dpm_list s1 = dpm_list s" "device s1 = device s" "irqs_suspended s1 = irqs_suspended s"
    and l: "dpm_list s = as @ bs @ cs" "devs_ok Prepare u = as @ bs" "devs_ok Suspend v = rev bs"
    and a7: "\<forall>d. dev_status s1 d = (if d \<in> set bs then DPM_OFF else if d \<in> set as then DPM_SUSPENDING else dev_status s d)"
    using dpm_suspend_start_spec [OF st dist on] by (elim exE conjE) (rule that)
  obtain w where b: "dpm_list s2 = dpm_list s" "device s2 = device s" "dev_status s2 = dev_status s1" "irqs_suspended s2 = irqs_suspended s"
    "dev_trace s2 = dev_trace s1 @ w" "\<forall>(d, op, e)\<in>set w. op = Suspend_noirq \<or> op = Resume_noirq"
    "devs Resume_noirq w = rev (devs_ok Suspend_noirq w)"
    using mid a(4-6) by (auto simp: noirq_mid_def)
  let ?s3 = "dpm_resume env' ev' s2"
  let ?s4 = "dpm_complete env' ?s3"
  have d2: "distinct (dpm_list s2)" using dist b(1) by simp
  obtain x where c: "dpm_list ?s3 = dpm_list s2"
    "\<forall>d. dev_status ?s3 d = (if d \<in> set (dpm_list s2) \<and> DPM_SUSPENDING \<le> dev_status s2 d then DPM_RESUMING else dev_status s2 d)"
    "phase_of Resume s2 ?s3 x" "devs Resume x = filter (\<lambda>d. DPM_OFF \<le> dev_status s2 d) (dpm_list s2)" "rest_same s2 ?s3"
    using dpm_resume_spec [OF d2, of env' ev'] by (elim exE conjE) (rule that)
  have d3: "distinct (dpm_list ?s3)" using d2 c(1) by simp
  obtain y where d: "dpm_list ?s4 = dpm_list ?s3"
    "\<forall>d. dev_status ?s4 d = (if d \<in> set (dpm_list ?s3) \<and> DPM_ON < dev_status ?s3 d then DPM_ON else dev_status ?s3 d)"
    "phase_of Complete ?s3 ?s4 y" "devs Complete y = rev (filter (\<lambda>d. DPM_ON < dev_status ?s3 d) (dpm_list ?s3))"
    "\<not> transition_started ?s4" "irqs_suspended ?s4 = irqs_suspended ?s3"
    using dpm_complete_spec [OF d3, of env'] by (elim exE conjE) (rule that)
  have s2st: "dev_status s2 k = (if k \<in> set bs then DPM_OFF else if k \<in> set as then DPM_SUSPENDING else dev_status s k)" for k
    using a7 b(3) by simp
  have off: "filter (\<lambda>d. DPM_OFF \<le> dev_status s2 d) (dpm_list s) = bs"
  proof -
    have "DPM_OFF \<le> dev_status s2 k \<longleftrightarrow> k \<in> set bs" if "k \<in> set (dpm_list s)" for k
      using that on by (simp add: s2st less_eq_dpm_status_def)
    then have "filter (\<lambda>d. DPM_OFF \<le> dev_status s2 d) (dpm_list s) = filter (\<lambda>d. d \<in> set bs) (dpm_list s)"
      by (rule filter_cong [OF refl])
    also have "\<dots> = bs"
    proof -
      have "filter (\<lambda>d. d \<in> set bs) as = []" "filter (\<lambda>d. d \<in> set bs) cs = []"
        using dist l(1) by (auto simp: filter_empty_conv)
      then show ?thesis by (simp add: l(1))
    qed
    finally show ?thesis .
  qed
  have s3st: "k \<in> set (dpm_list s) \<Longrightarrow> dev_status ?s3 k = (if k \<in> set (as @ bs) then DPM_RESUMING else DPM_ON)" for k
    using c(2) b(1) on l(1) by (auto simp: s2st less_eq_dpm_status_def)
  have pre: "filter (\<lambda>d. DPM_ON < dev_status ?s3 d) (dpm_list s) = as @ bs"
  proof -
    have "filter (\<lambda>d. DPM_ON < dev_status ?s3 d) (dpm_list s) = filter (\<lambda>d. d \<in> set (as @ bs)) (dpm_list s)"
      by (rule filter_cong) (auto simp: s3st less_dpm_status_def)
    moreover have "filter (\<lambda>d. d \<in> set (as @ bs)) cs = []" using dist l(1) by (auto simp: filter_empty_conv)
    moreover have "filter (\<lambda>d. d \<in> set (as @ bs)) (as @ bs) = as @ bs" by (rule filter_True) simp
    ultimately show ?thesis using l(1) by simp
  qed
  have trace: "dev_trace ?s4 = dev_trace s @ (u @ v @ w @ x @ y)" using a(1) b(5) c(3) d(3) by (simp add: phase_of_def)
  have ops: "\<forall>(d, op, e)\<in>set x. op = Resume" "\<forall>(d, op, e)\<in>set y. op = Complete" using c(3) d(3) by (simp_all add: phase_of_def)
  have w0: "op \<noteq> Suspend_noirq \<Longrightarrow> op \<noteq> Resume_noirq \<Longrightarrow> devs op w = [] \<and> devs_ok op w = []" for op
    using b(6) by (auto simp: devs_def devs_ok_def filter_empty_conv)
  note none = devs_other [OF a(2)] devs_other [OF a(3)] devs_other [OF ops(1)] devs_other [OF ops(2)]
  have "balanced (u @ v @ w @ x @ y)"
    using c(4) d(4) l(2,3) off pre b(1,7) c(1) w0 by (simp add: balanced_def none)
  moreover have "dev_status ?s4 k = dev_status s k" for k
  proof (cases "k \<in> set (dpm_list s)")
    case True
    then show ?thesis using d(2) [rule_format, of k] s3st [OF True] on b(1) c(1) by (auto simp: less_dpm_status_def)
  next
    case False
    then have "k \<notin> set as" "k \<notin> set bs" using l(1) by auto
    then show ?thesis using False d(2) [rule_format, of k] c(2) [rule_format, of k] b(1) c(1) by (simp add: s2st)
  qed
  moreover have "device ?s4 = device s" using b(2) c(3) d(3) by (simp add: phase_of_def)
  ultimately show ?thesis using trace d(1,5,6) c(1,5) b(1,4) unfolding dpm_resume_end_def
    by (intro conjI exI [of _ "u @ v @ w @ x @ y"]) (auto simp: rest_same_def)
qed

section \<open>Properties\<close>

text \<open>Two devices, the second a child of the first, both with a platform bus.\<close>

definition bus_ops :: pm_layer where
  "bus_ops = \<lparr>layer_pm = Some \<lparr>op_prepare = True, op_complete = True, op_suspend = True, op_resume = True,
     op_suspend_noirq = True, op_resume_noirq = True\<rparr>, legacy_suspend = False, legacy_resume = False\<rparr>"

definition two_devices :: dpm where
  "two_devices = \<lparr>dpm_list = [10, 11], dev_status = (\<lambda>_. DPM_ON),
     device = (\<lambda>d. \<lparr>dev_bus = Some bus_ops, dev_type = None, dev_class = None, dev_parent = (if d = 11 then Some 10 else None)\<rparr>),
     transition_started = False, irqs_suspended = False, callbacks = [], dev_trace = []\<rparr>"

definition agreeable :: dev_env where
  "agreeable n d k op = None"

text \<open>C29: Preparing the devices for a transition ends, whatever the callbacks do, if from some point on they do
  not answer \<open>EAGAIN\<close>: the loop that calls a device again for \<open>EAGAIN\<close> is the only one without a bound.\<close>

theorem dpm_prepare_terminates:
  assumes "\<forall>n\<ge>N. \<forall>d k. env n d k Prepare \<noteq> Some EAGAIN"
  shows "\<exists>err t. dpm_prepare env s = Some (err, t)"
  using prepare_loop_terminates [where env = env and list = "[]" and s = "s\<lparr>transition_started := True\<rparr>", OF assms]
  by (auto simp: dpm_prepare_def)

text \<open>The first three calls answer \<open>EAGAIN\<close>.\<close>

definition busy_thrice :: dev_env where
  "busy_thrice n d k op = (if n < 3 then Some EAGAIN else None)"

theorem dpm_prepare_terminates_witness: "\<exists>err t. dpm_prepare busy_thrice two_devices = Some (err, t)"
  by (rule dpm_prepare_terminates [of 3]) (simp add: busy_thrice_def)

text \<open>C25: No device is suspended before its children.  If no device comes before its parent in the list, then
  a device that \<open>dpm_suspend\<close> has suspended has all its children suspended, also when the loop stopped with an error.\<close>

theorem dpm_children_first:
  assumes "dpm_suspend env ev s = (err, t)" "distinct (dpm_list s)"
    and "sorted_wrt (\<lambda>a b. dev_parent (device s a) \<noteq> Some b) (dpm_list s)"
    and "dev_status s p \<noteq> DPM_OFF" "dev_status t p = DPM_OFF" "c \<in> set (dpm_list s)" "dev_parent (device s c) = Some p"
  shows "dev_status t c = DPM_OFF"
proof -
  obtain xs ys where x: "dpm_list s = xs @ ys" "dev_status t = (\<lambda>d. if d \<in> set ys then DPM_OFF else dev_status s d)"
    using dpm_suspend_spec [OF assms(1,2)] by blast
  have "p \<in> set ys" using x(2) assms(4,5) by (auto split: if_splits)
  moreover have "c \<in> set xs \<Longrightarrow> p \<in> set ys \<Longrightarrow> False" using assms(3,7) unfolding x(1) by (auto simp: sorted_wrt_append)
  ultimately show ?thesis using x assms(6) by auto
qed

theorem dpm_children_first_witness: "dev_status (snd (dpm_suspend agreeable PM_EVENT_SUSPEND two_devices)) 11 = DPM_OFF"
proof -
  have "dev_status (snd (dpm_suspend agreeable PM_EVENT_SUSPEND two_devices)) 10 = DPM_OFF" by code_simp
  moreover have "distinct (dpm_list two_devices)" "dev_status two_devices 10 \<noteq> DPM_OFF" "11 \<in> set (dpm_list two_devices)"
    "sorted_wrt (\<lambda>a b. dev_parent (device two_devices a) \<noteq> Some b) (dpm_list two_devices)"
    "dev_parent (device two_devices 11) = Some 10" by (simp_all add: two_devices_def)
  ultimately show ?thesis using dpm_children_first [of agreeable PM_EVENT_SUSPEND two_devices] by (metis prod.collapse)
qed

end
