(* ===== verification/Wakelock.thy ===== *)
theory Wakelock
  imports Kernel_Prelude
begin

text \<open>
  Wake locks, \<open>kernel/power/wakelock.c\<close> (configuration of the device: \<open>CONFIG_WAKELOCK_STAT\<close> and
  \<open>CONFIG_CPU_IDLE\<close> set, \<open>HZ\<close> 200).  A wake lock is on the list of the inactive locks or on the list
  of the active locks of its type; an active lock may have a time at which it expires.  The system
  is suspended by a work item that is queued when no active suspend lock is left, or by a timer when
  the last one expires.

  The spinlock makes each operation atomic.  Clocks are fields of the state: \<open>jiffies\<close> (a 32-bit
  counter that wraps), \<open>ktime\<close> (the result of \<open>ktime_get\<close>, nanoseconds) and \<open>xtime\<close> (the coarse
  monotonic clock \<open>current_kernel_time() + wall_to_monotonic\<close>).  A \<open>BUG_ON\<close> is the result \<open>None\<close>.  Debug messages are left out.
\<close>

section \<open>The model\<close>

definition HZ :: int where "HZ = 200"
definition TICK_NSEC :: int where "TICK_NSEC = 5000000"

definition WAKE_LOCK_SUSPEND :: nat where "WAKE_LOCK_SUSPEND = 0"
definition WAKE_LOCK_IDLE :: nat where "WAKE_LOCK_IDLE = 1"
definition WAKE_LOCK_TYPE_COUNT :: nat where "WAKE_LOCK_TYPE_COUNT = 2"

definition WAKE_LOCK_TYPE_MASK :: u32 where "WAKE_LOCK_TYPE_MASK = 0x0f"
definition WAKE_LOCK_INITIALIZED :: u32 where "WAKE_LOCK_INITIALIZED = 0x100"
definition WAKE_LOCK_ACTIVE :: u32 where "WAKE_LOCK_ACTIVE = 0x200"
definition WAKE_LOCK_AUTO_EXPIRE :: u32 where "WAKE_LOCK_AUTO_EXPIRE = 0x400"
definition WAKE_LOCK_PREVENTING_SUSPEND :: u32 where "WAKE_LOCK_PREVENTING_SUSPEND = 0x800"
definition LONG_MAX :: u32 where "LONG_MAX = 0x7fffffff"

record wl_stat =
  stat_count :: u32
  expire_count :: u32
  wakeup_count :: u32
  total_time :: int
  prevent_suspend_time :: int
  max_time :: int
  last_time :: int

record wake_lock_struct =
  flags :: u32
  lock_name :: string
  expires :: u32
  stat :: wl_stat

text \<open>The work items of the single-threaded queue \<open>suspend_work_queue\<close>; the last two belong to early suspend.\<close>

datatype power_work = suspend_work | early_suspend_work | late_resume_work

record wakelocks =
  locks :: "addr \<Rightarrow> wake_lock_struct"
  inactive_locks :: "addr list"
  active_wake_locks :: "nat \<Rightarrow> addr list"
  current_event_num :: u32
  last_sleep_time_update :: int
  wait_for_wakeup :: bool
  expire_timer :: "u32 option"
  suspend_work_queue :: "power_work list"
  jiffies :: u32
  ktime :: int
  xtime :: int

text \<open>The static locks.\<close>

definition main_wake_lock :: addr where "main_wake_lock = 1"
definition unknown_wakeup :: addr where "unknown_wakeup = 2"
definition deleted_wake_locks :: addr where "deleted_wake_locks = 3"

definition upd_lock :: "addr \<Rightarrow> (wake_lock_struct \<Rightarrow> wake_lock_struct) \<Rightarrow> wakelocks \<Rightarrow> wakelocks" where
  "upd_lock l f s = s\<lparr>locks := (locks s)(l := f (locks s l))\<rparr>"

text \<open>\<open>list_del(&lock->link)\<close>: out of the list that holds it; \<open>list_add\<close> and \<open>list_add_tail\<close> put it at
  the front or at the end.\<close>

definition unlink :: "addr \<Rightarrow> wakelocks \<Rightarrow> wakelocks" where
  "unlink l s = s\<lparr>inactive_locks := remove1 l (inactive_locks s),
                  active_wake_locks := (\<lambda>t. remove1 l (active_wake_locks s t))\<rparr>"

definition add_inactive :: "addr \<Rightarrow> wakelocks \<Rightarrow> wakelocks" where
  "add_inactive l s = s\<lparr>inactive_locks := l # inactive_locks s\<rparr>"

definition add_active :: "nat \<Rightarrow> addr \<Rightarrow> wakelocks \<Rightarrow> wakelocks" where
  "add_active t l s = s\<lparr>active_wake_locks := (active_wake_locks s)(t := l # active_wake_locks s t)\<rparr>"

definition add_active_tail :: "nat \<Rightarrow> addr \<Rightarrow> wakelocks \<Rightarrow> wakelocks" where
  "add_active_tail t l s = s\<lparr>active_wake_locks := (active_wake_locks s)(t := active_wake_locks s t @ [l])\<rparr>"

definition lock_type :: "wake_lock_struct \<Rightarrow> nat" where
  "lock_type L = unat (flags L AND WAKE_LOCK_TYPE_MASK)"

text \<open>The jiffies left until a lock expires: \<open>(long)(lock->expires - jiffies)\<close>.\<close>

definition time_left :: "wakelocks \<Rightarrow> addr \<Rightarrow> int" where
  "time_left s l = sint (expires (locks s l) - jiffies s)"

definition queue_work :: "power_work \<Rightarrow> wakelocks \<Rightarrow> wakelocks" where
  "queue_work w s =
     (if w \<in> set (suspend_work_queue s) then s
      else s\<lparr>suspend_work_queue := suspend_work_queue s @ [w]\<rparr>)"

definition mod_timer :: "u32 \<Rightarrow> wakelocks \<Rightarrow> wakelocks" where
  "mod_timer t s = s\<lparr>expire_timer := Some t\<rparr>"

definition del_timer :: "wakelocks \<Rightarrow> wakelocks" where
  "del_timer s = s\<lparr>expire_timer := None\<rparr>"

subsection \<open>Statistics\<close>

definition get_expired_time :: "wakelocks \<Rightarrow> addr \<Rightarrow> int option" where
  "get_expired_time s l =
     (if flags (locks s l) AND WAKE_LOCK_AUTO_EXPIRE = 0 then None
      else if time_left s l > 0 then None
      else Some (xtime s + time_left s l * TICK_NSEC))"

record lock_stat_row =
  row_name :: string
  row_count :: u32
  row_expire_count :: u32
  row_wakeup_count :: u32
  row_active_time :: int
  row_total_time :: int
  row_prevent_suspend_time :: int
  row_max_time :: int
  row_last_time :: int

definition print_lock_stat :: "wakelocks \<Rightarrow> addr \<Rightarrow> lock_stat_row" where
  "print_lock_stat s l =
     (let L = locks s l; st = stat L;
          row = \<lparr>row_name = lock_name L, row_count = stat_count st, row_expire_count = expire_count st,
                 row_wakeup_count = wakeup_count st, row_active_time = 0,
                 row_total_time = total_time st, row_prevent_suspend_time = prevent_suspend_time st,
                 row_max_time = max_time st, row_last_time = last_time st\<rparr>
      in if flags L AND WAKE_LOCK_ACTIVE \<noteq> 0 then
           (let expired = get_expired_time s l;
                now = (case expired of None \<Rightarrow> ktime s | Some t \<Rightarrow> t);
                add_time = now - last_time st
            in row\<lparr>row_count := stat_count st + 1,
                   row_active_time := (if expired = None then add_time else 0),
                   row_expire_count := (if expired = None then expire_count st else expire_count st + 1),
                   row_total_time := total_time st + add_time,
                   row_prevent_suspend_time :=
                     (if flags L AND WAKE_LOCK_PREVENTING_SUSPEND \<noteq> 0
                      then prevent_suspend_time st + (now - last_sleep_time_update s)
                      else prevent_suspend_time st),
                   row_max_time := (if add_time > max_time st then add_time else max_time st)\<rparr>)
         else row)"

definition wakelock_stats_show :: "wakelocks \<Rightarrow> lock_stat_row list" where
  "wakelock_stats_show s =
     map (print_lock_stat s) (inactive_locks s)
     @ concat (map (\<lambda>t. map (print_lock_stat s) (active_wake_locks s t)) [0..<WAKE_LOCK_TYPE_COUNT])"

definition wake_unlock_stat_locked :: "addr \<Rightarrow> bool \<Rightarrow> wakelocks \<Rightarrow> wakelocks" where
  "wake_unlock_stat_locked l expired s =
     (let L = locks s l; st = stat L in
      if flags L AND WAKE_LOCK_ACTIVE = 0 then s
      else
       (let et = get_expired_time s l;
            expired' = (et \<noteq> None \<or> expired);
            now = (case et of None \<Rightarrow> ktime s | Some t \<Rightarrow> t);
            duration = now - last_time st;
            st1 = st\<lparr>stat_count := stat_count st + 1,
                     expire_count := (if expired' then expire_count st + 1 else expire_count st),
                     total_time := total_time st + duration,
                     max_time := (if duration > max_time st then duration else max_time st),
                     last_time := ktime s\<rparr>
        in upd_lock l (\<lambda>L. if flags L AND WAKE_LOCK_PREVENTING_SUSPEND \<noteq> 0
             then L\<lparr>stat := st1\<lparr>prevent_suspend_time :=
                              prevent_suspend_time st + (now - last_sleep_time_update s)\<rparr>,
                    flags := flags L AND NOT WAKE_LOCK_PREVENTING_SUSPEND\<rparr>
             else L\<lparr>stat := st1\<rparr>) s))"

text \<open>One lock of the loop of \<open>update_sleep_wait_stats_locked\<close>; \<open>elapsed\<close> and \<open>last\<close> are read
  before the loop.\<close>

definition update_sleep_one :: "bool \<Rightarrow> addr \<Rightarrow> wakelocks \<Rightarrow> wakelocks" where
  "update_sleep_one done l s =
     (let expired = get_expired_time s l;
          elapsed = ktime s - last_sleep_time_update s;
          add = (case expired of None \<Rightarrow> elapsed | Some etime \<Rightarrow> etime - last_sleep_time_update s)
      in upd_lock l (\<lambda>L.
           (let L1 = (if flags L AND WAKE_LOCK_PREVENTING_SUSPEND \<noteq> 0
                      then L\<lparr>stat := (stat L)\<lparr>prevent_suspend_time := prevent_suspend_time (stat L) + add\<rparr>\<rparr>
                      else L)
            in if done \<or> expired \<noteq> None
               then L1\<lparr>flags := flags L1 AND NOT WAKE_LOCK_PREVENTING_SUSPEND\<rparr>
               else L1\<lparr>flags := flags L1 OR WAKE_LOCK_PREVENTING_SUSPEND\<rparr>)) s)"

definition update_sleep_wait_stats_locked :: "bool \<Rightarrow> wakelocks \<Rightarrow> wakelocks" where
  "update_sleep_wait_stats_locked done s =
     (fold (update_sleep_one done) (active_wake_locks s WAKE_LOCK_SUSPEND) s)\<lparr>last_sleep_time_update := ktime s\<rparr>"

subsection \<open>Expiry and suspend\<close>

definition clear_flags :: "u32 \<Rightarrow> addr \<Rightarrow> wakelocks \<Rightarrow> wakelocks" where
  "clear_flags m l s = upd_lock l (\<lambda>L. L\<lparr>flags := flags L AND NOT m\<rparr>) s"

definition expire_wake_lock :: "addr \<Rightarrow> wakelocks \<Rightarrow> wakelocks" where
  "expire_wake_lock l s =
     (let s1 = wake_unlock_stat_locked l True s;
          s2 = clear_flags (WAKE_LOCK_ACTIVE OR WAKE_LOCK_AUTO_EXPIRE) l s1
      in add_inactive l (unlink l s2))"

fun has_wake_lock_loop :: "addr list \<Rightarrow> int \<Rightarrow> wakelocks \<Rightarrow> int \<times> wakelocks" where
  "has_wake_lock_loop [] max_timeout s = (max_timeout, s)"
| "has_wake_lock_loop (l # ls) max_timeout s =
     (if flags (locks s l) AND WAKE_LOCK_AUTO_EXPIRE \<noteq> 0 then
        (let timeout = time_left s l
         in if timeout \<le> 0 then has_wake_lock_loop ls max_timeout (expire_wake_lock l s)
            else has_wake_lock_loop ls (if timeout > max_timeout then timeout else max_timeout) s)
      else (-1, s))"

definition has_wake_lock_locked :: "nat \<Rightarrow> wakelocks \<Rightarrow> (int \<times> wakelocks) option" where
  "has_wake_lock_locked t s =
     (if t \<ge> WAKE_LOCK_TYPE_COUNT then None
      else Some (has_wake_lock_loop (active_wake_locks s t) 0 s))"

definition has_wake_lock :: "nat \<Rightarrow> wakelocks \<Rightarrow> (int \<times> wakelocks) option" where
  "has_wake_lock t s = has_wake_lock_locked t s"

text \<open>The end that \<open>wake_lock_internal\<close> and \<open>wake_unlock\<close> share: with time left, the timer is set;
  otherwise it is stopped, and with no lock left the suspend work is queued.\<close>

definition schedule_suspend :: "int \<Rightarrow> wakelocks \<Rightarrow> wakelocks" where
  "schedule_suspend expire_in s =
     (if expire_in > 0 then mod_timer (jiffies s + word_of_int expire_in) s
      else (let s1 = del_timer s in if expire_in = 0 then queue_work suspend_work s1 else s1))"

definition expire_wake_locks :: "wakelocks \<Rightarrow> wakelocks" where
  "expire_wake_locks s =
     (let (has_lock, s1) = the (has_wake_lock_locked WAKE_LOCK_SUSPEND s)
      in if has_lock = 0 then queue_work suspend_work s1 else s1)"

definition power_suspend_late :: "wakelocks \<Rightarrow> (errno + nat) \<times> wakelocks" where
  "power_suspend_late s =
     (let (has, s1) = the (has_wake_lock WAKE_LOCK_SUSPEND s)
      in (if has \<noteq> 0 then Inl EAGAIN else Inr 0, s1\<lparr>wait_for_wakeup := True\<rparr>))"

subsection \<open>Locks\<close>

definition stat_zero :: wl_stat where
  "stat_zero = \<lparr>stat_count = 0, expire_count = 0, wakeup_count = 0, total_time = 0,
                prevent_suspend_time = 0, max_time = 0, last_time = 0\<rparr>"

text \<open>The name is given; a NULL name, which keeps the name of an earlier initialisation, is not modelled.\<close>

definition wake_lock_init :: "addr \<Rightarrow> u32 \<Rightarrow> string \<Rightarrow> wakelocks \<Rightarrow> wakelocks" where
  "wake_lock_init l t name s =
     add_inactive l (upd_lock l (\<lambda>L. L\<lparr>lock_name := name, stat := stat_zero,
       flags := (t AND WAKE_LOCK_TYPE_MASK) OR WAKE_LOCK_INITIALIZED\<rparr>) s)"

definition wake_lock_destroy :: "addr \<Rightarrow> wakelocks \<Rightarrow> wakelocks" where
  "wake_lock_destroy l s =
     (let s1 = clear_flags WAKE_LOCK_INITIALIZED l s;
          st = stat (locks s1 l);
          s2 = (if stat_count st \<noteq> 0
                then upd_lock deleted_wake_locks (\<lambda>D. D\<lparr>stat := (stat D)\<lparr>
                       stat_count := stat_count (stat D) + stat_count st,
                       expire_count := expire_count (stat D) + expire_count st,
                       total_time := total_time (stat D) + total_time st,
                       prevent_suspend_time := prevent_suspend_time (stat D) + prevent_suspend_time st,
                       max_time := max_time (stat D) + max_time st\<rparr>\<rparr>) s1
                else s1)
      in unlink l s2)"

definition wake_lock_active :: "wakelocks \<Rightarrow> addr \<Rightarrow> bool" where
  "wake_lock_active s l \<longleftrightarrow> flags (locks s l) AND WAKE_LOCK_ACTIVE \<noteq> 0"

text \<open>\<open>wake_lock_internal\<close>, in the order of the code: the statistics of a wake-up and of a lock that
  had expired, activation, the list, and for a suspend lock the event, the statistics of the sleep
  and the timer.\<close>

definition note_wakeup :: "addr \<Rightarrow> wakelocks \<Rightarrow> wakelocks" where
  "note_wakeup l s =
     (if lock_type (locks s l) = WAKE_LOCK_SUSPEND \<and> wait_for_wakeup s
      then upd_lock l (\<lambda>L. L\<lparr>stat := (stat L)\<lparr>wakeup_count := wakeup_count (stat L) + 1\<rparr>\<rparr>)
             (s\<lparr>wait_for_wakeup := False\<rparr>)
      else s)"

definition note_expired :: "addr \<Rightarrow> wakelocks \<Rightarrow> wakelocks" where
  "note_expired l s =
     (if flags (locks s l) AND WAKE_LOCK_AUTO_EXPIRE \<noteq> 0 \<and> time_left s l \<le> 0
      then upd_lock l (\<lambda>L. L\<lparr>stat := (stat L)\<lparr>last_time := ktime s\<rparr>\<rparr>) (wake_unlock_stat_locked l False s)
      else s)"

definition activate :: "addr \<Rightarrow> wakelocks \<Rightarrow> wakelocks" where
  "activate l s =
     (if flags (locks s l) AND WAKE_LOCK_ACTIVE = 0
      then upd_lock l (\<lambda>L. L\<lparr>flags := flags L OR WAKE_LOCK_ACTIVE, stat := (stat L)\<lparr>last_time := ktime s\<rparr>\<rparr>) s
      else s)"

definition relink_active :: "addr \<Rightarrow> nat \<Rightarrow> u32 \<Rightarrow> bool \<Rightarrow> wakelocks \<Rightarrow> wakelocks" where
  "relink_active l t timeout has_timeout s =
     (let s1 = unlink l s in
      if has_timeout
      then add_active_tail t l (upd_lock l (\<lambda>L. L\<lparr>expires := jiffies s + timeout,
             flags := flags L OR WAKE_LOCK_AUTO_EXPIRE\<rparr>) s1)
      else add_active t l (upd_lock l (\<lambda>L. L\<lparr>expires := LONG_MAX,
             flags := flags L AND NOT WAKE_LOCK_AUTO_EXPIRE\<rparr>) s1))"

definition wake_lock_internal :: "addr \<Rightarrow> u32 \<Rightarrow> bool \<Rightarrow> wakelocks \<Rightarrow> wakelocks option" where
  "wake_lock_internal l timeout has_timeout s =
     (let t = lock_type (locks s l) in
      if t \<ge> WAKE_LOCK_TYPE_COUNT then None
      else if flags (locks s l) AND WAKE_LOCK_INITIALIZED = 0 then None
      else
       (let s1 = relink_active l t timeout has_timeout (activate l (note_expired l (note_wakeup l s))) in
        if t = WAKE_LOCK_SUSPEND then
         (let s2 = s1\<lparr>current_event_num := current_event_num s1 + 1\<rparr>;
              s3 = (if l = main_wake_lock then update_sleep_wait_stats_locked True s2
                    else if \<not> wake_lock_active s2 main_wake_lock then update_sleep_wait_stats_locked False s2
                    else s2)
          in if has_timeout
             then map_option (\<lambda>(expire_in, s4). schedule_suspend expire_in s4) (has_wake_lock_locked t s3)
             else Some (schedule_suspend (-1) s3))
        else Some s1))"

definition wake_lock :: "addr \<Rightarrow> wakelocks \<Rightarrow> wakelocks option" where
  "wake_lock l s = wake_lock_internal l 0 False s"

definition wake_lock_timeout :: "addr \<Rightarrow> u32 \<Rightarrow> wakelocks \<Rightarrow> wakelocks option" where
  "wake_lock_timeout l timeout s = wake_lock_internal l timeout True s"

definition wake_unlock :: "addr \<Rightarrow> wakelocks \<Rightarrow> wakelocks" where
  "wake_unlock l s =
     (let t = lock_type (locks s l);
          s1 = wake_unlock_stat_locked l False s;
          s2 = add_inactive l (unlink l (clear_flags (WAKE_LOCK_ACTIVE OR WAKE_LOCK_AUTO_EXPIRE) l s1))
      in if t = WAKE_LOCK_SUSPEND then
           (let (has_lock, s3) = the (has_wake_lock_locked t s2);
                s4 = schedule_suspend has_lock s3
            in if l = main_wake_lock then update_sleep_wait_stats_locked False s4 else s4)
         else s2)"

subsection \<open>The suspend work\<close>

text \<open>\<open>suspend\<close> up to the call of \<open>pm_suspend\<close>: \<open>None\<close> if it is aborted, otherwise the number of the last
  event; and the rest, when \<open>pm_suspend\<close> has returned.\<close>

definition suspend_begin :: "wakelocks \<Rightarrow> u32 option \<times> wakelocks" where
  "suspend_begin s =
     (let (has, s1) = the (has_wake_lock WAKE_LOCK_SUSPEND s)
      in if has \<noteq> 0 then (None, s1) else (Some (current_event_num s1), s1))"

definition suspend_end :: "u32 \<Rightarrow> wakelocks \<Rightarrow> wakelocks option" where
  "suspend_end entry_event_num s =
     (if current_event_num s = entry_event_num
      then wake_lock_timeout unknown_wakeup (word_of_int (HZ div 2)) s
      else Some s)"

subsection \<open>Queries by name\<close>

fun has_wake_lock_internal_loop :: "wakelocks \<Rightarrow> string \<Rightarrow> addr list \<Rightarrow> bool" where
  "has_wake_lock_internal_loop s name [] = False"
| "has_wake_lock_internal_loop s name (l # ls) =
     (if flags (locks s l) AND WAKE_LOCK_AUTO_EXPIRE \<noteq> 0 then
        (if time_left s l > 0 \<and> lock_name (locks s l) = name then True
         else has_wake_lock_internal_loop s name ls)
      else if lock_name (locks s l) = name then True
      else has_wake_lock_internal_loop s name ls)"

definition has_wake_lock_internal :: "string \<Rightarrow> wakelocks \<Rightarrow> bool" where
  "has_wake_lock_internal name s =
     has_wake_lock_internal_loop s name (active_wake_locks s WAKE_LOCK_SUSPEND)"

definition has_audio_wake_lock :: "wakelocks \<Rightarrow> bool" where
  "has_audio_wake_lock s \<longleftrightarrow>
     has_wake_lock_internal ''AudioOutLock'' s \<and> \<not> has_wake_lock_internal ''vbus_present'' s
     \<and> \<not> has_wake_lock_internal ''bt-rfkill'' s"

subsection \<open>Initialisation\<close>

text \<open>The outcome of the three registrations: the platform device, the platform driver and the work queue.\<close>

definition wakelocks_exit_locks :: "wakelocks \<Rightarrow> wakelocks" where
  "wakelocks_exit_locks s =
     wake_lock_destroy deleted_wake_locks (wake_lock_destroy main_wake_lock (wake_lock_destroy unknown_wakeup s))"

definition wakelocks_init ::
    "errno option \<Rightarrow> errno option \<Rightarrow> bool \<Rightarrow> wakelocks \<Rightarrow> ((errno + nat) \<times> wakelocks) option" where
  "wakelocks_init device_reg driver_reg queue_ok s =
     (let s1 = s\<lparr>active_wake_locks := (\<lambda>t. if t < WAKE_LOCK_TYPE_COUNT then [] else active_wake_locks s t)\<rparr>;
          s2 = wake_lock_init deleted_wake_locks 0 ''deleted_wake_locks'' s1;
          s3 = wake_lock_init main_wake_lock 0 ''main'' s2
      in case wake_lock main_wake_lock s3 of
           None \<Rightarrow> None
         | Some s4 \<Rightarrow>
            (let s5 = wake_lock_init unknown_wakeup 0 ''unknown_wakeups'' s4 in
             case device_reg of
               Some e \<Rightarrow> Some (Inl e, wakelocks_exit_locks s5)
             | None \<Rightarrow>
                (case driver_reg of
                   Some e \<Rightarrow> Some (Inl e, wakelocks_exit_locks s5)
                 | None \<Rightarrow>
                     if queue_ok then Some (Inr 0, s5)
                     else Some (Inl ENOMEM, wakelocks_exit_locks s5))))"

section \<open>The locks without their statistics\<close>

text \<open>The statistics, and the flag \<open>WAKE_LOCK_PREVENTING_SUSPEND\<close> that serves them, do not influence
  the locks.  The abstract state leaves them out, and every operation is simulated by an operation on
  it.\<close>

record lock_view =
  v_init :: bool
  v_active :: bool
  v_auto :: bool
  v_type :: nat
  v_expires :: u32
  v_name :: string

record wl_abs =
  views :: "addr \<Rightarrow> lock_view"
  inact :: "addr list"
  act :: "nat \<Rightarrow> addr list"
  event_num :: u32
  timer :: "u32 option"
  works :: "power_work list"
  jif :: u32

definition lock_view_of :: "wake_lock_struct \<Rightarrow> lock_view" where
  "lock_view_of L = \<lparr>v_init = bit (flags L) 8, v_active = bit (flags L) 9, v_auto = bit (flags L) 10,
     v_type = lock_type L, v_expires = expires L, v_name = lock_name L\<rparr>"

definition wl_abs_of :: "wakelocks \<Rightarrow> wl_abs" where
  "wl_abs_of s = \<lparr>views = (\<lambda>l. lock_view_of (locks s l)), inact = inactive_locks s,
     act = active_wake_locks s, event_num = current_event_num s, timer = expire_timer s,
     works = suspend_work_queue s, jif = jiffies s\<rparr>"

subsection \<open>Flags\<close>

lemma wl_flag_bits:
  "f AND WAKE_LOCK_INITIALIZED = 0 \<longleftrightarrow> \<not> bit f 8"
  "f AND WAKE_LOCK_ACTIVE = 0 \<longleftrightarrow> \<not> bit f 9"
  "f AND WAKE_LOCK_AUTO_EXPIRE = 0 \<longleftrightarrow> \<not> bit f 10"
  "f AND WAKE_LOCK_PREVENTING_SUSPEND = 0 \<longleftrightarrow> \<not> bit f 11"
  using and_bit_iff [of WAKE_LOCK_INITIALIZED 8 f] and_bit_iff [of WAKE_LOCK_ACTIVE 9 f]
    and_bit_iff [of WAKE_LOCK_AUTO_EXPIRE 10 f] and_bit_iff [of WAKE_LOCK_PREVENTING_SUSPEND 11 f]
  by (auto simp: WAKE_LOCK_INITIALIZED_def WAKE_LOCK_ACTIVE_def WAKE_LOCK_AUTO_EXPIRE_def
      WAKE_LOCK_PREVENTING_SUSPEND_def)

lemma wl_bit_consts:
  "bit WAKE_LOCK_INITIALIZED i \<longleftrightarrow> i = 8" "bit WAKE_LOCK_ACTIVE i \<longleftrightarrow> i = 9"
  "bit WAKE_LOCK_AUTO_EXPIRE i \<longleftrightarrow> i = 10" "bit WAKE_LOCK_PREVENTING_SUSPEND i \<longleftrightarrow> i = 11"
  unfolding WAKE_LOCK_INITIALIZED_def WAKE_LOCK_ACTIVE_def WAKE_LOCK_AUTO_EXPIRE_def WAKE_LOCK_PREVENTING_SUSPEND_def
  by (rule word_bit_exp; simp)+

lemma bit_type_mask: "bit WAKE_LOCK_TYPE_MASK i \<longleftrightarrow> i < 4"
proof -
  have "WAKE_LOCK_TYPE_MASK = mask 4" by (simp add: WAKE_LOCK_TYPE_MASK_def mask_eq_exp_minus_1)
  then have "bit WAKE_LOCK_TYPE_MASK i \<longleftrightarrow> bit (mask 4 :: u32) i" by (rule arg_cong)
  then show ?thesis unfolding bit_mask_iff by auto
qed

lemma bit_clear: "i < 32 \<Longrightarrow> bit ((f::u32) AND NOT m) i \<longleftrightarrow> bit f i \<and> \<not> bit m i"
  by (auto simp: bit_and_iff bit_not_iff)

text \<open>Changing flags above the type leaves the type alone.\<close>

lemma lock_type_keep:
  assumes "\<And>i. i < 4 \<Longrightarrow> bit g i = bit f i"
  shows "lock_type (L\<lparr>flags := g\<rparr>) = unat (f AND WAKE_LOCK_TYPE_MASK)"
proof -
  have "g AND WAKE_LOCK_TYPE_MASK = f AND WAKE_LOCK_TYPE_MASK"
  proof (rule bit_eqI)
    fix i show "bit (g AND WAKE_LOCK_TYPE_MASK) i = bit (f AND WAKE_LOCK_TYPE_MASK) i"
      unfolding bit_and_iff bit_type_mask using assms by blast
  qed
  then show ?thesis by (simp add: lock_type_def)
qed

lemma view_set_flags:
  assumes "\<And>i. i < 4 \<Longrightarrow> bit g i = bit (flags L) i"
  shows "lock_view_of (L\<lparr>flags := g\<rparr>) =
    (lock_view_of L)\<lparr>v_init := bit g 8, v_active := bit g 9, v_auto := bit g 10\<rparr>"
  using lock_type_keep [of g "flags L" L, OF assms]
  by (simp add: lock_view_of_def lock_type_def)

lemma view_clear:
  assumes "\<And>i. i < 4 \<Longrightarrow> \<not> bit m i"
  shows "lock_view_of (L\<lparr>flags := flags L AND NOT m\<rparr>) = (lock_view_of L)\<lparr>v_init := bit (flags L) 8 \<and> \<not> bit m 8,
    v_active := bit (flags L) 9 \<and> \<not> bit m 9, v_auto := bit (flags L) 10 \<and> \<not> bit m 10\<rparr>"
  using view_set_flags [of "flags L AND NOT m" L] assms by (simp add: bit_clear)

lemma view_set:
  assumes "\<And>i. i < 4 \<Longrightarrow> \<not> bit m i"
  shows "lock_view_of (L\<lparr>flags := flags L OR m\<rparr>) = (lock_view_of L)\<lparr>v_init := bit (flags L) 8 \<or> bit m 8,
    v_active := bit (flags L) 9 \<or> bit m 9, v_auto := bit (flags L) 10 \<or> bit m 10\<rparr>"
  using view_set_flags [of "flags L OR m" L] assms by (simp add: bit_or_iff)

lemma view_flags:
  "lock_view_of (L\<lparr>flags := flags L AND NOT WAKE_LOCK_PREVENTING_SUSPEND\<rparr>) = lock_view_of L"
  "lock_view_of (L\<lparr>flags := flags L OR WAKE_LOCK_PREVENTING_SUSPEND\<rparr>) = lock_view_of L"
  "lock_view_of (L\<lparr>flags := flags L OR WAKE_LOCK_ACTIVE\<rparr>) = (lock_view_of L)\<lparr>v_active := True\<rparr>"
  "lock_view_of (L\<lparr>flags := flags L OR WAKE_LOCK_AUTO_EXPIRE\<rparr>) = (lock_view_of L)\<lparr>v_auto := True\<rparr>"
  "lock_view_of (L\<lparr>flags := flags L AND NOT WAKE_LOCK_AUTO_EXPIRE\<rparr>) = (lock_view_of L)\<lparr>v_auto := False\<rparr>"
  "lock_view_of (L\<lparr>flags := flags L AND NOT WAKE_LOCK_INITIALIZED\<rparr>) = (lock_view_of L)\<lparr>v_init := False\<rparr>"
  "lock_view_of (L\<lparr>flags := flags L AND NOT (WAKE_LOCK_ACTIVE OR WAKE_LOCK_AUTO_EXPIRE)\<rparr>) =
     (lock_view_of L)\<lparr>v_active := False, v_auto := False\<rparr>"
  using view_clear [of WAKE_LOCK_PREVENTING_SUSPEND L] view_set [of WAKE_LOCK_PREVENTING_SUSPEND L]
    view_set [of WAKE_LOCK_ACTIVE L] view_set [of WAKE_LOCK_AUTO_EXPIRE L] view_clear [of WAKE_LOCK_AUTO_EXPIRE L]
    view_clear [of WAKE_LOCK_INITIALIZED L] view_clear [of "WAKE_LOCK_ACTIVE OR WAKE_LOCK_AUTO_EXPIRE" L]
  unfolding bit_or_iff wl_bit_consts by (simp_all add: lock_view_of_def del: bit.conj_disj_distribs)

subsection \<open>The abstract operations and the simulation\<close>

definition a_left :: "wl_abs \<Rightarrow> addr \<Rightarrow> int" where
  "a_left a l = sint (v_expires (views a l) - jif a)"

definition a_release :: "addr \<Rightarrow> wl_abs \<Rightarrow> wl_abs" where
  "a_release l a = a\<lparr>views := (views a)(l := (views a l)\<lparr>v_active := False, v_auto := False\<rparr>),
     inact := l # remove1 l (inact a), act := (\<lambda>t. remove1 l (act a t))\<rparr>"

fun a_has :: "addr list \<Rightarrow> int \<Rightarrow> wl_abs \<Rightarrow> int \<times> wl_abs" where
  "a_has [] m a = (m, a)"
| "a_has (l # ls) m a =
     (if v_auto (views a l)
      then if a_left a l \<le> 0 then a_has ls m (a_release l a) else a_has ls (max m (a_left a l)) a
      else (-1, a))"

definition a_schedule :: "int \<Rightarrow> wl_abs \<Rightarrow> wl_abs" where
  "a_schedule n a =
     (if n > 0 then a\<lparr>timer := Some (jif a + word_of_int n)\<rparr>
      else if n = 0 then a\<lparr>timer := None, works := (if suspend_work \<in> set (works a) then works a else works a @ [suspend_work])\<rparr>
      else a\<lparr>timer := None\<rparr>)"

definition a_insert :: "addr \<Rightarrow> u32 option \<Rightarrow> wl_abs \<Rightarrow> wl_abs" where
  "a_insert l timeout a =
     (let t = v_type (views a l); act1 = (\<lambda>t. remove1 l (act a t)) in
      case timeout of
        None \<Rightarrow> a\<lparr>views := (views a)(l := (views a l)\<lparr>v_active := True, v_auto := False, v_expires := LONG_MAX\<rparr>),
                  inact := remove1 l (inact a), act := act1(t := l # act1 t)\<rparr>
      | Some d \<Rightarrow> a\<lparr>views := (views a)(l := (views a l)\<lparr>v_active := True, v_auto := True, v_expires := jif a + d\<rparr>),
                    inact := remove1 l (inact a), act := act1(t := act1 t @ [l])\<rparr>)"

definition a_lock :: "addr \<Rightarrow> u32 option \<Rightarrow> wl_abs \<Rightarrow> wl_abs option" where
  "a_lock l timeout a =
     (let t = v_type (views a l) in
      if t \<ge> 2 \<or> \<not> v_init (views a l) then None
      else (let a1 = a_insert l timeout a in
            if t \<noteq> 0 then Some a1
            else (let a2 = a1\<lparr>event_num := event_num a1 + 1\<rparr>;
                      (n, a3) = (if timeout = None then (-1, a2) else a_has (act a2 0) 0 a2)
                  in Some (a_schedule n a3))))"

definition a_unlock :: "addr \<Rightarrow> wl_abs \<Rightarrow> wl_abs" where
  "a_unlock l a =
     (let a1 = a_release l a in
      if v_type (views a l) = 0 then (let (n, a2) = a_has (act a1 0) 0 a1 in a_schedule n a2) else a1)"

lemma abs_fields [simp]:
  "views (wl_abs_of s) l = lock_view_of (locks s l)" "inact (wl_abs_of s) = inactive_locks s"
  "act (wl_abs_of s) = active_wake_locks s" "event_num (wl_abs_of s) = current_event_num s"
  "timer (wl_abs_of s) = expire_timer s" "works (wl_abs_of s) = suspend_work_queue s" "jif (wl_abs_of s) = jiffies s"
  by (simp_all add: wl_abs_of_def)

lemma view_fields [simp]:
  "v_init (lock_view_of L) = bit (flags L) 8" "v_active (lock_view_of L) = bit (flags L) 9"
  "v_auto (lock_view_of L) = bit (flags L) 10" "v_type (lock_view_of L) = lock_type L"
  "v_expires (lock_view_of L) = expires L" "v_name (lock_view_of L) = lock_name L"
  by (simp_all add: lock_view_of_def)

lemma view_other:
  "lock_view_of (L\<lparr>stat := st\<rparr>) = lock_view_of L"
  "lock_view_of (L\<lparr>expires := e\<rparr>) = (lock_view_of L)\<lparr>v_expires := e\<rparr>"
  by (simp_all add: lock_view_of_def lock_type_def)

text \<open>Changing one lock.\<close>

lemma abs_upd_lock:
  "wl_abs_of (upd_lock l f s) = (wl_abs_of s)\<lparr>views := (views (wl_abs_of s))(l := lock_view_of (f (locks s l)))\<rparr>"
  by (simp add: wl_abs_of_def upd_lock_def fun_eq_iff)

lemma abs_view_cong: "wl_abs_of s = wl_abs_of t \<Longrightarrow> lock_view_of (locks s l) = lock_view_of (locks t l)"
  by (metis abs_fields(1))

lemma abs_upd_same:
  "lock_view_of (f (locks s l)) = lock_view_of (locks s l) \<Longrightarrow> wl_abs_of (upd_lock l f s) = wl_abs_of s"
  by (simp add: wl_abs_of_def upd_lock_def fun_eq_iff)

lemma abs_time_left [simp]: "a_left (wl_abs_of s) l = time_left s l"
  by (simp add: a_left_def time_left_def)

lemma abs_stat [simp]: "wl_abs_of (wake_unlock_stat_locked l e s) = wl_abs_of s"
proof (cases "flags (locks s l) AND WAKE_LOCK_ACTIVE = 0")
  case False
  have "lock_view_of (L\<lparr>stat := st, flags := flags L AND NOT WAKE_LOCK_PREVENTING_SUSPEND\<rparr>) = lock_view_of L" for L st
    using view_flags(1) [of "L\<lparr>stat := st\<rparr>"] view_other(1) [of st L] by simp
  with False show ?thesis
    by (simp add: wake_unlock_stat_locked_def Let_def view_other abs_upd_same)
qed (simp add: wake_unlock_stat_locked_def)

lemma abs_update_sleep_one [simp]: "wl_abs_of (update_sleep_one d l s) = wl_abs_of s"
proof -
  have v: "lock_view_of (if b then L\<lparr>flags := flags L AND NOT WAKE_LOCK_PREVENTING_SUSPEND\<rparr>
      else L\<lparr>flags := flags L OR WAKE_LOCK_PREVENTING_SUSPEND\<rparr>) = lock_view_of L" for b L
    by (simp add: view_flags)
  show ?thesis unfolding update_sleep_one_def Let_def
    by (rule abs_upd_same, unfold v) (simp add: view_other)
qed

lemma abs_update_sleep [simp]: "wl_abs_of (update_sleep_wait_stats_locked d s) = wl_abs_of s"
proof -
  have "wl_abs_of (fold (update_sleep_one d) xs s) = wl_abs_of s" for xs
    by (induction xs arbitrary: s) simp_all
  then show ?thesis by (simp add: update_sleep_wait_stats_locked_def wl_abs_of_def)
qed

lemma abs_release:
  "wl_abs_of (add_inactive l (unlink l (clear_flags (WAKE_LOCK_ACTIVE OR WAKE_LOCK_AUTO_EXPIRE) l s))) =
   a_release l (wl_abs_of s)"
proof -
  obtain m where m: "WAKE_LOCK_ACTIVE OR WAKE_LOCK_AUTO_EXPIRE = m" by blast
  show ?thesis unfolding m
    by (simp add: wl_abs_of_def add_inactive_def unlink_def clear_flags_def upd_lock_def a_release_def
        fun_eq_iff view_flags(7) [unfolded m])
qed

lemma abs_expire [simp]: "wl_abs_of (expire_wake_lock l s) = a_release l (wl_abs_of s)"
  unfolding expire_wake_lock_def Let_def abs_release by simp

lemma abs_has_loop:
  "fst (has_wake_lock_loop xs m s) = fst (a_has xs m (wl_abs_of s))
   \<and> wl_abs_of (snd (has_wake_lock_loop xs m s)) = snd (a_has xs m (wl_abs_of s))"
proof (induction xs arbitrary: m s)
  case (Cons l ls)
  have auto: "flags (locks s l) AND WAKE_LOCK_AUTO_EXPIRE \<noteq> 0 \<longleftrightarrow> v_auto (views (wl_abs_of s) l)"
    by (simp add: wl_flag_bits)
  have m: "(if time_left s l > m then time_left s l else m) = max m (time_left s l)" by (simp add: max_def)
  show ?case
    using Cons.IH [of m "expire_wake_lock l s"] Cons.IH [of "max m (time_left s l)" s]
    unfolding has_wake_lock_loop.simps a_has.simps auto m Let_def abs_time_left by simp
qed simp

lemma abs_schedule [simp]: "wl_abs_of (schedule_suspend n s) = a_schedule n (wl_abs_of s)"
  by (simp add: wl_abs_of_def schedule_suspend_def a_schedule_def mod_timer_def del_timer_def queue_work_def Let_def)

lemma abs_note [simp]:
  "wl_abs_of (note_wakeup l s) = wl_abs_of s" "wl_abs_of (note_expired l s) = wl_abs_of s"
proof -
  have "wl_abs_of (s\<lparr>wait_for_wakeup := b\<rparr>) = wl_abs_of s" for b by (simp add: wl_abs_of_def)
  then show "wl_abs_of (note_wakeup l s) = wl_abs_of s"
    by (simp add: note_wakeup_def abs_upd_same view_other)
  show "wl_abs_of (note_expired l s) = wl_abs_of s"
    by (simp add: note_expired_def abs_upd_same view_other)
qed

lemma abs_activate: "wl_abs_of (activate l s) =
   (wl_abs_of s)\<lparr>views := (views (wl_abs_of s))(l := (lock_view_of (locks s l))\<lparr>v_active := True\<rparr>)\<rparr>"
proof (cases "bit (flags (locks s l)) 9")
  case True
  then have "(lock_view_of (locks s l))\<lparr>v_active := True\<rparr> = lock_view_of (locks s l)" by (simp add: lock_view_of_def)
  with True show ?thesis by (simp add: activate_def wl_flag_bits wl_abs_of_def fun_eq_iff)
next
  case False
  have "lock_view_of (L\<lparr>flags := flags L OR WAKE_LOCK_ACTIVE, stat := st\<rparr>) = (lock_view_of L)\<lparr>v_active := True\<rparr>" for L st
    using view_flags(3) [of L] view_other(1) [of st "L\<lparr>flags := flags L OR WAKE_LOCK_ACTIVE\<rparr>"] by simp
  with False show ?thesis by (simp add: activate_def wl_flag_bits abs_upd_lock)
qed

lemma abs_relink:
  assumes "bit (flags (locks s l)) 9" "lock_type (locks s l) = t"
  shows "wl_abs_of (relink_active l t d has s) = a_insert l (if has then Some d else None) (wl_abs_of s)"
proof -
  have v: "lock_view_of (L\<lparr>expires := e, flags := flags L OR WAKE_LOCK_AUTO_EXPIRE\<rparr>) = (lock_view_of L)\<lparr>v_auto := True, v_expires := e\<rparr>"
    "lock_view_of (L\<lparr>expires := e, flags := flags L AND NOT WAKE_LOCK_AUTO_EXPIRE\<rparr>) = (lock_view_of L)\<lparr>v_auto := False, v_expires := e\<rparr>" for L e
    using view_flags(4,5) [of "L\<lparr>expires := e\<rparr>"] view_other(2) [of e L] by simp_all
  have act: "(lock_view_of (locks s l))\<lparr>v_active := True, v_auto := b, v_expires := e\<rparr>
      = (lock_view_of (locks s l))\<lparr>v_auto := b, v_expires := e\<rparr>" for b e
    using assms(1) by (simp add: lock_view_of_def)
  show ?thesis
    using assms(2) act
    by (simp add: relink_active_def a_insert_def Let_def wl_abs_of_def add_active_def add_active_tail_def
        unlink_def upd_lock_def fun_eq_iff v)
qed

lemma a_insert_activate:
  "a_insert l d (a\<lparr>views := (views a)(l := (views a l)\<lparr>v_active := True\<rparr>)\<rparr>) = a_insert l d a"
  by (cases d) (simp_all add: a_insert_def Let_def)

text \<open>The operations simulate the abstract ones.\<close>

lemma abs_wake_lock_internal:
  "map_option wl_abs_of (wake_lock_internal l d has s) = a_lock l (if has then Some d else None) (wl_abs_of s)"
proof (cases "lock_type (locks s l) \<ge> WAKE_LOCK_TYPE_COUNT \<or> flags (locks s l) AND WAKE_LOCK_INITIALIZED = 0")
  case True
  then show ?thesis
    by (auto simp: wake_lock_internal_def a_lock_def Let_def wl_flag_bits WAKE_LOCK_TYPE_COUNT_def)
next
  case False
  let ?t = "lock_type (locks s l)" and ?d = "if has then Some d else None"
  let ?s0 = "activate l (note_expired l (note_wakeup l s))"
  let ?s1 = "relink_active l ?t d has ?s0"
  have v0: "lock_view_of (locks (note_expired l (note_wakeup l s)) l) = lock_view_of (locks s l)"
    by (rule abs_view_cong) simp
  have s0: "wl_abs_of ?s0 = (wl_abs_of s)\<lparr>views := (views (wl_abs_of s))(l := (views (wl_abs_of s) l)\<lparr>v_active := True\<rparr>)\<rparr>"
    using v0 by (simp add: abs_activate)
  then have "lock_view_of (locks ?s0 l) = (lock_view_of (locks s l))\<lparr>v_active := True\<rparr>"
    by (metis abs_fields(1) fun_upd_same wl_abs.select_convs(1) wl_abs.simps(1) wl_abs.update_convs(1) wl_abs.surjective)
  then have "bit (flags (locks ?s0 l)) 9" "lock_type (locks ?s0 l) = ?t"
    by (simp_all add: lock_view_of_def)
  from abs_relink [OF this] have s1: "wl_abs_of ?s1 = a_insert l ?d (wl_abs_of s)"
    unfolding s0 a_insert_activate .
  show ?thesis
  proof (cases "?t = 0")
    case t: True
    let ?s2 = "?s1\<lparr>current_event_num := current_event_num ?s1 + 1\<rparr>"
    let ?s3 = "if l = main_wake_lock then update_sleep_wait_stats_locked True ?s2
       else if \<not> wake_lock_active ?s2 main_wake_lock then update_sleep_wait_stats_locked False ?s2 else ?s2"
    have "wl_abs_of ?s2 = (wl_abs_of ?s1)\<lparr>event_num := event_num (wl_abs_of ?s1) + 1\<rparr>" by (simp add: wl_abs_of_def)
    then have "wl_abs_of ?s2 = (a_insert l ?d (wl_abs_of s))\<lparr>event_num := event_num (a_insert l ?d (wl_abs_of s)) + 1\<rparr>"
      unfolding s1 .
    moreover have "wl_abs_of ?s3 = wl_abs_of ?s2" by (simp only: abs_update_sleep split: if_split) simp
    ultimately have s3: "wl_abs_of ?s3 = (a_insert l ?d (wl_abs_of s))\<lparr>event_num := event_num (a_insert l ?d (wl_abs_of s)) + 1\<rparr>"
      by (rule back_subst [of "\<lambda>x. wl_abs_of ?s3 = x", rotated])
    have res: "wake_lock_internal l d has s =
        (if has then Some (case has_wake_lock_loop (active_wake_locks ?s3 0) 0 ?s3 of (n, s4) \<Rightarrow> schedule_suspend n s4)
         else Some (schedule_suspend (-1) ?s3))"
      using False t unfolding wake_lock_internal_def Let_def has_wake_lock_locked_def
      by (simp add: WAKE_LOCK_SUSPEND_def WAKE_LOCK_TYPE_COUNT_def)
    have lists: "active_wake_locks ?s3 0 = act (wl_abs_of ?s3) 0" by simp
    show ?thesis
      unfolding res lists using abs_has_loop [of "act (wl_abs_of ?s3) 0" 0 ?s3] False t s3
      by (auto simp: a_lock_def Let_def case_prod_beta wl_flag_bits WAKE_LOCK_TYPE_COUNT_def)
  next
    case t: False
    then have "wake_lock_internal l d has s = Some ?s1"
      using False unfolding wake_lock_internal_def Let_def by (simp add: WAKE_LOCK_SUSPEND_def)
    with s1 t False show ?thesis by (auto simp: a_lock_def Let_def wl_flag_bits WAKE_LOCK_TYPE_COUNT_def)
  qed
qed

lemma abs_wake_unlock: "wl_abs_of (wake_unlock l s) = a_unlock l (wl_abs_of s)"
proof -
  let ?s2 = "add_inactive l (unlink l (clear_flags (WAKE_LOCK_ACTIVE OR WAKE_LOCK_AUTO_EXPIRE) l (wake_unlock_stat_locked l False s)))"
  have s2: "wl_abs_of ?s2 = a_release l (wl_abs_of s)" unfolding abs_release by simp
  have lists: "active_wake_locks ?s2 0 = act (wl_abs_of ?s2) 0" by simp
  show ?thesis
  proof (cases "lock_type (locks s l) = 0")
    case True
    let ?h = "has_wake_lock_loop (active_wake_locks ?s2 0) 0 ?s2"
    have "wl_abs_of (wake_unlock l s) = a_schedule (fst ?h) (wl_abs_of (snd ?h))"
      using True unfolding wake_unlock_def Let_def has_wake_lock_locked_def
      by (simp add: WAKE_LOCK_SUSPEND_def WAKE_LOCK_TYPE_COUNT_def case_prod_beta)
    with True show ?thesis
      using abs_has_loop [of "act (wl_abs_of ?s2) 0" 0 ?s2] unfolding lists
      by (simp add: a_unlock_def Let_def case_prod_beta s2)
  next
    case False
    then have "wake_unlock l s = ?s2" by (simp add: wake_unlock_def Let_def WAKE_LOCK_SUSPEND_def)
    with False s2 show ?thesis by (simp add: a_unlock_def Let_def)
  qed
qed

section \<open>Invariants\<close>

text \<open>A lock is on exactly one list, the one its flags tell; on the active lists the locks without
  a timeout come first.\<close>

definition known :: "wl_abs \<Rightarrow> addr set" where
  "known a = set (inact a) \<union> set (act a 0) \<union> set (act a 1)"

definition a_inv :: "wl_abs \<Rightarrow> bool" where
  "a_inv a \<longleftrightarrow> distinct (inact a @ act a 0 @ act a 1)
     \<and> (\<forall>l\<in>set (inact a). v_init (views a l) \<and> \<not> v_active (views a l) \<and> \<not> v_auto (views a l) \<and> v_type (views a l) < 2)
     \<and> (\<forall>t<2. \<forall>l\<in>set (act a t). v_init (views a l) \<and> v_active (views a l) \<and> v_type (views a l) = t)
     \<and> (\<forall>t<2. sorted_wrt (\<lambda>l k. v_auto (views a l) \<longrightarrow> v_auto (views a k)) (act a t))"

lemma less_two: "(t::nat) < 2 \<longleftrightarrow> t = 0 \<or> t = 1" by auto

lemma a_invD:
  assumes "a_inv a"
  shows "distinct (inact a)" "t < 2 \<Longrightarrow> distinct (act a t)" "t < 2 \<Longrightarrow> set (inact a) \<inter> set (act a t) = {}"
    "set (act a 0) \<inter> set (act a 1) = {}"
    "l \<in> set (inact a) \<Longrightarrow> v_init (views a l) \<and> \<not> v_active (views a l) \<and> \<not> v_auto (views a l) \<and> v_type (views a l) < 2"
    "t < 2 \<Longrightarrow> l \<in> set (act a t) \<Longrightarrow> v_init (views a l) \<and> v_active (views a l) \<and> v_type (views a l) = t"
    "t < 2 \<Longrightarrow> sorted_wrt (\<lambda>l k. v_auto (views a l) \<longrightarrow> v_auto (views a k)) (act a t)"
proof -
  have d: "distinct (inact a @ act a 0 @ act a 1)" using assms unfolding a_inv_def by (elim conjE)
  then show "distinct (inact a)" "set (act a 0) \<inter> set (act a 1) = {}" by auto
  show "distinct (act a t)" if "t < 2" using that d unfolding less_two by auto
  show "set (inact a) \<inter> set (act a t) = {}" if "t < 2" using that d unfolding less_two by auto
qed (use assms in \<open>unfold a_inv_def, blast\<close>)+

lemma known_view:
  assumes "a_inv a" "l \<in> known a"
  shows "v_init (views a l) \<and> v_type (views a l) < 2"
proof -
  consider "l \<in> set (inact a)" | "l \<in> set (act a 0)" | "l \<in> set (act a 1)" using assms(2) unfolding known_def by blast
  then show ?thesis
  proof cases
    case 1 then show ?thesis using a_invD(5) [OF assms(1)] by blast
  next
    case 2 then show ?thesis using a_invD(6) [OF assms(1), of 0] by simp
  next
    case 3 then show ?thesis using a_invD(6) [OF assms(1), of 1] by simp
  qed
qed

lemma a_release_sets:
  assumes "a_inv a"
  shows "inact (a_release l a) = l # remove1 l (inact a)" "act (a_release l a) t = remove1 l (act a t)"
    "t < 2 \<Longrightarrow> set (act (a_release l a) t) = set (act a t) - {l}"
    "set (inact (a_release l a)) = insert l (set (inact a))"
    "views (a_release l a) k = (if k = l then (views a l)\<lparr>v_active := False, v_auto := False\<rparr> else views a k)"
    "a_left (a_release l a) k = a_left a k" "jif (a_release l a) = jif a"
    "timer (a_release l a) = timer a" "works (a_release l a) = works a" "event_num (a_release l a) = event_num a"
  using a_invD(1,2) [OF assms] by (auto simp: a_release_def a_left_def)

lemma a_release_inv:
  assumes inv: "a_inv a" and l: "l \<in> known a"
  shows "a_inv (a_release l a)" "known (a_release l a) = known a"
proof -
  note D = a_invD [OF inv] and S = a_release_sets [OF inv, where l = l]
  have R: "set (act (a_release l a) 0) = set (act a 0) - {l}" "set (act (a_release l a) 1) = set (act a 1) - {l}"
    by (rule S(3), simp)+
  show "known (a_release l a) = known a" unfolding known_def R S(4) using l unfolding known_def by blast
  have dist: "distinct (inact (a_release l a) @ act (a_release l a) 0 @ act (a_release l a) 1)"
  proof -
    have "distinct (inact (a_release l a))" "distinct (act (a_release l a) 0)" "distinct (act (a_release l a) 1)"
      using D(1) D(2) [of 0] D(2) [of 1] by (simp_all add: S(1,2))
    moreover have "set (inact a) \<inter> set (act a 0) = {}" "set (inact a) \<inter> set (act a 1) = {}" by (rule D(3), simp)+
    ultimately show ?thesis using D(4) unfolding distinct_append set_append R S(4) by blast
  qed
  have vl: "v_init (views a l) \<and> v_type (views a l) < 2" using known_view [OF inv l] .
  have sorted: "sorted_wrt (\<lambda>k m. v_auto (views (a_release l a) k) \<longrightarrow> v_auto (views (a_release l a) m)) (act (a_release l a) t)"
    if t: "t < 2" for t
  proof -
    have "sorted_wrt (\<lambda>k m. v_auto (views a k) \<longrightarrow> v_auto (views a m)) (act (a_release l a) t)"
      unfolding S(2) by (rule sorted_wrt_remove1 [OF D(7) [OF t]])
    then show ?thesis
    proof (rule sorted_wrt_mono_rel [rotated])
      fix k m assume "k \<in> set (act (a_release l a) t)" "m \<in> set (act (a_release l a) t)"
        and "v_auto (views a k) \<longrightarrow> v_auto (views a m)"
      then show "v_auto (views (a_release l a) k) \<longrightarrow> v_auto (views (a_release l a) m)"
        using S(3) [OF t] by (simp add: S(5))
    qed
  qed
  show "a_inv (a_release l a)"
    unfolding a_inv_def
  proof (intro conjI dist allI impI ballI)
    fix k assume "k \<in> set (inact (a_release l a))"
    then show "v_init (views (a_release l a) k)" "\<not> v_active (views (a_release l a) k)"
      "\<not> v_auto (views (a_release l a) k)" "v_type (views (a_release l a) k) < 2"
      using vl D(5) [of k] by (auto simp: S(4,5))
  next
    fix t :: nat and k assume t: "t < 2" and "k \<in> set (act (a_release l a) t)"
    then show "v_init (views (a_release l a) k)" "v_active (views (a_release l a) k)" "v_type (views (a_release l a) k) = t"
      using D(6) [OF t, of k] S(3) [OF t] by (auto simp: S(5))
  qed (use sorted in blast)
qed

text \<open>Activating a lock.\<close>

lemma a_insert_inv:
  assumes inv: "a_inv a" and l: "l \<in> known a"
  shows "a_inv (a_insert l d a)" "known (a_insert l d a) = known a"
    "t < 2 \<Longrightarrow> set (act (a_insert l d a) t) = (if t = v_type (views a l) then insert l (set (act a t)) else set (act a t) - {l})"
    "views (a_insert l d a) l = (views a l)\<lparr>v_active := True, v_auto := (d \<noteq> None),
       v_expires := (case d of None \<Rightarrow> LONG_MAX | Some n \<Rightarrow> jif a + n)\<rparr>"
    "k \<noteq> l \<Longrightarrow> views (a_insert l d a) k = views a k" "jif (a_insert l d a) = jif a"
    "timer (a_insert l d a) = timer a" "works (a_insert l d a) = works a"
proof -
  note D = a_invD [OF inv]
  let ?b = "a_insert l d a" and ?t = "v_type (views a l)"
  have vl: "v_init (views a l)" "?t < 2" using known_view [OF inv l] by auto
  show V: "views ?b l = (views a l)\<lparr>v_active := True, v_auto := (d \<noteq> None),
       v_expires := (case d of None \<Rightarrow> LONG_MAX | Some n \<Rightarrow> jif a + n)\<rparr>"
    and W: "k \<noteq> l \<Longrightarrow> views ?b k = views a k" for k
    by (auto simp: a_insert_def Let_def split: option.split)
  show "jif ?b = jif a" "timer ?b = timer a" "works ?b = works a" by (simp_all add: a_insert_def Let_def split: option.split)
  have I: "inact ?b = remove1 l (inact a)"
    and A: "act ?b t = (if t = ?t then (if d = None then l # remove1 l (act a t) else remove1 l (act a t) @ [l])
       else remove1 l (act a t))" for t
    by (auto simp: a_insert_def Let_def split: option.split)
  have IS: "set (inact ?b) = set (inact a) - {l}" using D(1) by (simp add: I)
  show AS: "t < 2 \<Longrightarrow> set (act ?b t) = (if t = ?t then insert l (set (act a t)) else set (act a t) - {l})" for t
    using D(2) [of t] by (auto simp: A)
  have AB: "set (act ?b 0) = (if 0 = ?t then insert l (set (act a 0)) else set (act a 0) - {l})"
    "set (act ?b 1) = (if 1 = ?t then insert l (set (act a 1)) else set (act a 1) - {l})"
    by (rule AS, simp)+
  show "known ?b = known a"
    using l vl(2) unfolding known_def IS AB less_two by auto
  have dist: "distinct (inact ?b @ act ?b 0 @ act ?b 1)"
  proof -
    have "distinct (act ?b t)" if "t < 2" for t using D(2) [OF that] by (auto simp: A)
    then have "distinct (act ?b 0)" "distinct (act ?b 1)" by simp_all
    moreover have "distinct (inact ?b)" using D(1) by (simp add: I)
    moreover have "set (inact a) \<inter> set (act a 0) = {}" "set (inact a) \<inter> set (act a 1) = {}" by (rule D(3), simp)+
    moreover have "set (act ?b 0) \<subseteq> insert l (set (act a 0))" "set (act ?b 1) \<subseteq> insert l (set (act a 1))"
      "l \<notin> set (act ?b 0) \<or> l \<notin> set (act ?b 1)"
      unfolding AB by auto
    ultimately show ?thesis using D(4) unfolding distinct_append set_append IS by blast
  qed
  have sorted: "sorted_wrt (\<lambda>k m. v_auto (views ?b k) \<longrightarrow> v_auto (views ?b m)) (act ?b t)" if t: "t < 2" for t
  proof -
    have r: "sorted_wrt (\<lambda>k m. v_auto (views a k) \<longrightarrow> v_auto (views a m)) (remove1 l (act a t))"
      by (rule sorted_wrt_remove1 [OF D(7) [OF t]])
    have "sorted_wrt (\<lambda>k m. v_auto (views ?b k) \<longrightarrow> v_auto (views ?b m)) (remove1 l (act a t))"
      by (rule sorted_wrt_mono_rel [OF _ r]) (use D(2) [OF t] W in auto)
    then show ?thesis using V by (auto simp: A sorted_wrt_append)
  qed
  show "a_inv ?b"
    unfolding a_inv_def
  proof (intro conjI dist allI impI ballI)
    fix k assume "k \<in> set (inact ?b)"
    then show "v_init (views ?b k)" "\<not> v_active (views ?b k)" "\<not> v_auto (views ?b k)" "v_type (views ?b k) < 2"
      using D(5) [of k] W [of k] by (auto simp: IS)
  next
    fix t :: nat and k assume t: "t < 2" and k: "k \<in> set (act ?b t)"
    show "v_init (views ?b k)" "v_active (views ?b k)" "v_type (views ?b k) = t"
      using k D(6) [OF t, of k] W [of k] V vl AS [OF t] by (cases "k = l"; auto split: if_splits)+
  qed (use sorted in blast)
qed

text \<open>What a query for active locks does: expired locks are released, nothing else changes, and the
  answer is \<open>-1\<close> if there is a lock without a timeout, otherwise the time until the last lock expires
  (0 if there is none).\<close>

definition expired_locks :: "wl_abs \<Rightarrow> nat \<Rightarrow> addr set" where
  "expired_locks a t = {l \<in> set (act a t). a_left a l \<le> 0}"

definition permanent :: "wl_abs \<Rightarrow> nat \<Rightarrow> bool" where
  "permanent a t \<longleftrightarrow> (\<exists>l\<in>set (act a t). \<not> v_auto (views a l))"

definition has_result :: "wl_abs \<Rightarrow> nat \<Rightarrow> int" where
  "has_result a t = (if permanent a t then -1 else Max (insert 0 (a_left a ` set (act a t))))"

definition a_frame :: "addr set \<Rightarrow> wl_abs \<Rightarrow> wl_abs \<Rightarrow> bool" where
  "a_frame E a b \<longleftrightarrow> a_inv b \<and> known b = known a \<and> jif b = jif a \<and> timer b = timer a \<and> works b = works a
     \<and> event_num b = event_num a \<and> (\<forall>l. a_left b l = a_left a l) \<and> (\<forall>l. v_type (views b l) = v_type (views a l))
     \<and> (\<forall>l. l \<notin> E \<longrightarrow> views b l = views a l) \<and> (\<forall>t<2. set (act b t) = set (act a t) - E)"

lemma a_frame_refl: "a_inv a \<Longrightarrow> a_frame {} a a"
  by (simp add: a_frame_def)

lemma a_frame_release:
  assumes "a_inv a" "l \<in> known a" "a_frame E (a_release l a) b"
  shows "a_frame (insert l E) a b"
  using assms(3) a_release_inv(2) [OF assms(1,2)] a_release_sets(3,5-10) [OF assms(1), where l = l]
  unfolding a_frame_def by auto

lemma a_has_auto:
  assumes "a_inv a" "t < 2" "distinct xs" "set xs \<subseteq> set (act a t)" "\<forall>l\<in>set xs. v_auto (views a l)"
  shows "\<exists>n b. a_has xs m a = (n, b) \<and> a_frame {l \<in> set xs. a_left a l \<le> 0} a b
     \<and> m \<le> n \<and> (\<forall>l\<in>set xs. 0 < a_left a l \<longrightarrow> a_left a l \<le> n) \<and> (n = m \<or> (\<exists>l\<in>set xs. a_left a l = n))"
  using assms
proof (induction xs arbitrary: a m)
  case Nil
  then show ?case by (simp add: a_frame_refl)
next
  case (Cons l xs)
  have l: "l \<in> set (act a t)" "v_auto (views a l)" "l \<notin> set xs" using Cons.prems by auto
  have k: "l \<in> known a" using l(1) Cons.prems(2) unfolding known_def less_two by auto
  show ?case
  proof (cases "a_left a l \<le> 0")
    case True
    let ?a = "a_release l a"
    note S = a_release_sets [OF Cons.prems(1), where l = l]
    have "set xs \<subseteq> set (act ?a t)" using Cons.prems(2,3,4) by (auto simp: S(3))
    moreover have "\<forall>k\<in>set xs. v_auto (views ?a k)" using Cons.prems(5) l(3) by (auto simp: S(5))
    ultimately obtain n b where nb: "a_has xs m ?a = (n, b)" "a_frame {k \<in> set xs. a_left ?a k \<le> 0} ?a b"
      "m \<le> n" "\<forall>k\<in>set xs. 0 < a_left ?a k \<longrightarrow> a_left ?a k \<le> n" "n = m \<or> (\<exists>k\<in>set xs. a_left ?a k = n)"
      using Cons.IH [of ?a m] a_release_inv(1) [OF Cons.prems(1) k] Cons.prems(2,3) by auto
    have "a_frame (insert l {k \<in> set xs. a_left a k \<le> 0}) a b"
      using a_frame_release [OF Cons.prems(1) k nb(2)] unfolding S(6) .
    moreover have "insert l {k \<in> set xs. a_left a k \<le> 0} = {k \<in> set (l # xs). a_left a k \<le> 0}" using True by auto
    ultimately show ?thesis
      using nb(1,3,4,5) True l(2) unfolding S(6) by (intro exI [of _ n] exI [of _ b]) auto
  next
    case False
    obtain n b where nb: "a_has xs (max m (a_left a l)) a = (n, b)" "a_frame {k \<in> set xs. a_left a k \<le> 0} a b"
      "max m (a_left a l) \<le> n" "\<forall>k\<in>set xs. 0 < a_left a k \<longrightarrow> a_left a k \<le> n"
      "n = max m (a_left a l) \<or> (\<exists>k\<in>set xs. a_left a k = n)"
      using Cons.IH [of a "max m (a_left a l)"] Cons.prems by auto
    moreover have "{k \<in> set (l # xs). a_left a k \<le> 0} = {k \<in> set xs. a_left a k \<le> 0}" using False by auto
    ultimately show ?thesis
      using False l(2) by (intro exI [of _ n] exI [of _ b]) (auto simp: max_def split: if_splits)
  qed
qed

lemma a_has_result:
  assumes inv: "a_inv a" and t: "t < 2"
  shows "\<exists>b. a_has (act a t) 0 a = (has_result a t, b)
     \<and> a_frame (if permanent a t then {} else expired_locks a t) a b"
proof (cases "permanent a t")
  case True
  then obtain l ls where act: "act a t = l # ls" by (cases "act a t") (auto simp: permanent_def)
  have "\<not> v_auto (views a l)"
    using True a_invD(7) [OF inv t] unfolding act permanent_def by auto
  with True act a_frame_refl [OF inv] show ?thesis by (simp add: has_result_def)
next
  case False
  then have au: "\<forall>l\<in>set (act a t). v_auto (views a l)" by (simp add: permanent_def)
  obtain n b where nb: "a_has (act a t) 0 a = (n, b)" "a_frame {l \<in> set (act a t). a_left a l \<le> 0} a b"
     "0 \<le> n" "\<forall>l\<in>set (act a t). 0 < a_left a l \<longrightarrow> a_left a l \<le> n" "n = 0 \<or> (\<exists>l\<in>set (act a t). a_left a l = n)"
    using a_has_auto [OF inv t a_invD(2) [OF inv t] order_refl au, of 0] by auto
  have "Max (insert 0 (a_left a ` set (act a t))) = n"
  proof (rule Max_eqI)
    show "y \<le> n" if "y \<in> insert 0 (a_left a ` set (act a t))" for y
      using that nb(3,4) by (cases "0 < y") auto
    show "n \<in> insert 0 (a_left a ` set (act a t))" using nb(5) by auto
  qed simp
  with False nb(1,2) show ?thesis by (simp add: has_result_def expired_locks_def)
qed

text \<open>The answer fits a signed 32-bit number.\<close>

lemma has_result_bounds: "-1 \<le> has_result a t" "has_result a t < 2147483648"
proof -
  have b: "a_left a l < 2147483648" for l unfolding a_left_def using sint_lt [of "v_expires (views a l) - jif a"] by simp
  have M: "Max (insert 0 (a_left a ` set (act a t))) \<in> insert 0 (a_left a ` set (act a t))" by (rule Max_in) auto
  then show "has_result a t < 2147483648" using b by (auto simp: has_result_def)
  have "0 \<le> Max (insert 0 (a_left a ` set (act a t)))" by (rule Max_ge) auto
  then have "-1 \<le> Max (insert 0 (a_left a ` set (act a t)))" by linarith
  then show "-1 \<le> has_result a t" by (simp add: has_result_def)
qed

subsection \<open>Progress\<close>

text \<open>A way to suspend is always open: a lock without a timeout is held, or the timer is set and
  will not fire before the last lock has expired, or the suspend work is queued.  The bound on the
  distance between a lock and the timer keeps the wrapping comparison of jiffies meaningful.\<close>

definition timed :: "wl_abs \<Rightarrow> bool" where
  "timed a \<longleftrightarrow> (\<exists>t. timer a = Some t \<and> 0 \<le> sint (t - jif a)
     \<and> (\<forall>l\<in>set (act a 0). a_left a l \<le> sint (t - jif a) \<and> sint (t - jif a) \<le> a_left a l + 2147483646))"

definition awaits :: "wl_abs \<Rightarrow> bool" where
  "awaits a \<longleftrightarrow> permanent a 0 \<or> timed a \<or> suspend_work \<in> set (works a) \<and> act a 0 = []"

lemma a_upd_simps [simp]:
  "a_inv (a\<lparr>timer := x\<rparr>) = a_inv a" "a_inv (a\<lparr>works := w\<rparr>) = a_inv a" "a_inv (a\<lparr>event_num := n\<rparr>) = a_inv a"
  "a_inv (a\<lparr>jif := j\<rparr>) = a_inv a"
  "known (a\<lparr>timer := x\<rparr>) = known a" "known (a\<lparr>works := w\<rparr>) = known a" "known (a\<lparr>event_num := n\<rparr>) = known a"
  "known (a\<lparr>jif := j\<rparr>) = known a"
  "permanent (a\<lparr>timer := x\<rparr>) t = permanent a t" "permanent (a\<lparr>works := w\<rparr>) t = permanent a t"
  "permanent (a\<lparr>event_num := n\<rparr>) t = permanent a t" "permanent (a\<lparr>jif := j\<rparr>) t = permanent a t"
  "a_left (a\<lparr>timer := x\<rparr>) l = a_left a l" "a_left (a\<lparr>works := w\<rparr>) l = a_left a l" "a_left (a\<lparr>event_num := n\<rparr>) l = a_left a l"
  by (simp_all add: a_inv_def known_def permanent_def a_left_def)

lemma sint_ahead: "0 < n \<Longrightarrow> n < 2147483648 \<Longrightarrow> sint (j + word_of_int n - j :: u32) = n"
  by (simp add: signed_of_int signed_take_bit_int_eq_self)

lemma sint_tick:
  assumes "- 2147483648 < sint (x - j :: u32)"
  shows "sint (x - (j + 1)) = sint (x - j) - 1"
proof -
  have "x - (j + 1) = word_of_int (sint (x - j) - 1)" by (simp add: algebra_simps)
  then have "sint (x - (j + 1)) = sint (word_of_int (sint (x - j) - 1) :: u32)" by (rule arg_cong)
  also have "\<dots> = signed_take_bit 31 (sint (x - j) - 1)" unfolding signed_of_int by simp
  also have "\<dots> = sint (x - j) - 1"
    by (rule signed_take_bit_int_eq_self) (use assms sint_lt [of "x - j"] in auto)
  finally show ?thesis .
qed

text \<open>After a query all remaining locks of the type have time left, at most what the query returned.\<close>

lemma has_left:
  assumes "\<not> permanent a t" "l \<in> set (act a t)"
  shows "a_left a l \<le> has_result a t"
  using assms by (simp add: has_result_def)

lemma a_frame_left:
  assumes "a_frame (expired_locks a t) a b" "t < 2" "l \<in> set (act b t)"
  shows "l \<in> set (act a t)" "a_left b l = a_left a l" "0 < a_left a l" "views b l = views a l"
  using assms by (auto simp: a_frame_def expired_locks_def)

lemma a_frame_permanent:
  assumes "a_frame (if permanent a t then {} else expired_locks a t) a b" "t < 2"
  shows "permanent b t = permanent a t"
proof (cases "permanent a t")
  case True
  then show ?thesis using assms unfolding permanent_def a_frame_def by auto
next
  case False
  then have "\<not> permanent b t"
    using a_frame_left [of a t b] assms unfolding permanent_def by auto
  with False show ?thesis by simp
qed

lemma has_zero:
  assumes "a_frame (if permanent a t then {} else expired_locks a t) a b" "t < 2" "has_result a t = 0"
  shows "act b t = []" "\<not> permanent a t"
proof -
  show np: "\<not> permanent a t" using assms(3) by (auto simp: has_result_def split: if_splits)
  have "l \<notin> set (act b t)" for l
    using a_frame_left [of a t b l] assms np has_left [OF np, of l] by auto
  then show "act b t = []" by (cases "act b t") auto
qed

lemma has_negative: "permanent a t \<longleftrightarrow> has_result a t = -1"
proof -
  have "0 \<le> Max (insert 0 (a_left a ` set (act a t)))" by (rule Max_ge) auto
  then have "Max (insert 0 (a_left a ` set (act a t))) \<noteq> -1" by linarith
  then show ?thesis by (simp add: has_result_def)
qed

lemma a_schedule_awaits:
  assumes "a_inv a"
  shows "case a_has (act a 0) 0 a of (n, b) \<Rightarrow> a_inv (a_schedule n b) \<and> awaits (a_schedule n b)
    \<and> known (a_schedule n b) = known a \<and> (\<forall>l. v_type (views (a_schedule n b) l) = v_type (views a l))"
proof -
  let ?n = "has_result a 0"
  obtain b where b: "a_has (act a 0) 0 a = (?n, b)"
    and fr: "a_frame (if permanent a 0 then {} else expired_locks a 0) a b"
    using a_has_result [OF assms, of 0] by auto
  have inv: "a_inv b" "known b = known a" "\<forall>l. v_type (views b l) = v_type (views a l)" using fr by (auto simp: a_frame_def)
  consider "?n = -1" | "?n = 0" | "0 < ?n" using has_result_bounds(1) [of a 0] by linarith
  then have "awaits (a_schedule ?n b)"
  proof cases
    case 1
    then have "permanent b 0" using a_frame_permanent [OF fr] has_negative by simp
    with 1 show ?thesis by (simp add: a_schedule_def awaits_def)
  next
    case 2
    then show ?thesis using has_zero(1) [OF fr] by (simp add: a_schedule_def awaits_def)
  next
    case 3
    have np: "\<not> permanent a 0" using 3 has_negative [of a 0] by auto
    let ?b = "a_schedule ?n b"
    have t: "timer ?b = Some (jif ?b + word_of_int ?n)" "act ?b = act b" "\<And>l. a_left ?b l = a_left b l"
      using 3 by (simp_all add: a_schedule_def)
    have L: "l \<in> set (act ?b 0) \<Longrightarrow> 0 < a_left ?b l \<and> a_left ?b l \<le> ?n" for l
      using a_frame_left [of a 0 b l] fr np has_left [OF np, of l] unfolding t by auto
    have "timed ?b"
      unfolding timed_def
    proof (intro exI conjI ballI)
      show "timer ?b = Some (jif ?b + word_of_int ?n)" by (rule t(1))
      show "0 \<le> sint (jif ?b + word_of_int ?n - jif ?b)" using sint_ahead [OF 3 has_result_bounds(2)] 3 by simp
      fix l assume "l \<in> set (act ?b 0)"
      then show "a_left ?b l \<le> sint (jif ?b + word_of_int ?n - jif ?b)"
        "sint (jif ?b + word_of_int ?n - jif ?b) \<le> a_left ?b l + 2147483646"
        using L [of l] has_result_bounds(2) [of a 0] unfolding sint_ahead [OF 3 has_result_bounds(2)] by auto
    qed
    then show ?thesis by (simp add: awaits_def)
  qed
  then show ?thesis using inv unfolding b by (auto simp: a_schedule_def)
qed

lemma awaits_mono:
  assumes "awaits a" "set (act b 0) \<subseteq> set (act a 0)" "permanent a 0 \<Longrightarrow> permanent b 0"
    "\<And>l. l \<in> set (act b 0) \<Longrightarrow> a_left b l = a_left a l" "timer b = timer a" "jif b = jif a"
    "suspend_work \<in> set (works a) \<Longrightarrow> suspend_work \<in> set (works b)"
  shows "awaits b"
proof -
  consider "permanent a 0" | "timed a" | "suspend_work \<in> set (works a)" "act a 0 = []"
    using assms(1) unfolding awaits_def by blast
  then show ?thesis
  proof cases
    case 1 then show ?thesis using assms(3) by (simp add: awaits_def)
  next
    case 2
    then have "timed b" using assms(2,4) unfolding timed_def assms(5,6) by fastforce
    then show ?thesis by (simp add: awaits_def)
  next
    case 3 then show ?thesis using assms(2,7) by (simp add: awaits_def)
  qed
qed

lemma a_insert_more:
  "event_num (a_insert l d a) = event_num a" "v_type (views (a_insert l d a) k) = v_type (views a k)"
  "t \<noteq> v_type (views a l) \<Longrightarrow> act (a_insert l d a) t = remove1 l (act a t)"
  "d = None \<Longrightarrow> l \<in> set (act (a_insert l d a) (v_type (views a l)))"
  by (auto simp: a_insert_def Let_def split: option.split)

lemma idle_not_in_act0:
  assumes "a_inv a" "v_type (views a l) \<noteq> 0"
  shows "l \<notin> set (act a 0)"
  using a_invD(6) [OF assms(1), of 0 l] assms(2) by auto

text \<open>Locking and unlocking a lock of the lists.\<close>

lemma a_lock_ok:
  assumes inv: "a_inv a" and l: "l \<in> known a"
  shows "\<exists>b. a_lock l d a = Some b \<and> a_inv b \<and> known b = known a \<and> (\<forall>k. v_type (views b k) = v_type (views a k))
    \<and> (if v_type (views a l) = 0 then awaits b else event_num b = event_num a \<and> (awaits a \<longrightarrow> awaits b))"
proof (cases "v_type (views a l) = 0")
  case True
  let ?a = "(a_insert l d a)\<lparr>event_num := event_num (a_insert l d a) + 1\<rparr>"
  have a: "a_inv ?a" "known ?a = known a" "\<forall>k. v_type (views ?a k) = v_type (views a k)"
    using a_insert_inv(1,2) [OF inv l, where d = d] by (simp_all add: a_insert_more)
  show ?thesis
  proof (cases d)
    case None
    let ?b = "a_schedule (-1) ?a"
    have "l \<in> set (act ?b 0)" "\<not> v_auto (views ?b l)"
      using True None a_insert_more(4) [of d l a] a_insert_inv(4) [OF inv l, where d = d] by (simp_all add: a_schedule_def)
    then have "awaits ?b" unfolding awaits_def permanent_def by blast
    moreover have "a_lock l d a = Some ?b" using known_view [OF inv l] True None by (simp add: a_lock_def Let_def)
    ultimately show ?thesis using a True by (intro exI [of _ ?b]) (simp add: a_schedule_def)
  next
    case (Some n)
    let ?b = "case a_has (act ?a 0) 0 ?a of (n, b) \<Rightarrow> a_schedule n b"
    have "a_lock l d a = Some ?b" using known_view [OF inv l] True Some
      by (simp add: a_lock_def Let_def split: prod.split)
    then show ?thesis using a_schedule_awaits [OF a(1)] a(2,3) True
      by (intro exI [of _ ?b]) (simp split: prod.splits)
  qed
next
  case False
  let ?b = "a_insert l d a"
  have l0: "l \<notin> set (act a 0)" by (rule idle_not_in_act0 [OF inv False])
  have A: "act ?b 0 = act a 0" using a_insert_more(3) [of 0 a l d] False l0 by (simp add: remove1_idem)
  have V: "k \<in> set (act a 0) \<Longrightarrow> views ?b k = views a k" for k
    using a_insert_inv(5) [OF inv l, where d = d] l0 by metis
  have "awaits ?b" if "awaits a"
    using that
  proof (rule awaits_mono)
    show "permanent a 0 \<Longrightarrow> permanent ?b 0" using V unfolding permanent_def A by metis
    show "\<And>k. k \<in> set (act ?b 0) \<Longrightarrow> a_left ?b k = a_left a k"
      using V unfolding A a_left_def a_insert_inv(6) [OF inv l] by simp
  qed (simp_all add: A a_insert_inv(6-8) [OF inv l])
  moreover have "a_lock l d a = Some ?b" using known_view [OF inv l] False by (simp add: a_lock_def Let_def)
  ultimately show ?thesis using False a_insert_inv(1,2) [OF inv l, where d = d]
    by (intro exI [of _ ?b]) (simp add: a_insert_more)
qed

lemma a_unlock_ok:
  assumes inv: "a_inv a" and l: "l \<in> known a"
  shows "a_inv (a_unlock l a) \<and> known (a_unlock l a) = known a \<and> (\<forall>k. v_type (views (a_unlock l a) k) = v_type (views a k))
    \<and> (if v_type (views a l) = 0 then awaits (a_unlock l a)
       else event_num (a_unlock l a) = event_num a \<and> (awaits a \<longrightarrow> awaits (a_unlock l a)))"
proof (cases "v_type (views a l) = 0")
  case True
  note S = a_release_sets [OF inv, where l = l]
  show ?thesis
    using a_schedule_awaits [OF a_release_inv(1) [OF inv l]] a_release_inv(2) [OF inv l] True
    by (simp add: a_unlock_def Let_def S(5) split: prod.splits if_splits)
next
  case False
  note S = a_release_sets [OF inv, where l = l]
  let ?b = "a_release l a"
  have l0: "l \<notin> set (act a 0)" by (rule idle_not_in_act0 [OF inv False])
  have A: "act ?b 0 = act a 0" using l0 by (simp add: S(2) remove1_idem)
  have V: "k \<in> set (act a 0) \<Longrightarrow> views ?b k = views a k" for k using l0 by (auto simp: S(5))
  have "awaits ?b" if "awaits a"
    using that
  proof (rule awaits_mono)
    show "permanent a 0 \<Longrightarrow> permanent ?b 0" using V unfolding permanent_def A by metis
  qed (simp_all add: A S(6-9))
  then show ?thesis using False a_release_inv [OF inv l] by (simp add: a_unlock_def S(5,10))
qed

text \<open>A query, and the timer.\<close>

lemma a_frame_awaits:
  assumes fr: "a_frame (if permanent a t then {} else expired_locks a t) a b" and t: "t < 2"
    and inv: "a_inv a" and aw: "awaits a"
  shows "awaits b"
  using aw
proof (rule awaits_mono)
  have E: "t \<noteq> 0 \<Longrightarrow> set (act a 0) \<inter> expired_locks a t = {}"
    using a_invD(4) [OF inv] t unfolding less_two expired_locks_def by auto
  have "permanent b 0 = permanent a 0"
  proof (cases "t = 0")
    case True
    then show ?thesis using a_frame_permanent [OF fr t] by simp
  next
    case False
    have "set (act b 0) = set (act a 0)" "\<forall>l\<in>set (act a 0). views b l = views a l"
      using fr E [OF False] unfolding a_frame_def by (auto split: if_splits)
    then show ?thesis unfolding permanent_def by auto
  qed
  then show "permanent a 0 \<Longrightarrow> permanent b 0" by simp
qed (use fr in \<open>auto simp: a_frame_def\<close>)

lemma timer_fires:
  assumes inv: "a_inv a" and aw: "awaits a" and t: "timer a = Some t" "sint (t - jif a) \<le> 0"
  shows "permanent a 0 \<or> has_result a 0 = 0"
proof (cases "permanent a 0")
  case False
  have "a_left a l \<le> 0" if "l \<in> set (act a 0)" for l
  proof -
    consider "timed a" | "act a 0 = []" using aw False unfolding awaits_def by blast
    then show ?thesis using that t by cases (auto simp: timed_def)
  qed
  then have "Max (insert 0 (a_left a ` set (act a 0))) = 0" by (intro Max_eqI) auto
  with False show ?thesis by (simp add: has_result_def)
qed simp

lemma tick_awaits:
  assumes aw: "awaits a" and t: "\<forall>t. timer a = Some t \<longrightarrow> 0 < sint (t - jif a)"
  shows "awaits (a\<lparr>jif := jif a + 1\<rparr>)"
proof -
  let ?b = "a\<lparr>jif := jif a + 1\<rparr>"
  have "timed ?b" if tm: "timed a"
  proof -
    obtain x where x: "timer a = Some x" "0 \<le> sint (x - jif a)"
      "\<forall>l\<in>set (act a 0). a_left a l \<le> sint (x - jif a) \<and> sint (x - jif a) \<le> a_left a l + 2147483646"
      using tm unfolding timed_def by blast
    have x': "sint (x - (jif a + 1)) = sint (x - jif a) - 1" "0 < sint (x - jif a)"
      using sint_tick [of x "jif a"] x(1,2) t by auto
    have l: "a_left ?b l = a_left a l - 1" if "l \<in> set (act a 0)" for l
      using x(3) that x'(2) sint_tick [of "v_expires (views a l)" "jif a"] unfolding a_left_def by auto
    show ?thesis unfolding timed_def using x(1) x' x(3) l by (intro exI [of _ x]) auto
  qed
  then show ?thesis using aw by (auto simp: awaits_def)
qed

text \<open>Initialising and destroying a lock.\<close>

definition a_init :: "addr \<Rightarrow> nat \<Rightarrow> string \<Rightarrow> wl_abs \<Rightarrow> wl_abs" where
  "a_init l t name a = a\<lparr>views := (views a)(l := (views a l)\<lparr>v_init := True, v_active := False, v_auto := False,
     v_type := t, v_name := name\<rparr>), inact := l # inact a\<rparr>"

definition a_destroy :: "addr \<Rightarrow> wl_abs \<Rightarrow> wl_abs" where
  "a_destroy l a = a\<lparr>views := (views a)(l := (views a l)\<lparr>v_init := False\<rparr>), inact := remove1 l (inact a),
     act := (\<lambda>t. remove1 l (act a t))\<rparr>"

lemma init_flags:
  assumes "f = (t AND WAKE_LOCK_TYPE_MASK) OR WAKE_LOCK_INITIALIZED"
  shows "bit f 8" "\<not> bit f 9" "\<not> bit f 10" "f AND WAKE_LOCK_TYPE_MASK = t AND WAKE_LOCK_TYPE_MASK"
proof -
  show "bit f 8" "\<not> bit f 9" "\<not> bit f 10"
    unfolding assms bit_or_iff bit_and_iff bit_type_mask wl_bit_consts by simp_all
  show "f AND WAKE_LOCK_TYPE_MASK = t AND WAKE_LOCK_TYPE_MASK"
  proof (rule bit_eqI)
    fix i show "bit (f AND WAKE_LOCK_TYPE_MASK) i = bit (t AND WAKE_LOCK_TYPE_MASK) i"
      unfolding assms bit_or_iff bit_and_iff bit_type_mask wl_bit_consts by auto
  qed
qed

lemma abs_init: "wl_abs_of (wake_lock_init l t name s) = a_init l (unat (t AND WAKE_LOCK_TYPE_MASK)) name (wl_abs_of s)"
proof -
  obtain f where f: "(t AND WAKE_LOCK_TYPE_MASK) OR WAKE_LOCK_INITIALIZED = f" by blast
  note F = init_flags [OF f [symmetric]]
  show ?thesis unfolding wake_lock_init_def f
    by (simp add: wl_abs_of_def add_inactive_def upd_lock_def a_init_def fun_eq_iff lock_view_of_def lock_type_def F)
qed

lemma abs_unlink: "wl_abs_of (unlink l s) = (wl_abs_of s)\<lparr>inact := remove1 l (inact (wl_abs_of s)),
    act := (\<lambda>t. remove1 l (act (wl_abs_of s) t))\<rparr>"
  by (simp add: wl_abs_of_def unlink_def)

lemma abs_destroy: "wl_abs_of (wake_lock_destroy l s) = a_destroy l (wl_abs_of s)"
proof -
  have "wl_abs_of (clear_flags WAKE_LOCK_INITIALIZED l s) =
      (wl_abs_of s)\<lparr>views := (views (wl_abs_of s))(l := (lock_view_of (locks s l))\<lparr>v_init := False\<rparr>)\<rparr>"
    unfolding clear_flags_def abs_upd_lock view_flags(6) by simp
  moreover have d: "wl_abs_of (if c then upd_lock k (\<lambda>D. D\<lparr>stat := g D\<rparr>) x else x) = wl_abs_of x" for c k g x
    by (simp add: abs_upd_same view_other)
  ultimately show ?thesis
    unfolding wake_lock_destroy_def Let_def abs_unlink d by (simp add: a_destroy_def del: abs_fields(2-7))
qed

lemma a_init_inv:
  assumes inv: "a_inv a" and l: "l \<notin> known a" and t: "t < 2"
  shows "a_inv (a_init l t name a)" "known (a_init l t name a) = insert l (known a)"
    "k \<in> known a \<Longrightarrow> v_type (views (a_init l t name a) k) = v_type (views a k)"
    "awaits (a_init l t name a) = awaits a"
proof -
  let ?b = "a_init l t name a"
  have A: "act ?b = act a" "inact ?b = l # inact a" by (simp_all add: a_init_def)
  have n: "l \<notin> set (inact a)" "l \<notin> set (act a 0)" "l \<notin> set (act a 1)" using l by (auto simp: known_def)
  have n2: "t' < 2 \<Longrightarrow> k \<in> set (act a t') \<Longrightarrow> k \<noteq> l" for t' k using n unfolding less_two by auto
  have V: "k \<noteq> l \<Longrightarrow> views ?b k = views a k" for k by (simp add: a_init_def)
  have Vl: "v_init (views ?b l)" "\<not> v_active (views ?b l)" "\<not> v_auto (views ?b l)" "v_type (views ?b l) = t"
    by (simp_all add: a_init_def)
  show "known ?b = insert l (known a)" by (simp add: known_def A)
  show "k \<in> known a \<Longrightarrow> v_type (views ?b k) = v_type (views a k)" using l V by metis
  show "a_inv ?b" unfolding a_inv_def A
  proof (intro conjI allI impI)
    show "distinct ((l # inact a) @ act a 0 @ act a 1)" using inv n unfolding a_inv_def by simp
    show "\<forall>k\<in>set (l # inact a). v_init (views ?b k) \<and> \<not> v_active (views ?b k) \<and> \<not> v_auto (views ?b k) \<and> v_type (views ?b k) < 2"
      using a_invD(5) [OF inv] n(1) V Vl t by (metis set_ConsD)
  next
    fix t' :: nat assume t': "t' < 2"
    show "\<forall>k\<in>set (act a t'). v_init (views ?b k) \<and> v_active (views ?b k) \<and> v_type (views ?b k) = t'"
      using a_invD(6) [OF inv t'] n2 [OF t'] V by metis
    show "sorted_wrt (\<lambda>k m. v_auto (views ?b k) \<longrightarrow> v_auto (views ?b m)) (act a t')"
      by (rule sorted_wrt_mono_rel [OF _ a_invD(7) [OF inv t']]) (use n2 [OF t'] V in metis)
  qed
  have L: "k \<in> set (act a 0) \<Longrightarrow> a_left ?b k = a_left a k \<and> v_auto (views ?b k) = v_auto (views a k)" for k
    using n2 [of 0 k] V [of k] by (simp add: a_left_def a_init_def)
  have "timer ?b = timer a" "works ?b = works a" "jif ?b = jif a" by (simp_all add: a_init_def)
  then show "awaits ?b = awaits a"
    using L unfolding awaits_def permanent_def timed_def A by (simp cong: bex_cong ball_cong)
qed

lemma a_destroy_inv:
  assumes inv: "a_inv a" and l: "v_active (views a l) \<Longrightarrow> v_auto (views a l)"
  shows "a_inv (a_destroy l a)" "known (a_destroy l a) = known a - {l}"
    "v_type (views (a_destroy l a) k) = v_type (views a k)" "awaits a \<Longrightarrow> awaits (a_destroy l a)"
proof -
  let ?b = "a_destroy l a"
  note D = a_invD [OF inv]
  have A: "act ?b t = remove1 l (act a t)" "inact ?b = remove1 l (inact a)" for t by (simp_all add: a_destroy_def)
  have S: "set (inact ?b) = set (inact a) - {l}" "t < 2 \<Longrightarrow> set (act ?b t) = set (act a t) - {l}" for t
    using D(1) D(2) [of t] unfolding A by (simp_all add: set_remove1_eq)
  have S01: "set (act ?b 0) = set (act a 0) - {l}" "set (act ?b 1) = set (act a 1) - {l}" by (rule S(2), simp)+
  have V: "k \<noteq> l \<Longrightarrow> views ?b k = views a k" for k by (simp add: a_destroy_def)
  have Va: "v_auto (views ?b k) = v_auto (views a k)" for k by (simp add: a_destroy_def)
  show "known ?b = known a - {l}" unfolding known_def S(1) S01 by blast
  show "v_type (views ?b k) = v_type (views a k)" by (simp add: a_destroy_def)
  show "a_inv ?b" unfolding a_inv_def
  proof (intro conjI allI impI)
    have "distinct (remove1 l (inact a))" "distinct (remove1 l (act a 0))" "distinct (remove1 l (act a 1))"
      using D(1) D(2) [of 0] D(2) [of 1] by simp_all
    moreover have "set (inact a) \<inter> set (act a 0) = {}" "set (inact a) \<inter> set (act a 1) = {}" by (rule D(3), simp)+
    ultimately show "distinct (inact ?b @ act ?b 0 @ act ?b 1)"
      using D(4) S(1) S01 unfolding distinct_append set_append A by blast
    show "\<forall>k\<in>set (inact ?b). v_init (views ?b k) \<and> \<not> v_active (views ?b k) \<and> \<not> v_auto (views ?b k) \<and> v_type (views ?b k) < 2"
      unfolding S(1) using D(5) V by (metis Diff_iff singletonI)
  next
    fix t :: nat assume t: "t < 2"
    show "\<forall>k\<in>set (act ?b t). v_init (views ?b k) \<and> v_active (views ?b k) \<and> v_type (views ?b k) = t"
      unfolding S(2) [OF t] using D(6) [OF t] V by (metis Diff_iff singletonI)
    show "sorted_wrt (\<lambda>k m. v_auto (views ?b k) \<longrightarrow> v_auto (views ?b m)) (act ?b t)"
      unfolding Va A by (rule sorted_wrt_remove1 [OF D(7) [OF t]])
  qed
  show "awaits ?b" if "awaits a"
    using that
  proof (rule awaits_mono)
    show "set (act ?b 0) \<subseteq> set (act a 0)" unfolding S01 by blast
    show "permanent ?b 0" if p: "permanent a 0"
    proof -
      obtain k where k: "k \<in> set (act a 0)" "\<not> v_auto (views a k)" using p unfolding permanent_def by blast
      then have "k \<noteq> l" using D(6) [of 0 k] l by auto
      then show ?thesis using k unfolding permanent_def S01 Va by blast
    qed
  qed (simp_all add: a_destroy_def a_left_def)
qed

subsection \<open>Queries of the code\<close>

lemma has_wake_lock_abs:
  assumes "a_inv (wl_abs_of s)" "t < 2"
  shows "\<exists>s'. has_wake_lock t s = Some (has_result (wl_abs_of s) t, s')
    \<and> a_frame (if permanent (wl_abs_of s) t then {} else expired_locks (wl_abs_of s) t) (wl_abs_of s) (wl_abs_of s')"
proof -
  obtain b where b: "a_has (act (wl_abs_of s) t) 0 (wl_abs_of s) = (has_result (wl_abs_of s) t, b)"
    "a_frame (if permanent (wl_abs_of s) t then {} else expired_locks (wl_abs_of s) t) (wl_abs_of s) b"
    using a_has_result [OF assms] by blast
  obtain n s' where h: "has_wake_lock_loop (active_wake_locks s t) 0 s = (n, s')" by fastforce
  have "n = has_result (wl_abs_of s) t" "wl_abs_of s' = b"
    using abs_has_loop [of "active_wake_locks s t" 0 s] b(1) h by simp_all
  then show ?thesis using b(2) h assms(2)
    by (simp add: has_wake_lock_def has_wake_lock_locked_def WAKE_LOCK_TYPE_COUNT_def)
qed

section \<open>The machine\<close>

text \<open>Any task or interrupt may lock, unlock, initialise or destroy locks and query them; time passes
  tick by tick, and a timer that is due is handled before the next tick.  The work queue has one thread.  The second component of
  the state is the number of the last event before \<open>pm_suspend\<close>, while the suspend work is in it;
  \<open>power_suspend_late\<close> runs there.  A lock is destroyed only if it is not held, or held with a timeout.\<close>

definition wl_known :: "wakelocks \<Rightarrow> addr set" where
  "wl_known s = set (inactive_locks s) \<union> set (active_wake_locks s 0) \<union> set (active_wake_locks s 1)"

definition static_locks :: "addr set" where
  "static_locks = {main_wake_lock, unknown_wakeup, deleted_wake_locks}"

inductive wl_step :: "wakelocks \<times> u32 option \<Rightarrow> wakelocks \<times> u32 option \<Rightarrow> bool" where
  ws_lock: "l \<in> wl_known s \<Longrightarrow> wake_lock_internal l d has s = Some s' \<Longrightarrow> wl_step (s, e) (s', e)"
| ws_unlock: "l \<in> wl_known s \<Longrightarrow> wl_step (s, e) (wake_unlock l s, e)"
| ws_init: "l \<notin> wl_known s \<Longrightarrow> t < 2 \<Longrightarrow> wl_step (s, e) (wake_lock_init l t name s, e)"
| ws_destroy: "l \<in> wl_known s \<Longrightarrow> l \<notin> static_locks \<Longrightarrow>
    wake_lock_active s l \<longrightarrow> flags (locks s l) AND WAKE_LOCK_AUTO_EXPIRE \<noteq> 0 \<Longrightarrow> wl_step (s, e) (wake_lock_destroy l s, e)"
| ws_query: "has_wake_lock t s = Some (n, s') \<Longrightarrow> wl_step (s, e) (s', e)"
| ws_tick: "\<forall>t. expire_timer s = Some t \<longrightarrow> 0 < sint (t - jiffies s) \<Longrightarrow>
    wl_step (s, e) (s\<lparr>jiffies := jiffies s + 1, ktime := k, xtime := x\<rparr>, e)"
| ws_timer: "expire_timer s = Some t \<Longrightarrow> sint (t - jiffies s) \<le> 0 \<Longrightarrow>
    wl_step (s, e) (expire_wake_locks (s\<lparr>expire_timer := None\<rparr>), e)"
| ws_queue: "wl_step (s, e) (queue_work w s, e)"
| ws_other_work: "suspend_work_queue s = w # ws \<Longrightarrow> w \<noteq> suspend_work \<Longrightarrow>
    wl_step (s, None) (s\<lparr>suspend_work_queue := ws\<rparr>, None)"
| ws_suspend: "suspend_work_queue s = suspend_work # ws \<Longrightarrow> suspend_begin (s\<lparr>suspend_work_queue := ws\<rparr>) = (e, s') \<Longrightarrow>
    wl_step (s, None) (s', e)"
| ws_suspend_late: "power_suspend_late s = (r, s') \<Longrightarrow> wl_step (s, Some n) (s', Some n)"
| ws_resume: "suspend_end n s = Some s' \<Longrightarrow> wl_step (s, Some n) (s', None)"

inductive wl_reachable :: "wakelocks \<times> u32 option \<Rightarrow> bool" where
  wr_init: "inactive_locks s0 = [] \<Longrightarrow> wakelocks_init None None True s0 = Some (Inr 0, s) \<Longrightarrow> wl_reachable (s, None)"
| wr_step: "wl_reachable p \<Longrightarrow> wl_step p q \<Longrightarrow> wl_reachable q"

definition wl_ok :: "wakelocks \<times> u32 option \<Rightarrow> bool" where
  "wl_ok p \<longleftrightarrow> (case p of (s, e) \<Rightarrow> a_inv (wl_abs_of s) \<and> static_locks \<subseteq> known (wl_abs_of s)
     \<and> lock_type (locks s main_wake_lock) = 0 \<and> lock_type (locks s unknown_wakeup) = 0
     \<and> (awaits (wl_abs_of s) \<or> e = Some (current_event_num s)))"

lemma wl_known_abs [simp]: "known (wl_abs_of s) = wl_known s"
  by (simp add: known_def wl_known_def)

lemma wl_ok_keep:
  assumes "wl_ok (s, e)" "a_inv (wl_abs_of s')" "static_locks \<subseteq> wl_known s'"
    "\<And>k. k \<in> static_locks \<Longrightarrow> v_type (views (wl_abs_of s') k) = v_type (views (wl_abs_of s) k)"
    "awaits (wl_abs_of s) \<Longrightarrow> awaits (wl_abs_of s')"
    "awaits (wl_abs_of s') \<or> current_event_num s' = current_event_num s"
  shows "wl_ok (s', e)"
  using assms assms(4) [of main_wake_lock] assms(4) [of unknown_wakeup] by (auto simp: wl_ok_def static_locks_def)

lemma wl_okD:
  assumes "wl_ok (s, e)"
  shows "a_inv (wl_abs_of s)" "static_locks \<subseteq> wl_known s" "lock_type (locks s main_wake_lock) = 0"
    "lock_type (locks s unknown_wakeup) = 0" "awaits (wl_abs_of s) \<or> e = Some (current_event_num s)"
  using assms by (auto simp: wl_ok_def)

lemma ok_lock:
  assumes ok: "wl_ok (s, e)" and l: "l \<in> wl_known s" and st: "wake_lock_internal l d has s = Some s'"
  shows "wl_ok (s', e)" "lock_type (locks s l) = 0 \<Longrightarrow> awaits (wl_abs_of s')"
proof -
  let ?d = "if has then Some d else None"
  have "a_lock l ?d (wl_abs_of s) = Some (wl_abs_of s')" using abs_wake_lock_internal [of l d has s] st by simp
  then have b: "a_inv (wl_abs_of s')" "known (wl_abs_of s') = known (wl_abs_of s)"
    "\<forall>k. v_type (views (wl_abs_of s') k) = v_type (views (wl_abs_of s) k)"
    "if v_type (views (wl_abs_of s) l) = 0 then awaits (wl_abs_of s')
     else event_num (wl_abs_of s') = event_num (wl_abs_of s) \<and> (awaits (wl_abs_of s) \<longrightarrow> awaits (wl_abs_of s'))"
    using a_lock_ok [OF wl_okD(1) [OF ok], of l ?d] l by auto
  show "wl_ok (s', e)"
    by (rule wl_ok_keep [OF ok b(1)]) (use b(2-4) wl_okD(2) [OF ok] in \<open>auto split: if_splits\<close>)
  show "lock_type (locks s l) = 0 \<Longrightarrow> awaits (wl_abs_of s')" using b(4) by simp
qed

lemma ok_unlock:
  assumes ok: "wl_ok (s, e)" and l: "l \<in> wl_known s"
  shows "wl_ok (wake_unlock l s, e)"
proof -
  note U = a_unlock_ok [OF wl_okD(1) [OF ok], of l, folded abs_wake_unlock, simplified, OF l]
  show ?thesis
    by (rule wl_ok_keep [OF ok]) (use U wl_okD(2) [OF ok] in \<open>auto split: if_splits\<close>)
qed

lemma ok_frame:
  assumes ok: "wl_ok (s, e)" and fr: "a_frame (if permanent (wl_abs_of s) t then {} else expired_locks (wl_abs_of s) t) (wl_abs_of s) (wl_abs_of s')"
    and t: "t < 2"
  shows "wl_ok (s', e)"
proof (rule wl_ok_keep [OF ok])
  show "awaits (wl_abs_of s) \<Longrightarrow> awaits (wl_abs_of s')" by (rule a_frame_awaits [OF fr t wl_okD(1) [OF ok]])
qed (use fr wl_okD(2) [OF ok] in \<open>auto simp: a_frame_def\<close>)

lemma ok_init:
  assumes ok: "wl_ok (s, e)" and l: "l \<notin> wl_known s" and t: "t < 2"
  shows "wl_ok (wake_lock_init l t name s, e)"
proof -
  have ty: "unat (t AND WAKE_LOCK_TYPE_MASK) < 2"
  proof -
    have "t AND WAKE_LOCK_TYPE_MASK \<le> t" by (simp add: word_and_le2)
    then show ?thesis using t by (simp add: word_less_nat_alt word_le_nat_alt)
  qed
  note I = a_init_inv [OF wl_okD(1) [OF ok], unfolded wl_known_abs, OF l ty, where name = name, folded abs_init, unfolded wl_known_abs]
  have ev: "current_event_num (wake_lock_init l t name s) = current_event_num s"
    by (simp add: wake_lock_init_def add_inactive_def upd_lock_def)
  show ?thesis
    by (rule wl_ok_keep [OF ok I(1)]) (use I(2-4) wl_okD(2) [OF ok] ev in auto)
qed

lemma ok_destroy:
  assumes ok: "wl_ok (s, e)" and l: "l \<notin> static_locks"
    and un: "wake_lock_active s l \<longrightarrow> flags (locks s l) AND WAKE_LOCK_AUTO_EXPIRE \<noteq> 0"
  shows "wl_ok (wake_lock_destroy l s, e)"
proof -
  have "v_active (views (wl_abs_of s) l) \<Longrightarrow> v_auto (views (wl_abs_of s) l)"
    using un by (simp add: wake_lock_active_def wl_flag_bits)
  note I = a_destroy_inv [OF wl_okD(1) [OF ok] this, folded abs_destroy, unfolded wl_known_abs]
  have "event_num (wl_abs_of (wake_lock_destroy l s)) = event_num (wl_abs_of s)"
    unfolding abs_destroy by (simp add: a_destroy_def)
  then show ?thesis
    by (intro wl_ok_keep [OF ok I(1)]) (use I(2-4) l wl_okD(2) [OF ok] in auto)
qed

lemma ok_tick:
  assumes ok: "wl_ok (s, e)" and t: "\<forall>t. expire_timer s = Some t \<longrightarrow> 0 < sint (t - jiffies s)"
  shows "wl_ok (s\<lparr>jiffies := jiffies s + 1, ktime := k, xtime := x\<rparr>, e)"
proof -
  let ?s = "s\<lparr>jiffies := jiffies s + 1, ktime := k, xtime := x\<rparr>"
  have a: "wl_abs_of ?s = (wl_abs_of s)\<lparr>jif := jif (wl_abs_of s) + 1\<rparr>" by (simp add: wl_abs_of_def)
  show ?thesis
  proof (rule wl_ok_keep [OF ok])
    show "awaits (wl_abs_of s) \<Longrightarrow> awaits (wl_abs_of ?s)" unfolding a by (rule tick_awaits) (use t in \<open>simp_all only: abs_fields\<close>)
  qed (use wl_okD(1,2) [OF ok] in \<open>simp_all add: a wl_known_def\<close>)
qed

lemma expire_wake_locks_abs:
  assumes inv: "a_inv (wl_abs_of s)"
  shows "\<exists>s'. has_wake_lock 0 s = Some (has_result (wl_abs_of s) 0, s')
    \<and> a_frame (if permanent (wl_abs_of s) 0 then {} else expired_locks (wl_abs_of s) 0) (wl_abs_of s) (wl_abs_of s')
    \<and> expire_wake_locks s = (if has_result (wl_abs_of s) 0 = 0 then queue_work suspend_work s' else s')"
  using has_wake_lock_abs [OF inv, of 0]
  by (auto simp: expire_wake_locks_def has_wake_lock_def WAKE_LOCK_SUSPEND_def)

lemma abs_queue: "wl_abs_of (queue_work w s) = (wl_abs_of s)\<lparr>works := (if w \<in> set (works (wl_abs_of s)) then works (wl_abs_of s)
    else works (wl_abs_of s) @ [w])\<rparr>"
  by (simp add: wl_abs_of_def queue_work_def)

lemma ok_queue: 
  assumes ok: "wl_ok (s, e)"
  shows "wl_ok (queue_work w s, e)"
proof (rule wl_ok_keep [OF ok])
  show "awaits (wl_abs_of s) \<Longrightarrow> awaits (wl_abs_of (queue_work w s))"
    unfolding abs_queue by (rule awaits_mono) auto
qed (use wl_okD(1,2) [OF ok] in \<open>simp_all add: abs_queue\<close>, simp_all add: queue_work_def wl_known_def)

lemma abs_timer: "wl_abs_of (s\<lparr>expire_timer := t\<rparr>) = (wl_abs_of s)\<lparr>timer := t\<rparr>"
  and abs_works: "wl_abs_of (s\<lparr>suspend_work_queue := ws\<rparr>) = (wl_abs_of s)\<lparr>works := ws\<rparr>"
  by (simp_all add: wl_abs_of_def)

lemma has_result_upd [simp]:
  "has_result (a\<lparr>timer := x\<rparr>) t = has_result a t" "has_result (a\<lparr>works := w\<rparr>) t = has_result a t"
  by (simp_all add: has_result_def)

lemma ok_timer:
  assumes ok: "wl_ok (s, e)" and t: "expire_timer s = Some t" "sint (t - jiffies s) \<le> 0"
  shows "wl_ok (expire_wake_locks (s\<lparr>expire_timer := None\<rparr>), e)"
proof -
  let ?s = "s\<lparr>expire_timer := None\<rparr>" and ?a = "wl_abs_of s"
  let ?r = "expire_wake_locks ?s"
  have inv: "a_inv (wl_abs_of ?s)" using wl_okD(1) [OF ok] by (simp add: abs_timer)
  obtain s' where s': "a_frame (if permanent ?a 0 then {} else expired_locks (wl_abs_of ?s) 0) (wl_abs_of ?s) (wl_abs_of s')"
    "?r = (if has_result ?a 0 = 0 then queue_work suspend_work s' else s')"
    using expire_wake_locks_abs [OF inv] by (auto simp: abs_timer)
  have fr: "a_inv (wl_abs_of s')" "wl_known s' = wl_known s" "current_event_num s' = current_event_num s"
    "\<forall>l. v_type (views (wl_abs_of s') l) = v_type (views ?a l)"
    using s'(1) unfolding a_frame_def by (auto simp: abs_timer wl_known_def)
  have q: "wl_known (queue_work w x) = wl_known x" "current_event_num (queue_work w x) = current_event_num x"
    "lock_type (locks (queue_work w x) l) = lock_type (locks x l)" for w x l
    by (simp_all add: queue_work_def wl_known_def)
  show ?thesis
  proof (rule wl_ok_keep [OF ok])
    assume aw: "awaits ?a"
    have s0: "a_frame (if permanent (wl_abs_of ?s) 0 then {} else expired_locks (wl_abs_of ?s) 0) (wl_abs_of ?s) (wl_abs_of s')"
      using s'(1) by (simp add: abs_timer)
    from timer_fires [OF wl_okD(1) [OF ok] aw] t consider "permanent ?a 0" | "has_result ?a 0 = 0" by auto
    then show "awaits (wl_abs_of ?r)"
    proof cases
      case 1
      then have "permanent (wl_abs_of s') 0" using a_frame_permanent [OF s0] by (simp add: abs_timer)
      then show ?thesis unfolding s'(2) by (simp add: awaits_def abs_queue)
    next
      case 2
      then have "act (wl_abs_of s') 0 = []" using has_zero(1) [OF s0] by (simp add: abs_timer)
      then show ?thesis unfolding s'(2) using 2 by (simp add: awaits_def abs_queue)
    qed
  qed (use fr wl_okD(2) [OF ok] in \<open>auto simp: s'(2) abs_queue q\<close>)
qed

lemma ok_other_work:
  assumes ok: "wl_ok (s, None)" and q: "suspend_work_queue s = w # ws" "w \<noteq> suspend_work"
  shows "wl_ok (s\<lparr>suspend_work_queue := ws\<rparr>, None)"
proof (rule wl_ok_keep [OF ok])
  show "awaits (wl_abs_of s) \<Longrightarrow> awaits (wl_abs_of (s\<lparr>suspend_work_queue := ws\<rparr>))"
    unfolding abs_works by (rule awaits_mono) (use q in auto)
qed (use wl_okD(1,2) [OF ok] in \<open>simp_all add: abs_works wl_known_def\<close>)

lemma has_result_empty: "act a t = [] \<Longrightarrow> has_result a t = 0"
  by (simp add: has_result_def permanent_def)

lemma ok_suspend:
  assumes ok: "wl_ok (s, None)" and b: "suspend_begin (s\<lparr>suspend_work_queue := ws\<rparr>) = (e, s')"
  shows "wl_ok (s', e)"
proof -
  let ?s = "s\<lparr>suspend_work_queue := ws\<rparr>"
  let ?a = "wl_abs_of ?s"
  have inv: "a_inv ?a" using wl_okD(1) [OF ok] by (simp add: abs_works)
  obtain s'' where h: "has_wake_lock 0 ?s = Some (has_result ?a 0, s'')"
    and fr: "a_frame (if permanent ?a 0 then {} else expired_locks ?a 0) ?a (wl_abs_of s'')"
    using has_wake_lock_abs [OF inv, of 0] by auto
  have se: "s' = s''" "e = (if has_result ?a 0 \<noteq> 0 then None else Some (current_event_num s''))"
    using b h by (auto simp: suspend_begin_def WAKE_LOCK_SUSPEND_def split: if_splits)
  have ok2: "wl_ok (?s, Some (current_event_num ?s))"
    using wl_okD(1-4) [OF ok] by (simp add: wl_ok_def abs_works wl_known_def)
  have ok3: "wl_ok (s'', Some (current_event_num ?s))" by (rule ok_frame [OF ok2 fr]) simp
  have ev: "current_event_num s'' = current_event_num ?s" using fr by (simp add: a_frame_def)
  show ?thesis
  proof (cases "has_result ?a 0 = 0")
    case True
    then show ?thesis using ok3 ev se by simp
  next
    case False
    have "awaits (wl_abs_of s)" using wl_okD(5) [OF ok] by simp
    moreover have "act ?a 0 \<noteq> []" using False has_result_empty by metis
    ultimately have "awaits ?a" by (auto simp: awaits_def timed_def abs_works)
    then have "awaits (wl_abs_of s'')" using a_frame_awaits [OF fr _ inv] by simp
    then show ?thesis using ok3 False unfolding se by (simp add: wl_ok_def)
  qed
qed

lemma ok_suspend_late:
  assumes ok: "wl_ok (s, e)" and b: "power_suspend_late s = (r, s')"
  shows "wl_ok (s', e)"
proof -
  obtain s'' where h: "has_wake_lock 0 s = Some (has_result (wl_abs_of s) 0, s'')"
    and fr: "a_frame (if permanent (wl_abs_of s) 0 then {} else expired_locks (wl_abs_of s) 0) (wl_abs_of s) (wl_abs_of s'')"
    using has_wake_lock_abs [OF wl_okD(1) [OF ok], of 0] by auto
  have s': "s' = s''\<lparr>wait_for_wakeup := True\<rparr>" using b h by (simp add: power_suspend_late_def WAKE_LOCK_SUSPEND_def)
  have "wl_abs_of s' = wl_abs_of s''" by (simp add: s' wl_abs_of_def)
  then show ?thesis using ok_frame [OF ok fr] by (simp add: wl_ok_def s' wl_known_def)
qed

lemma ok_resume:
  assumes ok: "wl_ok (s, Some n)" and b: "suspend_end n s = Some s'"
  shows "wl_ok (s', None)"
proof (cases "current_event_num s = n")
  case True
  then have l: "wake_lock_internal unknown_wakeup (word_of_int (HZ div 2)) True s = Some s'"
    using b by (simp add: suspend_end_def wake_lock_timeout_def)
  have k: "unknown_wakeup \<in> wl_known s" using wl_okD(2) [OF ok] by (auto simp: static_locks_def)
  show ?thesis using ok_lock [OF ok k l] wl_okD(4) [OF ok] by (simp add: wl_ok_def)
next
  case False
  then show ?thesis using ok b by (auto simp: wl_ok_def suspend_end_def)
qed

lemma ok_step:
  assumes "wl_step p q" "wl_ok p"
  shows "wl_ok q"
  using assms
proof cases
  case (ws_query t s n s' e)
  then have "t < 2" by (auto simp: has_wake_lock_def has_wake_lock_locked_def WAKE_LOCK_TYPE_COUNT_def split: if_splits)
  then show ?thesis using has_wake_lock_abs [of s t] ws_query assms(2) wl_okD(1) ok_frame [of s e t s'] by auto
qed (use assms(2) in \<open>auto intro: ok_lock(1) ok_unlock ok_init ok_destroy ok_tick ok_timer ok_queue ok_other_work
      ok_suspend ok_suspend_late ok_resume\<close>)

lemma mask_zero: "unat (0 AND WAKE_LOCK_TYPE_MASK) = 0" by simp

text \<open>Initialisation succeeds when the registrations do, and \<open>main_wake_lock\<close> is held afterwards.\<close>

lemma wakelocks_init_ok:
  assumes "inactive_locks s0 = []"
  shows "\<exists>s. wakelocks_init None None True s0 = Some (Inr 0, s) \<and> wl_ok (s, None)
    \<and> v_active (views (wl_abs_of s) main_wake_lock) \<and> \<not> v_auto (views (wl_abs_of s) main_wake_lock)"
proof -
  let ?s1 = "s0\<lparr>active_wake_locks := (\<lambda>t. if t < WAKE_LOCK_TYPE_COUNT then [] else active_wake_locks s0 t)\<rparr>"
  let ?s2 = "wake_lock_init deleted_wake_locks 0 ''deleted_wake_locks'' ?s1"
  let ?s3 = "wake_lock_init main_wake_lock 0 ''main'' ?s2"
  have e1: "act (wl_abs_of ?s1) 0 = []" "act (wl_abs_of ?s1) 1 = []" "inact (wl_abs_of ?s1) = []"
    using assms by (simp_all add: WAKE_LOCK_TYPE_COUNT_def)
  have "a_inv (wl_abs_of ?s1)" "known (wl_abs_of ?s1) = {}"
    unfolding a_inv_def known_def less_two e1 by (auto simp: e1 WAKE_LOCK_TYPE_COUNT_def)
  note i1 = a_init_inv [OF this(1), where t = 0, of deleted_wake_locks, unfolded this(2), simplified]
  have k2: "a_inv (wl_abs_of ?s2)" "known (wl_abs_of ?s2) = {deleted_wake_locks}" 
    unfolding abs_init mask_zero using i1 by auto
  have n: "main_wake_lock \<notin> {deleted_wake_locks}" "unknown_wakeup \<notin> {main_wake_lock, deleted_wake_locks}"
    by (simp_all add: main_wake_lock_def deleted_wake_locks_def unknown_wakeup_def)
  note i2 = a_init_inv [OF k2(1), where t = 0, of main_wake_lock, unfolded k2(2), OF n(1), simplified]
  have k3: "a_inv (wl_abs_of ?s3)" "known (wl_abs_of ?s3) = {main_wake_lock, deleted_wake_locks}"
     "v_type (views (wl_abs_of ?s3) main_wake_lock) = 0"
    unfolding abs_init [of main_wake_lock] mask_zero using i2 by (auto simp: a_init_def)
  obtain b where b: "a_lock main_wake_lock None (wl_abs_of ?s3) = Some b" "a_inv b" "awaits b"
      "known b = {main_wake_lock, deleted_wake_locks}" "v_type (views b main_wake_lock) = 0"
    using a_lock_ok [OF k3(1), of main_wake_lock None] k3(2,3) by auto
  have bm: "v_active (views b main_wake_lock)" "\<not> v_auto (views b main_wake_lock)"
    using b(1) by (auto simp: a_lock_def a_insert_def a_schedule_def Let_def split: if_splits)
  obtain s4 where s4: "wake_lock main_wake_lock ?s3 = Some s4" "wl_abs_of s4 = b"
    using abs_wake_lock_internal [of main_wake_lock 0 False ?s3] b(1) by (auto simp: wake_lock_def)
  let ?s5 = "wake_lock_init unknown_wakeup 0 ''unknown_wakeups'' s4"
  note i3 = a_init_inv [OF b(2), where t = 0, of unknown_wakeup, unfolded b(4), OF n(2), simplified]
  have a5: "wl_abs_of ?s5 = a_init unknown_wakeup 0 ''unknown_wakeups'' b" unfolding abs_init mask_zero s4(2) by simp
  have "v_type (views (wl_abs_of ?s5) main_wake_lock) = 0" "v_type (views (wl_abs_of ?s5) unknown_wakeup) = 0"
    using b(5) n(2) unfolding a5 by (simp_all add: a_init_def)
  moreover have "a_inv (wl_abs_of ?s5)" "awaits (wl_abs_of ?s5)" "static_locks \<subseteq> known (wl_abs_of ?s5)"
    unfolding a5 static_locks_def using i3 b(3) by auto
  ultimately have "wl_ok (?s5, None)" by (simp add: wl_ok_def)
  moreover have "v_active (views (wl_abs_of ?s5) main_wake_lock)" "\<not> v_auto (views (wl_abs_of ?s5) main_wake_lock)"
    using bm n(2) unfolding a5 by (simp_all add: a_init_def)
  ultimately show ?thesis using s4(1) by (simp add: wakelocks_init_def Let_def)
qed

lemma reachable_ok: "wl_reachable p \<Longrightarrow> wl_ok p"
proof (induction rule: wl_reachable.induct)
  case (wr_init s0 s)
  then show ?case using wakelocks_init_ok by fastforce
qed (rule ok_step)

section \<open>Properties\<close>

definition boot_state :: wakelocks where
  "boot_state = \<lparr>locks = (\<lambda>_. \<lparr>flags = 0, lock_name = '''', expires = 0, stat = stat_zero\<rparr>), inactive_locks = [],
     active_wake_locks = (\<lambda>_. []), current_event_num = 0, last_sleep_time_update = 0, wait_for_wakeup = False,
     expire_timer = None, suspend_work_queue = [], jiffies = 4294937296, ktime = 0, xtime = 0\<rparr>"

definition booted :: wakelocks where
  "booted = snd (the (wakelocks_init None None True boot_state))"

lemma booted_init: "wakelocks_init None None True boot_state = Some (Inr 0, booted)"
  using wakelocks_init_ok [of boot_state] by (auto simp: booted_def boot_state_def)

lemma booted_reachable: "wl_reachable (booted, None)"
  by (rule wr_init [OF _ booted_init]) (simp add: boot_state_def)

lemma booted_active: "active_wake_locks booted 0 = [main_wake_lock]" "active_wake_locks booted 1 = []"
  "inactive_locks booted = [unknown_wakeup, deleted_wake_locks]" by code_simp+

lemma view_flag_iff:
  "wake_lock_active s l \<longleftrightarrow> v_active (views (wl_abs_of s) l)"
  "flags (locks s l) AND WAKE_LOCK_AUTO_EXPIRE \<noteq> 0 \<longleftrightarrow> v_auto (views (wl_abs_of s) l)"
  by (simp_all add: wake_lock_active_def wl_flag_bits)




definition released :: wakelocks where "released = wake_unlock main_wake_lock booted"


text \<open>C24: \<open>has_wake_lock\<close> answers -1 if a lock of the type without a timeout is held, otherwise the
  jiffies until the last one expires, 0 if none is left.  It releases the expired locks of the type (unless the answer
  is -1) and no others, and changes neither the timer nor the work queue.\<close>

theorem has_wake_lock_correct:
  assumes "wl_reachable (s, e)" "t < 2"
  shows "\<exists>s'. has_wake_lock t s =
      Some (if \<exists>l\<in>set (active_wake_locks s t). flags (locks s l) AND WAKE_LOCK_AUTO_EXPIRE = 0 then -1
            else Max (insert 0 (time_left s ` set (active_wake_locks s t))), s')
    \<and> set (active_wake_locks s' t) = {l \<in> set (active_wake_locks s t). 0 < time_left s l
          \<or> (\<exists>k\<in>set (active_wake_locks s t). flags (locks s k) AND WAKE_LOCK_AUTO_EXPIRE = 0)}
    \<and> wl_known s' = wl_known s \<and> expire_timer s' = expire_timer s \<and> suspend_work_queue s' = suspend_work_queue s"
proof -
  have inv: "a_inv (wl_abs_of s)" by (rule wl_okD(1) [OF reachable_ok [OF assms(1)]])
  obtain s' where s': "has_wake_lock t s = Some (has_result (wl_abs_of s) t, s')"
    and fr: "a_frame (if permanent (wl_abs_of s) t then {} else expired_locks (wl_abs_of s) t) (wl_abs_of s) (wl_abs_of s')"
    using has_wake_lock_abs [OF inv assms(2)] by blast
  have p: "permanent (wl_abs_of s) t = (\<exists>l\<in>set (active_wake_locks s t). flags (locks s l) AND WAKE_LOCK_AUTO_EXPIRE = 0)"
    by (simp add: permanent_def wl_flag_bits)
  have "set (active_wake_locks s' t) = {l \<in> set (active_wake_locks s t). 0 < time_left s l \<or> permanent (wl_abs_of s) t}"
    using fr assms(2) unfolding a_frame_def expired_locks_def by auto
  moreover have "wl_known s' = wl_known s" "expire_timer s' = expire_timer s" "suspend_work_queue s' = suspend_work_queue s"
    using fr unfolding a_frame_def by auto
  moreover have "a_left (wl_abs_of s) = time_left s" by (rule ext) simp
  ultimately show ?thesis using s' unfolding has_result_def p by (intro exI [of _ s']) simp
qed

theorem has_wake_lock_correct_witness: "\<exists>s'. has_wake_lock 0 booted = Some (-1, s') \<and> set (active_wake_locks s' 0) = {main_wake_lock}"
proof -
  have "\<exists>l\<in>set (active_wake_locks booted 0). flags (locks booted l) AND WAKE_LOCK_AUTO_EXPIRE = 0" by code_simp
  then show ?thesis using has_wake_lock_correct [OF booted_reachable, of 0] booted_active(1) by auto
qed

lemma has_result_zero:
  "has_result (wl_abs_of s) 0 = 0 \<longleftrightarrow> \<not> permanent (wl_abs_of s) 0 \<and> (\<forall>l\<in>set (active_wake_locks s 0). time_left s l \<le> 0)"
proof (cases "permanent (wl_abs_of s) 0")
  case False
  have "Max (insert 0 (time_left s ` set (active_wake_locks s 0))) = 0
      \<longleftrightarrow> (\<forall>l\<in>set (active_wake_locks s 0). time_left s l \<le> 0)"
    by (subst Max_eq_iff) auto
  moreover have "a_left (wl_abs_of s) = time_left s" by (rule ext) simp
  ultimately show ?thesis using False by (simp only: has_result_def if_False abs_fields) simp
qed (simp add: has_result_def)

lemma suspend_result:
  assumes "a_inv (wl_abs_of s)"
  shows "fst (suspend_begin s) \<noteq> None \<longleftrightarrow> has_result (wl_abs_of s) 0 = 0"
    "fst (power_suspend_late s) = (if has_result (wl_abs_of s) 0 = 0 then Inr 0 else Inl EAGAIN)"
  using has_wake_lock_abs [OF assms, of 0] by (auto simp: suspend_begin_def power_suspend_late_def WAKE_LOCK_SUSPEND_def split: if_splits)

text \<open>C11: The suspend work enters \<open>pm_suspend\<close> exactly when every held suspend lock has a timeout that has
  passed, and the late suspend handler lets the suspend go on under the same condition; otherwise it fails with
  \<open>EAGAIN\<close>.\<close>

theorem suspend_safe:
  assumes "wl_reachable (s, e)"
  shows "(fst (suspend_begin s) \<noteq> None \<longleftrightarrow> (\<forall>l\<in>set (active_wake_locks s 0).
      flags (locks s l) AND WAKE_LOCK_AUTO_EXPIRE \<noteq> 0 \<and> time_left s l \<le> 0))
    \<and> fst (power_suspend_late s) = (if fst (suspend_begin s) \<noteq> None then Inr 0 else Inl EAGAIN)"
  using has_result_zero [of s] suspend_result [OF wl_okD(1) [OF reachable_ok [OF assms]]]
  by (auto simp: permanent_def wl_flag_bits)

theorem suspend_safe_witness: "fst (suspend_begin booted) = None \<and> fst (power_suspend_late booted) = Inl EAGAIN"
proof -
  have "\<not> (\<forall>l\<in>set (active_wake_locks booted 0). flags (locks booted l) AND WAKE_LOCK_AUTO_EXPIRE \<noteq> 0 \<and> time_left booted l \<le> 0)"
    by code_simp
  then show ?thesis using suspend_safe [OF booted_reachable] by auto
qed

text \<open>C22: The statistics do not influence the locks: with the statistics, the flag that marks locks that
  prevent a suspend and the clocks of the statistics left out of the state, locking, unlocking, initialising and
  destroying a lock are the abstract operations.\<close>

theorem wakelock_refinement:
  "map_option wl_abs_of (wake_lock_timeout l d s) = a_lock l (Some d) (wl_abs_of s)
   \<and> map_option wl_abs_of (wake_lock l s) = a_lock l None (wl_abs_of s)
   \<and> wl_abs_of (wake_unlock l s) = a_unlock l (wl_abs_of s)
   \<and> wl_abs_of (wake_lock_init l t name s) = a_init l (unat (t AND WAKE_LOCK_TYPE_MASK)) name (wl_abs_of s)
   \<and> wl_abs_of (wake_lock_destroy l s) = a_destroy l (wl_abs_of s)"
  by (simp only: wake_lock_def wake_lock_timeout_def abs_wake_lock_internal abs_wake_unlock abs_init abs_destroy) simp

lemma has_internal_iff:
  "has_wake_lock_internal_loop s name ls \<longleftrightarrow> (\<exists>l\<in>set ls. lock_name (locks s l) = name
     \<and> (flags (locks s l) AND WAKE_LOCK_AUTO_EXPIRE = 0 \<or> 0 < time_left s l))"
  by (induction ls) auto

definition holds_named :: "wakelocks \<Rightarrow> string \<Rightarrow> bool" where
  "holds_named s name \<longleftrightarrow> (\<exists>l\<in>set (active_wake_locks s WAKE_LOCK_SUSPEND). lock_name (locks s l) = name
     \<and> (flags (locks s l) AND WAKE_LOCK_AUTO_EXPIRE = 0 \<or> 0 < time_left s l))"

text \<open>The query of the idle code holds exactly when a suspend lock named \<open>AudioOutLock\<close> is held and has
  not expired, and none named \<open>vbus_present\<close> or \<open>bt-rfkill\<close> is.\<close>

theorem has_audio_wake_lock_correct:
  "has_audio_wake_lock s \<longleftrightarrow>
     holds_named s ''AudioOutLock'' \<and> \<not> holds_named s ''vbus_present'' \<and> \<not> holds_named s ''bt-rfkill''"
  by (simp add: has_audio_wake_lock_def has_wake_lock_internal_def has_internal_iff holds_named_def)

end
