(* ===== verification/Early_Suspend.thy ===== *)
theory Early_Suspend
  imports Wakelock
begin

text \<open>
  Early suspend, \<open>kernel/power/earlysuspend.c\<close>, and the state file of \<open>kernel/power/main.c\<close> that drives it.
  A request to sleep queues the work that calls the suspend handlers and then releases
  \<open>main_wake_lock\<close>; a request to wake up takes the lock and queues the work that calls the resume handlers.  The
  works run one at a time on the queue of the wake locks, together with the suspend work.

  The state spinlock makes each change of \<open>state\<close> atomic, but requests come in between the calls of
  the handlers and before the last check of the early suspend work, so each work is a sequence of steps and \<open>phase\<close> says where
  the worker is.  The mutex keeps registrations away while handlers are called.  The callbacks
  of a handler are not modelled; \<open>calls\<close> records the calls (\<open>True\<close> for suspend), the latest last.
  The parts for low-power audio are not configured on the device.
\<close>

section \<open>The model\<close>

definition SUSPEND_REQUESTED :: u32 where "SUSPEND_REQUESTED = 1"
definition SUSPENDED :: u32 where "SUSPENDED = 2"
definition SUSPEND_REQUESTED_AND_SUSPENDED :: u32 where
  "SUSPEND_REQUESTED_AND_SUSPENDED = SUSPEND_REQUESTED OR SUSPENDED"

definition PM_SUSPEND_ON :: nat where "PM_SUSPEND_ON = 0"
definition PM_SUSPEND_STANDBY :: nat where "PM_SUSPEND_STANDBY = 1"
definition PM_SUSPEND_MEM :: nat where "PM_SUSPEND_MEM = 3"
definition PM_SUSPEND_MAX :: nat where "PM_SUSPEND_MAX = 4"

text \<open>A handler: its level, and whether its two callbacks are not \<open>NULL\<close>.\<close>

record early_suspend_struct =
  level :: int
  has_suspend :: bool
  has_resume :: bool

datatype phase = Idle | Calling_Suspend "addr list" | Suspend_Called | Calling_Resume "addr list" | In_Pm_Suspend u32

record power =
  wl :: wakelocks
  es_state :: u32
  early_suspend_handlers :: "addr list"
  handler :: "addr \<Rightarrow> early_suspend_struct"
  requested_suspend_state :: nat
  calls :: "(addr \<times> bool) list"
  phase :: phase

definition call_suspend :: "addr \<Rightarrow> power \<Rightarrow> power" where
  "call_suspend h s = (if has_suspend (handler s h) then s\<lparr>calls := calls s @ [(h, True)]\<rparr> else s)"

definition call_resume :: "addr \<Rightarrow> power \<Rightarrow> power" where
  "call_resume h s = (if has_resume (handler s h) then s\<lparr>calls := calls s @ [(h, False)]\<rparr> else s)"

subsection \<open>Handlers\<close>

fun insert_level :: "(addr \<Rightarrow> early_suspend_struct) \<Rightarrow> addr \<Rightarrow> addr list \<Rightarrow> addr list" where
  "insert_level H h [] = [h]"
| "insert_level H h (e # es) = (if level (H e) > level (H h) then h # e # es else e # insert_level H h es)"

definition register_early_suspend :: "addr \<Rightarrow> power \<Rightarrow> power" where
  "register_early_suspend h s =
     (let s1 = s\<lparr>early_suspend_handlers := insert_level (handler s) h (early_suspend_handlers s)\<rparr>
      in if es_state s1 AND SUSPENDED \<noteq> 0 then call_suspend h s1 else s1)"

definition unregister_early_suspend :: "addr \<Rightarrow> power \<Rightarrow> power" where
  "unregister_early_suspend h s = s\<lparr>early_suspend_handlers := remove1 h (early_suspend_handlers s)\<rparr>"

subsection \<open>The works\<close>

definition early_suspend_begin :: "power \<Rightarrow> power" where
  "early_suspend_begin s =
     (if es_state s = SUSPEND_REQUESTED
      then s\<lparr>es_state := es_state s OR SUSPENDED, phase := Calling_Suspend (early_suspend_handlers s)\<rparr>
      else s\<lparr>phase := Suspend_Called\<rparr>)"

definition early_suspend_end :: "power \<Rightarrow> power" where
  "early_suspend_end s =
     (let s1 = (if es_state s = SUSPEND_REQUESTED_AND_SUSPENDED then s\<lparr>wl := wake_unlock main_wake_lock (wl s)\<rparr> else s)
      in s1\<lparr>phase := Idle\<rparr>)"

definition late_resume_begin :: "power \<Rightarrow> power" where
  "late_resume_begin s =
     (if es_state s = SUSPENDED
      then s\<lparr>es_state := es_state s AND NOT SUSPENDED, phase := Calling_Resume (rev (early_suspend_handlers s))\<rparr>
      else s)"

text \<open>One step of a work that calls handlers.\<close>

definition handler_step :: "power \<Rightarrow> power" where
  "handler_step s = (case phase s of
       Calling_Suspend (h # hs) \<Rightarrow> (call_suspend h s)\<lparr>phase := Calling_Suspend hs\<rparr>
     | Calling_Suspend [] \<Rightarrow> s\<lparr>phase := Suspend_Called\<rparr>
     | Calling_Resume (h # hs) \<Rightarrow> (call_resume h s)\<lparr>phase := Calling_Resume hs\<rparr>
     | Calling_Resume [] \<Rightarrow> s\<lparr>phase := Idle\<rparr>
     | _ \<Rightarrow> s)"

text \<open>The works without interruption.\<close>

fun call_all :: "(addr \<Rightarrow> power \<Rightarrow> power) \<Rightarrow> addr list \<Rightarrow> power \<Rightarrow> power" where
  "call_all f [] s = s"
| "call_all f (h # hs) s = call_all f hs (f h s)"

definition early_suspend :: "power \<Rightarrow> power" where
  "early_suspend s =
     (let s1 = early_suspend_begin s;
          s2 = (case phase s1 of Calling_Suspend hs \<Rightarrow> call_all call_suspend hs s1 | _ \<Rightarrow> s1)
      in early_suspend_end s2)"

definition late_resume :: "power \<Rightarrow> power" where
  "late_resume s =
     (let s1 = late_resume_begin s
      in case phase s1 of Calling_Resume hs \<Rightarrow> (call_all call_resume hs s1)\<lparr>phase := Idle\<rparr> | _ \<Rightarrow> s1)"

subsection \<open>Requests\<close>

definition request_suspend_state :: "nat \<Rightarrow> power \<Rightarrow> power option" where
  "request_suspend_state new_state s =
     (let old_sleep = es_state s AND SUSPEND_REQUESTED \<noteq> 0;
          res = (if \<not> old_sleep \<and> new_state \<noteq> PM_SUSPEND_ON
                 then Some (s\<lparr>es_state := es_state s OR SUSPEND_REQUESTED, wl := queue_work early_suspend_work (wl s)\<rparr>)
                 else if old_sleep \<and> new_state = PM_SUSPEND_ON
                 then map_option (\<lambda>w. s\<lparr>es_state := es_state s AND NOT SUSPEND_REQUESTED,
                                        wl := queue_work late_resume_work w\<rparr>)
                        (wake_lock main_wake_lock (wl s))
                 else Some s)
      in map_option (\<lambda>s1. s1\<lparr>requested_suspend_state := new_state\<rparr>) res)"

definition get_suspend_state :: "power \<Rightarrow> nat" where
  "get_suspend_state s = requested_suspend_state s"

text \<open>\<open>/sys/power/state\<close>; \<open>valid\<close> is the check of the platform, \<open>suspend_ops->valid\<close>.  Hibernation is not
  configured.\<close>

definition pm_states :: "nat \<Rightarrow> string option" where
  "pm_states i =
     (if i = PM_SUSPEND_ON then Some ''on'' else if i = PM_SUSPEND_STANDBY then Some ''standby''
      else if i = PM_SUSPEND_MEM then Some ''mem'' else None)"

definition state_show :: "(nat \<Rightarrow> bool) \<Rightarrow> string" where
  "state_show valid =
     (let s = concat (map (\<lambda>i. case pm_states i of Some n \<Rightarrow> if valid i then n @ '' '' else '''' | None \<Rightarrow> '''') [0..<PM_SUSPEND_MAX])
      in if s = '''' then s else butlast s @ [CHR 0x0A])"

definition state_store :: "(nat \<Rightarrow> bool) \<Rightarrow> string \<Rightarrow> power \<Rightarrow> ((errno + nat) \<times> power) option" where
  "state_store valid buf s =
     (let p = takeWhile (\<lambda>c. c \<noteq> CHR 0x0A) buf in
      if p = ''disk'' then Some (Inl ENOSYS, s)
      else case find (\<lambda>i. pm_states i = Some p) [PM_SUSPEND_ON..<PM_SUSPEND_MAX] of
             None \<Rightarrow> Some (Inl EINVAL, s)
           | Some state \<Rightarrow>
               if state = PM_SUSPEND_ON \<or> valid state
               then map_option (\<lambda>s1. (Inr (length buf), s1)) (request_suspend_state state s)
               else Some (Inl EINVAL, s))"

section \<open>The machine\<close>

text \<open>What the rest of the system does with wake locks: everything but using \<open>main_wake_lock\<close> and running
  the works.\<close>

inductive wl_env :: "wakelocks \<Rightarrow> wakelocks \<Rightarrow> bool" where
  we_lock: "l \<in> wl_known w \<Longrightarrow> l \<noteq> main_wake_lock \<Longrightarrow> wake_lock_internal l d has w = Some w' \<Longrightarrow> wl_env w w'"
| we_unlock: "l \<in> wl_known w \<Longrightarrow> l \<noteq> main_wake_lock \<Longrightarrow> wl_env w (wake_unlock l w)"
| we_init: "l \<notin> wl_known w \<Longrightarrow> t < 2 \<Longrightarrow> wl_env w (wake_lock_init l t name w)"
| we_destroy: "l \<in> wl_known w \<Longrightarrow> l \<notin> static_locks \<Longrightarrow>
    wake_lock_active w l \<longrightarrow> flags (locks w l) AND WAKE_LOCK_AUTO_EXPIRE \<noteq> 0 \<Longrightarrow> wl_env w (wake_lock_destroy l w)"
| we_query: "has_wake_lock t w = Some (n, w') \<Longrightarrow> wl_env w w'"
| we_tick: "\<forall>t. expire_timer w = Some t \<longrightarrow> 0 < sint (t - jiffies w) \<Longrightarrow>
    wl_env w (w\<lparr>jiffies := jiffies w + 1, ktime := k, xtime := x\<rparr>)"
| we_timer: "expire_timer w = Some t \<Longrightarrow> sint (t - jiffies w) \<le> 0 \<Longrightarrow>
    wl_env w (expire_wake_locks (w\<lparr>expire_timer := None\<rparr>))"

definition mutex_free :: "power \<Rightarrow> bool" where
  "mutex_free s = (case phase s of Calling_Suspend _ \<Rightarrow> False | Calling_Resume _ \<Rightarrow> False | _ \<Rightarrow> True)"

text \<open>The last call of a handler was to suspend.\<close>

fun last_call :: "(addr \<times> bool) list \<Rightarrow> addr \<Rightarrow> bool" where
  "last_call [] h = False"
| "last_call ((k, b) # cs) h = (if h \<in> fst ` set cs then last_call cs h else k = h \<and> b)"

definition set_works :: "power_work list \<Rightarrow> power \<Rightarrow> power" where
  "set_works ws s = s\<lparr>wl := (wl s)\<lparr>suspend_work_queue := ws\<rparr>\<rparr>"

inductive es_step :: "power \<Rightarrow> power \<Rightarrow> bool" where
  es_env: "wl_env (wl s) w' \<Longrightarrow> es_step s (s\<lparr>wl := w'\<rparr>)"
| es_register: "mutex_free s \<Longrightarrow> h \<notin> set (early_suspend_handlers s) \<Longrightarrow> \<not> last_call (calls s) h \<Longrightarrow>
    es_step s (register_early_suspend h (s\<lparr>handler := (handler s)(h := E)\<rparr>))"
| es_unregister: "mutex_free s \<Longrightarrow> es_step s (unregister_early_suspend h s)"
| es_request: "request_suspend_state n s = Some s' \<Longrightarrow> es_step s s'"
| es_early: "phase s = Idle \<Longrightarrow> suspend_work_queue (wl s) = early_suspend_work # ws \<Longrightarrow>
    es_step s (early_suspend_begin (set_works ws s))"
| es_late: "phase s = Idle \<Longrightarrow> suspend_work_queue (wl s) = late_resume_work # ws \<Longrightarrow>
    es_step s (late_resume_begin (set_works ws s))"
| es_handler: "\<not> mutex_free s \<Longrightarrow> es_step s (handler_step s)"
| es_end: "phase s = Suspend_Called \<Longrightarrow> es_step s (early_suspend_end s)"
| es_suspend: "phase s = Idle \<Longrightarrow> suspend_work_queue (wl s) = suspend_work # ws \<Longrightarrow>
    suspend_begin (wl (set_works ws s)) = (e, w') \<Longrightarrow>
    es_step s (s\<lparr>wl := w', phase := (case e of None \<Rightarrow> Idle | Some n \<Rightarrow> In_Pm_Suspend n)\<rparr>)"
| es_suspend_late: "phase s = In_Pm_Suspend n \<Longrightarrow> power_suspend_late (wl s) = (r, w') \<Longrightarrow> es_step s (s\<lparr>wl := w'\<rparr>)"
| es_resume: "phase s = In_Pm_Suspend n \<Longrightarrow> suspend_end n (wl s) = Some w' \<Longrightarrow> es_step s (s\<lparr>wl := w', phase := Idle\<rparr>)"

inductive es_reachable :: "power \<Rightarrow> bool" where
  er_init: "inactive_locks w0 = [] \<Longrightarrow> suspend_work_queue w0 = [] \<Longrightarrow> wakelocks_init None None True w0 = Some (Inr 0, w) \<Longrightarrow>
    es_reachable \<lparr>wl = w, es_state = 0, early_suspend_handlers = [], handler = H,
      requested_suspend_state = PM_SUSPEND_MEM, calls = [], phase = Idle\<rparr>"
| er_step: "es_reachable s \<Longrightarrow> es_step s s' \<Longrightarrow> es_reachable s'"

section \<open>The main lock and the works\<close>

text \<open>The rest of the system leaves \<open>main_wake_lock\<close> alone, and of the works changes only the suspend work.\<close>

definition kept :: "wl_abs \<Rightarrow> wl_abs \<Rightarrow> bool" where
  "kept a b \<longleftrightarrow> views b main_wake_lock = views a main_wake_lock
     \<and> (\<forall>w. w \<noteq> suspend_work \<longrightarrow> (w \<in> set (works b)) = (w \<in> set (works a)))"

lemma kept_trans: "kept a b \<Longrightarrow> kept b c \<Longrightarrow> kept a c"
  by (simp add: kept_def)

lemma kept_schedule: "kept a (a_schedule n a)"
  by (simp add: kept_def a_schedule_def)

lemma kept_frame:
  assumes "a_frame (if permanent a t then {} else expired_locks a t) a b" "\<not> v_auto (views a main_wake_lock)"
  shows "kept a b"
proof -
  have "main_wake_lock \<notin> (if permanent a t then {} else expired_locks a t)"
    using assms(2) by (auto simp: permanent_def expired_locks_def)
  then show ?thesis using assms(1) by (simp add: a_frame_def kept_def)
qed

lemma kept_has:
  assumes "a_inv a" "\<not> v_auto (views a main_wake_lock)" "a_has (act a 0) 0 a = (n, b)"
  shows "kept a (a_schedule m b)"
proof -
  obtain c where "a_has (act a 0) 0 a = (has_result a 0, c)"
    "a_frame (if permanent a 0 then {} else expired_locks a 0) a c" using a_has_result [OF assms(1), of 0] by auto
  then show ?thesis using kept_frame [OF _ assms(2)] kept_trans kept_schedule assms(3) by (metis prod.inject)
qed

lemma kept_lock:
  assumes inv: "a_inv a" and l: "l \<in> known a" "l \<noteq> main_wake_lock" and m: "\<not> v_auto (views a main_wake_lock)"
    and b: "a_lock l d a = Some b"
  shows "kept a b"
proof -
  let ?a = "(a_insert l d a)\<lparr>event_num := event_num (a_insert l d a) + 1\<rparr>"
  have k: "kept a (a_insert l d a)" "kept a ?a"
    using a_insert_inv(5,8) [OF inv l(1)] l(2) by (simp_all add: kept_def)
  have a: "a_inv ?a" "\<not> v_auto (views ?a main_wake_lock)"
    using a_insert_inv(1) [OF inv l(1)] k(2) m by (simp_all add: kept_def)
  have "b = a_insert l d a \<or> (\<exists>n c. b = a_schedule n c \<and> (c = ?a \<or> a_has (act ?a 0) 0 ?a = (n, c)))"
    using b by (auto simp: a_lock_def Let_def split: if_splits prod.splits)
  then show ?thesis
    using k kept_trans [OF k(2)] kept_schedule kept_has [OF a] by blast
qed

lemma kept_unlock:
  assumes inv: "a_inv a" and l: "l \<in> known a" "l \<noteq> main_wake_lock" and m: "\<not> v_auto (views a main_wake_lock)"
  shows "kept a (a_unlock l a)"
proof -
  let ?a = "a_release l a"
  note S = a_release_sets [OF inv, where l = l]
  have k: "kept a ?a" using l(2) by (simp add: kept_def S(5,9))
  have a: "a_inv ?a" "\<not> v_auto (views ?a main_wake_lock)"
    using a_release_inv(1) [OF inv l(1)] k m by (simp_all add: kept_def)
  have "a_unlock l a = ?a \<or> (\<exists>n c. a_unlock l a = a_schedule n c \<and> a_has (act ?a 0) 0 ?a = (n, c))"
    by (auto simp: a_unlock_def Let_def split: prod.splits)
  then show ?thesis using k kept_trans [OF k] kept_has [OF a] by metis
qed

lemma env_kept:
  assumes "wl_env w w'" "wl_ok (w, e)" "\<not> v_auto (views (wl_abs_of w) main_wake_lock)"
  shows "wl_ok (w', e) \<and> kept (wl_abs_of w) (wl_abs_of w')"
proof
  show "wl_ok (w', e)"
    by (rule ok_step [OF _ assms(2)]) (use assms(1) in cases, (blast intro: wl_step.intros)+)
  note inv = wl_okD(1) [OF assms(2)]
  have main: "main_wake_lock \<in> wl_known w" using wl_okD(2) [OF assms(2)] by (auto simp: static_locks_def)
  show "kept (wl_abs_of w) (wl_abs_of w')"
    using assms(1)
  proof cases
    case (we_lock l d has)
    then have "a_lock l (if has then Some d else None) (wl_abs_of w) = Some (wl_abs_of w')"
      using abs_wake_lock_internal [of l d has w] by simp
    then show ?thesis using kept_lock [OF inv _ we_lock(2) assms(3)] we_lock(1) by simp
  next
    case (we_unlock l)
    then show ?thesis using kept_unlock [OF inv _ _ assms(3)] by (simp add: abs_wake_unlock)
  next
    case (we_init l t name)
    then show ?thesis using main by (auto simp: abs_init kept_def a_init_def)
  next
    case (we_destroy l)
    then show ?thesis by (auto simp: abs_destroy kept_def a_destroy_def static_locks_def)
  next
    case (we_query t n)
    then have t: "t < 2" by (auto simp: has_wake_lock_def has_wake_lock_locked_def WAKE_LOCK_TYPE_COUNT_def split: if_splits)
    show ?thesis using has_wake_lock_abs [OF inv t] kept_frame [OF _ assms(3)] we_query by auto
  next
    case (we_tick k x)
    then show ?thesis by (simp add: kept_def)
  next
    case (we_timer t)
    let ?w = "w\<lparr>expire_timer := None\<rparr>"
    obtain v where v: "a_frame (if permanent (wl_abs_of ?w) 0 then {} else expired_locks (wl_abs_of ?w) 0) (wl_abs_of ?w) (wl_abs_of v)"
      "w' = (if has_result (wl_abs_of ?w) 0 = 0 then queue_work suspend_work v else v)"
      using expire_wake_locks_abs [of ?w] inv we_timer(1) by (auto simp: abs_timer)
    have "kept (wl_abs_of ?w) (wl_abs_of v)" by (rule kept_frame [OF v(1)]) (use assms(3) in simp)
    then show ?thesis unfolding v(2) by (auto simp: kept_def queue_work_def)
  qed
qed

lemma main_unlock:
  assumes ok: "wl_ok (w, e)"
  shows "\<not> v_active (views (wl_abs_of (wake_unlock main_wake_lock w)) main_wake_lock)
    \<and> \<not> v_auto (views (wl_abs_of (wake_unlock main_wake_lock w)) main_wake_lock)
    \<and> (\<forall>k. k \<noteq> suspend_work \<longrightarrow> (k \<in> set (suspend_work_queue (wake_unlock main_wake_lock w))) = (k \<in> set (suspend_work_queue w)))"
proof -
  let ?a = "wl_abs_of w"
  let ?b = "a_release main_wake_lock ?a"
  have m: "main_wake_lock \<in> known ?a" "v_type (views ?a main_wake_lock) = 0"
    using wl_okD(2,3) [OF ok] by (auto simp: static_locks_def)
  note S = a_release_sets [OF wl_okD(1) [OF ok], where l = main_wake_lock]
  obtain n c where "a_has (act ?b 0) 0 ?b = (n, c)" by fastforce
  moreover from this have "a_unlock main_wake_lock ?a = a_schedule n c"
    using m(2) by (simp add: a_unlock_def)
  moreover have "\<not> v_auto (views ?b main_wake_lock)" by (simp add: S(5))
  ultimately have "kept ?b (a_unlock main_wake_lock ?a)"
    using kept_has a_release_inv(1) [OF wl_okD(1) [OF ok] m(1)] by metis
  then show ?thesis unfolding kept_def abs_wake_unlock [symmetric] by (simp add: S(5,9))
qed

lemma main_lock:
  assumes ok: "wl_ok (w, e)"
  shows "\<exists>w'. wake_lock main_wake_lock w = Some w' \<and> wl_ok (w', e) \<and> v_active (views (wl_abs_of w') main_wake_lock)
    \<and> \<not> v_auto (views (wl_abs_of w') main_wake_lock)
    \<and> (\<forall>k. k \<noteq> suspend_work \<longrightarrow> (k \<in> set (suspend_work_queue w')) = (k \<in> set (suspend_work_queue w)))"
proof -
  let ?a = "wl_abs_of w"
  let ?b = "a_insert main_wake_lock None ?a"
  have m: "main_wake_lock \<in> known ?a" "v_type (views ?a main_wake_lock) = 0"
    using wl_okD(2,3) [OF ok] by (auto simp: static_locks_def)
  have "a_lock main_wake_lock None ?a = Some (a_schedule (-1) (?b\<lparr>event_num := event_num ?b + 1\<rparr>))"
    using known_view [OF wl_okD(1) [OF ok] m(1)] m(2) by (simp add: a_lock_def Let_def)
  then obtain w' where w': "wake_lock_internal main_wake_lock 0 False w = Some w'"
      "wl_abs_of w' = a_schedule (-1) (?b\<lparr>event_num := event_num ?b + 1\<rparr>)"
    using abs_wake_lock_internal [of main_wake_lock 0 False w] by auto
  have "views (wl_abs_of w') main_wake_lock = views ?b main_wake_lock" "works (wl_abs_of w') = works ?a"
    unfolding w'(2) using a_insert_inv(8) [OF wl_okD(1) [OF ok] m(1)] by (simp_all add: a_schedule_def)
  moreover have "wl_ok (w', e)" using ok_lock(1) [OF ok _ w'(1)] m(1) by simp
  ultimately show ?thesis
    using w'(1) a_insert_inv(4) [OF wl_okD(1) [OF ok] m(1), where d = None]
    by (intro exI [of _ w']) (simp add: wake_lock_def)
qed

section \<open>Invariant\<close>

definition worker_event :: "power \<Rightarrow> u32 option" where
  "worker_event s = (case phase s of In_Pm_Suspend n \<Rightarrow> Some n | _ \<Rightarrow> None)"

definition main_active :: "power \<Rightarrow> bool" where
  "main_active s = wake_lock_active (wl s) main_wake_lock"

definition es_locks :: "power \<Rightarrow> bool" where
  "es_locks s \<longleftrightarrow> wl_ok (wl s, worker_event s) \<and> \<not> v_auto (views (wl_abs_of (wl s)) main_wake_lock)"

text \<open>The states and the works: as long as sleep is requested and not complete the work that completes it is
  queued or running, as long as the handlers must be resumed the late resume work is queued, and
  \<open>main_wake_lock\<close> is released only in the state of a complete early suspend.\<close>

definition bits_ok :: "u32 \<Rightarrow> phase \<Rightarrow> bool \<Rightarrow> bool \<Rightarrow> bool \<Rightarrow> bool" where
  "bits_ok st ph main early late \<longleftrightarrow>
     st \<in> {0, 1, 2, 3}
     \<and> (case ph of Calling_Suspend _ \<Rightarrow> st \<in> {2, 3} \<and> main | Calling_Resume _ \<Rightarrow> st \<in> {0, 1} | _ \<Rightarrow> True)
     \<and> (\<not> main \<longrightarrow> st = 3) \<and> (st = 1 \<longrightarrow> early) \<and> (st = 2 \<longrightarrow> late)
     \<and> (st = 3 \<and> main \<longrightarrow> early \<or> (case ph of Calling_Suspend _ \<Rightarrow> True | Suspend_Called \<Rightarrow> True | _ \<Rightarrow> False))"

definition es_bits :: "power \<Rightarrow> bool" where
  "es_bits s = bits_ok (es_state s) (phase s) (main_active s) (early_suspend_work \<in> set (suspend_work_queue (wl s)))
     (late_resume_work \<in> set (suspend_work_queue (wl s)))"

definition hooks :: "power \<Rightarrow> addr \<Rightarrow> bool" where
  "hooks s h \<longleftrightarrow> has_suspend (handler s h) \<and> has_resume (handler s h)"

definition all_called :: "power \<Rightarrow> bool \<Rightarrow> addr list \<Rightarrow> bool" where
  "all_called s b hs \<longleftrightarrow> (\<forall>h\<in>set hs. hooks s h \<longrightarrow> last_call (calls s) h = b)"

lemma all_called_upd [simp]:
  "all_called (s\<lparr>wl := w\<rparr>) = all_called s" "all_called (s\<lparr>es_state := st\<rparr>) = all_called s"
  "all_called (s\<lparr>phase := ph\<rparr>) = all_called s" "all_called (s\<lparr>requested_suspend_state := n\<rparr>) = all_called s"
  "all_called (s\<lparr>early_suspend_handlers := hs\<rparr>) = all_called s"
  by (simp_all add: fun_eq_iff all_called_def hooks_def)

text \<open>Every registered handler was last told what the state says.\<close>

definition es_handlers :: "power \<Rightarrow> bool" where
  "es_handlers s \<longleftrightarrow> distinct (early_suspend_handlers s)
     \<and> sorted (map (\<lambda>h. level (handler s h)) (early_suspend_handlers s))
     \<and> (case phase s of
          Calling_Suspend hs \<Rightarrow> (\<exists>ys. early_suspend_handlers s = ys @ hs \<and> all_called s True ys \<and> all_called s False hs)
        | Calling_Resume hs \<Rightarrow> (\<exists>ys. rev (early_suspend_handlers s) = ys @ hs \<and> all_called s False ys \<and> all_called s True hs)
        | _ \<Rightarrow> all_called s (es_state s \<in> {2, 3}) (early_suspend_handlers s))"

definition es_ok :: "power \<Rightarrow> bool" where
  "es_ok s \<longleftrightarrow> es_locks s \<and> es_bits s \<and> es_handlers s"

lemma bits_state: "es_bits s \<Longrightarrow> es_state s \<in> {0, 1, 2, 3}"
  by (simp add: es_bits_def bits_ok_def)

lemma state_suspended: "st \<in> {0, 1, 2, 3} \<Longrightarrow> (st AND SUSPENDED \<noteq> 0) = (st \<in> {2, 3::u32})"
  by (auto simp: SUSPENDED_def)

lemma last_call_snoc: "last_call (cs @ [(k, b)]) h = (if k = h then b else last_call cs h)"
proof (induction cs)
  case (Cons c cs)
  obtain k' b' where c: "c = (k', b')" by fastforce
  show ?case unfolding c using Cons by auto
qed auto

text \<open>Steps of the rest of the system.\<close>

lemma es_ok_env:
  assumes ok: "es_ok s" and env: "wl_env (wl s) w'"
  shows "es_ok (s\<lparr>wl := w'\<rparr>)"
proof -
  have l: "wl_ok (wl s, worker_event s)" "\<not> v_auto (views (wl_abs_of (wl s)) main_wake_lock)"
    using ok by (auto simp: es_ok_def es_locks_def)
  have k: "wl_ok (w', worker_event s)" "kept (wl_abs_of (wl s)) (wl_abs_of w')" using env_kept [OF env l] by auto
  have "es_locks (s\<lparr>wl := w'\<rparr>)" using k l(2) by (simp add: es_locks_def kept_def worker_event_def)
  moreover have "es_bits (s\<lparr>wl := w'\<rparr>)"
    using ok k(2) by (simp add: es_ok_def es_bits_def kept_def main_active_def view_flag_iff)
  moreover have "es_handlers (s\<lparr>wl := w'\<rparr>)"
    using ok by (cases "phase s") (simp_all add: es_ok_def es_handlers_def)
  ultimately show ?thesis by (simp add: es_ok_def)
qed

text \<open>Registration.\<close>

lemma set_insert_level: "set (insert_level H h xs) = insert h (set xs)"
  by (induction xs) auto

lemma insert_level_sorted:
  assumes "sorted (map (\<lambda>h. level (H h)) xs)"
  shows "sorted (map (\<lambda>h. level (H h)) (insert_level H h xs))"
  using assms by (induction xs) (auto simp: set_insert_level)

lemma insert_level_distinct: "h \<notin> set xs \<Longrightarrow> distinct xs \<Longrightarrow> distinct (insert_level H h xs)"
  by (induction xs) (auto simp: set_insert_level)

lemma es_ok_register:
  assumes ok: "es_ok s" and free: "mutex_free s" and h: "h \<notin> set (early_suspend_handlers s)" "\<not> last_call (calls s) h"
  shows "es_ok (register_early_suspend h (s\<lparr>handler := (handler s)(h := E)\<rparr>))"
proof -
  let ?s = "s\<lparr>handler := (handler s)(h := E), early_suspend_handlers := insert_level ((handler s)(h := E)) h (early_suspend_handlers s)\<rparr>"
  let ?r = "register_early_suspend h (s\<lparr>handler := (handler s)(h := E)\<rparr>)"
  let ?c = "es_state s \<in> {2, 3} \<and> has_suspend E"
  have bits: "es_state s \<in> {0, 1, 2, 3}" using ok bits_state by (auto simp: es_ok_def)
  have r: "?r = (if ?c then ?s\<lparr>calls := calls s @ [(h, True)]\<rparr> else ?s)"
    using state_suspended [OF bits] by (simp add: register_early_suspend_def Let_def call_suspend_def)
  have same: "wl ?r = wl s" "es_state ?r = es_state s" "phase ?r = phase s"
    "early_suspend_handlers ?r = early_suspend_handlers ?s" "handler ?r = handler ?s"
    "calls ?r = (if ?c then calls s @ [(h, True)] else calls s)" by (simp_all only: r power.simps split: if_split) simp_all
  have old: "all_called s (es_state s \<in> {2, 3}) (early_suspend_handlers s)" "distinct (early_suspend_handlers s)"
    "sorted (map (\<lambda>h. level (handler s h)) (early_suspend_handlers s))"
    using ok free by (auto simp: es_ok_def es_handlers_def mutex_free_def split: phase.splits)
  have "map (\<lambda>k. level (((handler s)(h := E)) k)) (early_suspend_handlers s) = map (\<lambda>k. level (handler s k)) (early_suspend_handlers s)"
    using h(1) by auto
  with old(3) have "sorted (map (\<lambda>k. level (((handler s)(h := E)) k)) (early_suspend_handlers s))" by (simp only:)
  from insert_level_sorted [where H = "(handler s)(h := E)" and h = h, OF this] have "sorted (map (\<lambda>k. level (handler ?r k)) (early_suspend_handlers ?r))"
    unfolding same by (simp del: fun_upd_apply)
  moreover have "all_called ?r (es_state s \<in> {2, 3}) (early_suspend_handlers ?r)"
    unfolding all_called_def
  proof (intro ballI impI)
    fix k assume k: "k \<in> set (early_suspend_handlers ?r)" "hooks ?r k"
    show "last_call (calls ?r) k = (es_state s \<in> {2, 3})"
    proof (cases "k = h")
      case True
      then have "has_suspend E" using k(2) unfolding hooks_def same by simp
      then show ?thesis unfolding same using True h(2) by (simp add: last_call_snoc)
    next
      case False
      then have "k \<in> set (early_suspend_handlers s)" "hooks s k" using k unfolding hooks_def same by (auto simp: set_insert_level)
      then show ?thesis using old(1) False unfolding same all_called_def by (simp add: last_call_snoc)
    qed
  qed
  moreover have "distinct (early_suspend_handlers ?r)" unfolding same using old(2) h(1) by (simp add: insert_level_distinct)
  ultimately have "es_handlers ?r" using free unfolding es_handlers_def same by (simp add: mutex_free_def split: phase.splits)
  then show ?thesis using ok by (simp add: es_ok_def es_locks_def es_bits_def same main_active_def worker_event_def)
qed

lemma es_okD:
  assumes "es_ok s"
  shows "es_locks s" "es_bits s" "es_handlers s" "wl_ok (wl s, worker_event s)"
    "\<not> v_auto (views (wl_abs_of (wl s)) main_wake_lock)"
  using assms by (simp_all add: es_ok_def es_locks_def)

lemma es_ok_unregister:
  assumes ok: "es_ok s" and free: "mutex_free s"
  shows "es_ok (unregister_early_suspend h s)"
proof -
  let ?r = "unregister_early_suspend h s"
  have "es_handlers ?r"
    using es_okD(3) [OF ok] free unfolding es_handlers_def unregister_early_suspend_def mutex_free_def
    by (cases "phase s") (auto simp: sorted_map_remove1 all_called_def hooks_def dest: notin_set_remove1)
  then show ?thesis using es_okD(1,2) [OF ok]
    by (simp add: es_ok_def es_locks_def es_bits_def main_active_def worker_event_def unregister_early_suspend_def)
qed

text \<open>Requests.\<close>

lemma queue_main: "main_active (s\<lparr>wl := queue_work k w\<rparr>) = main_active (s\<lparr>wl := w\<rparr>)"
  "views (wl_abs_of (queue_work k w)) = views (wl_abs_of w)"
  "set (suspend_work_queue (queue_work k w)) = insert k (set (suspend_work_queue w))"
  "locks (queue_work k w) = locks w"
  by (auto simp: main_active_def wake_lock_active_def queue_work_def wl_abs_of_def)

lemma es_handlers_state:
  assumes "es_handlers s" "(st \<in> {2, 3}) = (es_state s \<in> {2, 3})"
  shows "es_handlers (s\<lparr>es_state := st, wl := w, requested_suspend_state := n\<rparr>)"
  using assms by (cases "phase s") (simp_all add: es_handlers_def)

definition request_result :: "nat \<Rightarrow> power \<Rightarrow> wakelocks \<Rightarrow> power" where
  "request_result n s w =
     (if n \<noteq> PM_SUSPEND_ON \<and> es_state s \<in> {0, 2} then s\<lparr>es_state := es_state s + 1, wl := queue_work early_suspend_work (wl s),
           requested_suspend_state := n\<rparr>
      else if n = PM_SUSPEND_ON \<and> es_state s \<in> {1, 3} then s\<lparr>es_state := es_state s - 1, wl := queue_work late_resume_work w,
           requested_suspend_state := n\<rparr>
      else s\<lparr>requested_suspend_state := n\<rparr>)"

lemma request_eq:
  assumes "wake_lock main_wake_lock (wl s) = Some w" "es_state s \<in> {0, 1, 2, 3}"
  shows "request_suspend_state n s = Some (request_result n s w)"
  using assms by (auto simp: request_suspend_state_def request_result_def Let_def SUSPEND_REQUESTED_def)

lemma bits_sleep: "bits_ok st ph m e l \<Longrightarrow> st \<in> {0, 2} \<Longrightarrow> bits_ok (st + 1) ph m True l"
  and bits_wake: "bits_ok st ph m e l \<Longrightarrow> st \<in> {1, 3} \<Longrightarrow> bits_ok (st - 1) ph True e True"
  unfolding bits_ok_def by (cases ph; auto)+

lemma es_ok_request:
  assumes ok: "es_ok s"
  shows "\<exists>s'. request_suspend_state n s = Some s' \<and> es_ok s'"
proof -
  note bits = bits_state [OF es_okD(2) [OF ok]]
  obtain w where w: "wake_lock main_wake_lock (wl s) = Some w" "wl_ok (w, worker_event s)"
      "v_active (views (wl_abs_of w) main_wake_lock)" "\<not> v_auto (views (wl_abs_of w) main_wake_lock)"
      "\<forall>k. k \<noteq> suspend_work \<longrightarrow> (k \<in> set (suspend_work_queue w)) = (k \<in> set (suspend_work_queue (wl s)))"
    using main_lock [OF es_okD(4) [OF ok]] by blast
  let ?r = "request_result n s w"
  have "es_locks ?r"
    using es_okD(1) [OF ok] w(2,4) ok_queue
    by (auto simp: request_result_def es_locks_def worker_event_def queue_main simp del: abs_fields view_fields)
  moreover have "es_handlers ?r"
  proof -
    have "(es_state ?r \<in> {2, 3}) = (es_state s \<in> {2, 3})" using bits by (auto simp: request_result_def)
    then have "es_handlers (s\<lparr>es_state := es_state ?r, wl := wl ?r, requested_suspend_state := n\<rparr>)"
      by (rule es_handlers_state [OF es_okD(3) [OF ok]])
    moreover have "s\<lparr>es_state := es_state ?r, wl := wl ?r, requested_suspend_state := n\<rparr> = ?r"
      by (simp add: request_result_def)
    ultimately show ?thesis by simp
  qed
  moreover have "es_bits ?r"
  proof -
    have m: "main_active ?r = (if n = PM_SUSPEND_ON \<and> es_state s \<in> {1, 3} then True else main_active s)"
      using w(3) by (auto simp: request_result_def main_active_def view_flag_iff queue_main)
    have q: "k \<in> set (suspend_work_queue w) \<longleftrightarrow> k \<in> set (suspend_work_queue (wl s))" if "k \<noteq> suspend_work" for k
      using w(5) that by blast
    note B = es_okD(2) [OF ok, unfolded es_bits_def]
    consider (sleep) "n \<noteq> PM_SUSPEND_ON" "es_state s \<in> {0, 2}" | (wake) "n = PM_SUSPEND_ON" "es_state s \<in> {1, 3}"
      | (none) "n \<noteq> PM_SUSPEND_ON \<longrightarrow> es_state s \<notin> {0, 2}" "n = PM_SUSPEND_ON \<longrightarrow> es_state s \<notin> {1, 3}" by blast
    then show ?thesis
    proof cases
      case sleep
      then show ?thesis unfolding es_bits_def m using bits_sleep [OF B sleep(2)] by (simp add: request_result_def queue_main)
    next
      case wake
      then have "\<not> es_state s \<in> {0, 2}" by auto
      with wake show ?thesis unfolding es_bits_def m using bits_wake [OF B wake(2)] by (simp add: request_result_def queue_main q)
    next
      case none
      then have "?r = s\<lparr>requested_suspend_state := n\<rparr>" by (auto simp: request_result_def)
      then show ?thesis using B by (simp add: es_bits_def main_active_def)
    qed
  qed
  ultimately show ?thesis using request_eq [OF w(1) bits] by (simp add: es_ok_def)
qed

text \<open>The works.\<close>

lemma all_called_Nil [simp]: "all_called s b []"
  by (simp add: all_called_def)

lemma set_works_ok:
  assumes ok: "es_ok s" and i: "phase s = Idle" and q: "suspend_work_queue (wl s) = k # ws" "k \<noteq> suspend_work"
  shows "wl_ok (wl (set_works ws s), None)" "\<not> v_auto (views (wl_abs_of (wl (set_works ws s))) main_wake_lock)"
    "main_active (set_works ws s) = main_active s"
  using ok_other_work [OF _ q, of] es_okD(4,5) [OF ok] i
  by (simp_all add: set_works_def worker_event_def abs_works main_active_def wake_lock_active_def)

lemma es_ok_early:
  assumes ok: "es_ok s" and i: "phase s = Idle" and q: "suspend_work_queue (wl s) = early_suspend_work # ws"
  shows "es_ok (early_suspend_begin (set_works ws s))"
proof -
  let ?r = "early_suspend_begin (set_works ws s)"
  note bits = es_okD(2) [OF ok, unfolded es_bits_def] and w = set_works_ok [OF ok i q]
  have h: "all_called s (es_state s \<in> {2, 3}) (early_suspend_handlers s)" "distinct (early_suspend_handlers s)"
    "sorted (map (\<lambda>h. level (handler s h)) (early_suspend_handlers s))"
    using es_okD(3) [OF ok] i by (auto simp: es_handlers_def)
  have b: "bits_ok (es_state s) Idle (main_active s) True (late_resume_work \<in> set ws)" using bits i q by simp
  show ?thesis
  proof (cases "es_state s = 1")
    case True
    have r: "?r = s\<lparr>wl := wl (set_works ws s), es_state := 3, phase := Calling_Suspend (early_suspend_handlers s)\<rparr>"
      using True by (simp add: early_suspend_begin_def set_works_def SUSPEND_REQUESTED_def SUSPENDED_def)
    have "es_bits ?r" using b True w(3) unfolding r es_bits_def bits_ok_def by (simp add: set_works_def main_active_def)
    moreover have "es_handlers ?r" using h True unfolding r es_handlers_def by simp
    moreover have "es_locks ?r" using w(1,2) unfolding r es_locks_def by (simp add: worker_event_def del: abs_fields view_fields)
    ultimately show ?thesis by (simp add: es_ok_def)
  next
    case False
    have r: "?r = s\<lparr>wl := wl (set_works ws s), phase := Suspend_Called\<rparr>"
      using False by (simp add: early_suspend_begin_def set_works_def SUSPEND_REQUESTED_def)
    have "es_bits ?r" using b False w(3) unfolding r es_bits_def bits_ok_def by (auto simp: set_works_def main_active_def)
    moreover have "es_handlers ?r" using h unfolding r es_handlers_def by simp
    moreover have "es_locks ?r" using w(1,2) unfolding r es_locks_def by (simp add: worker_event_def del: abs_fields view_fields)
    ultimately show ?thesis by (simp add: es_ok_def)
  qed
qed

lemma es_ok_late:
  assumes ok: "es_ok s" and i: "phase s = Idle" and q: "suspend_work_queue (wl s) = late_resume_work # ws"
  shows "es_ok (late_resume_begin (set_works ws s))"
proof -
  let ?r = "late_resume_begin (set_works ws s)"
  note bits = es_okD(2) [OF ok, unfolded es_bits_def] and w = set_works_ok [OF ok i q]
  have h: "all_called s (es_state s \<in> {2, 3}) (early_suspend_handlers s)" "distinct (early_suspend_handlers s)"
    "sorted (map (\<lambda>h. level (handler s h)) (early_suspend_handlers s))"
    using es_okD(3) [OF ok] i by (auto simp: es_handlers_def)
  have b: "bits_ok (es_state s) Idle (main_active s) (early_suspend_work \<in> set ws) True" using bits i q by simp
  show ?thesis
  proof (cases "es_state s = 2")
    case True
    have r: "?r = s\<lparr>wl := wl (set_works ws s), es_state := 0, phase := Calling_Resume (rev (early_suspend_handlers s))\<rparr>"
      using True by (simp add: late_resume_begin_def set_works_def SUSPENDED_def)
    have "es_bits ?r" using b True w(3) unfolding r es_bits_def bits_ok_def by (simp add: set_works_def main_active_def)
    moreover have "es_handlers ?r" using h True unfolding r es_handlers_def by (simp add: all_called_def hooks_def)
    moreover have "es_locks ?r" using w(1,2) unfolding r es_locks_def by (simp add: worker_event_def del: abs_fields view_fields)
    ultimately show ?thesis by (simp add: es_ok_def)
  next
    case False
    have r: "?r = s\<lparr>wl := wl (set_works ws s)\<rparr>"
      using False by (simp add: late_resume_begin_def set_works_def SUSPENDED_def)
    have "es_bits ?r" using b False w(3) i unfolding r es_bits_def bits_ok_def by (auto simp: set_works_def main_active_def)
    moreover have "es_handlers ?r" using h i unfolding r es_handlers_def by simp
    moreover have "es_locks ?r" using w(1,2) i unfolding r es_locks_def by (simp add: worker_event_def del: abs_fields view_fields)
    ultimately show ?thesis by (simp add: es_ok_def)
  qed
qed

text \<open>Calling one handler.\<close>

lemma all_called_call:
  assumes "distinct (h # hs)" "all_called s b hs"
  shows "all_called (s\<lparr>calls := calls s @ [(h, c)]\<rparr>) b hs"
  using assms by (auto simp: all_called_def hooks_def last_call_snoc)

lemma all_called_more:
  assumes "h \<notin> set ys" "all_called s b ys"
  shows "all_called (s\<lparr>calls := calls s @ [(h, b)]\<rparr>) b (ys @ [h])"
  using assms by (auto simp: all_called_def hooks_def last_call_snoc)

lemma call_suspend_called:
  assumes "distinct (ys @ h # hs)" "all_called s True ys" "all_called s False (h # hs)"
  shows "all_called (call_suspend h s) True (ys @ [h])" "all_called (call_suspend h s) False hs"
proof -
  have "all_called s False hs" using assms(3) by (simp add: all_called_def)
  then show "all_called (call_suspend h s) False hs"
    using all_called_call [of h hs s False True] assms(1) by (simp add: call_suspend_def)
  show "all_called (call_suspend h s) True (ys @ [h])"
    using all_called_more [of h ys s True] assms(1,2) by (auto simp: call_suspend_def all_called_def hooks_def)
qed

lemma call_resume_called:
  assumes "distinct (ys @ h # hs)" "all_called s False ys" "all_called s True (h # hs)"
  shows "all_called (call_resume h s) False (ys @ [h])" "all_called (call_resume h s) True hs"
proof -
  have "all_called s True hs" using assms(3) by (simp add: all_called_def)
  then show "all_called (call_resume h s) True hs"
    using all_called_call [of h hs s True False] assms(1) by (simp add: call_resume_def)
  show "all_called (call_resume h s) False (ys @ [h])"
    using all_called_more [of h ys s False] assms(1,2) by (auto simp: call_resume_def all_called_def hooks_def)
qed

lemma call_same [simp]:
  "wl (call_suspend h s) = wl s" "es_state (call_suspend h s) = es_state s"
  "early_suspend_handlers (call_suspend h s) = early_suspend_handlers s" "handler (call_suspend h s) = handler s"
  "wl (call_resume h s) = wl s" "es_state (call_resume h s) = es_state s"
  "early_suspend_handlers (call_resume h s) = early_suspend_handlers s" "handler (call_resume h s) = handler s"
  by (simp_all add: call_suspend_def call_resume_def)

lemma es_ok_handler:
  assumes ok: "es_ok s" and free: "\<not> mutex_free s"
  shows "es_ok (handler_step s)"
proof -
  let ?r = "handler_step s"
  note H = es_okD(3) [OF ok, unfolded es_handlers_def] and B = es_okD(2) [OF ok, unfolded es_bits_def bits_ok_def]
  have w: "wl ?r = wl s" "worker_event ?r = worker_event s"
    using free by (simp_all add: handler_step_def mutex_free_def worker_event_def split: phase.splits list.splits)
  then have "es_locks ?r" using es_okD(1) [OF ok] by (simp add: es_locks_def)
  moreover have "es_bits ?r"
    using B free unfolding es_bits_def bits_ok_def main_active_def
    by (auto simp: handler_step_def mutex_free_def split: phase.splits list.splits)
  moreover have "es_handlers ?r"
  proof -
    consider (s) h hs where "phase s = Calling_Suspend (h # hs)" | (s0) "phase s = Calling_Suspend []"
      | (r) h hs where "phase s = Calling_Resume (h # hs)" | (r0) "phase s = Calling_Resume []"
      using free by (auto simp: mutex_free_def neq_Nil_conv split: phase.splits) (meson list.exhaust)+
    then show ?thesis
    proof cases
      case s
      then obtain ys where ys: "early_suspend_handlers s = ys @ h # hs" "all_called s True ys" "all_called s False (h # hs)"
        using H by auto
      then have "all_called (call_suspend h s) True (ys @ [h])" "all_called (call_suspend h s) False hs"
        using H call_suspend_called [of ys h hs s] by auto
      then show ?thesis using s H ys(1) unfolding es_handlers_def handler_step_def by simp
    next
      case r
      then obtain ys where ys: "rev (early_suspend_handlers s) = ys @ h # hs" "all_called s False ys" "all_called s True (h # hs)"
        using H by auto
      moreover have "distinct (ys @ h # hs)" using H ys(1) by (metis distinct_rev)
      ultimately have "all_called (call_resume h s) False (ys @ [h])" "all_called (call_resume h s) True hs"
        using call_resume_called [of ys h hs s] by auto
      then show ?thesis using r H ys(1) unfolding es_handlers_def handler_step_def by simp
    next
      case s0
      then have "es_state s \<in> {2, 3}" using B by simp
      then show ?thesis using s0 H unfolding es_handlers_def handler_step_def by auto
    next
      case r0
      then have "\<not> es_state s \<in> {2, 3}" using B by auto
      moreover have "all_called s False (early_suspend_handlers s)" using r0 H by (auto simp: all_called_def)
      ultimately show ?thesis using r0 H unfolding es_handlers_def handler_step_def by simp
    qed
  qed
  ultimately show ?thesis by (simp add: es_ok_def)
qed

lemma es_ok_end:
  assumes ok: "es_ok s" and ph: "phase s = Suspend_Called"
  shows "es_ok (early_suspend_end s)"
proof -
  let ?w = "if es_state s = 3 then wake_unlock main_wake_lock (wl s) else wl s"
  have r: "early_suspend_end s = s\<lparr>wl := ?w, phase := Idle\<rparr>"
    by (simp add: early_suspend_end_def SUSPEND_REQUESTED_AND_SUSPENDED_def SUSPEND_REQUESTED_def SUSPENDED_def)
  have wl: "wl_ok (wl s, None)" using es_okD(4) [OF ok] ph by (simp add: worker_event_def)
  have main: "main_wake_lock \<in> wl_known (wl s)" using wl_okD(2) [OF wl] by (auto simp: static_locks_def)
  note U = main_unlock [OF wl]
  note B = es_okD(2) [OF ok, unfolded es_bits_def bits_ok_def]
  have "wl_ok (?w, None)" using wl ok_unlock [OF wl main] by simp
  then have "es_locks (early_suspend_end s)"
    using U es_okD(5) [OF ok] unfolding r es_locks_def by (simp add: worker_event_def del: abs_fields view_fields)
  moreover have "es_bits (early_suspend_end s)"
    using B ph U unfolding r es_bits_def bits_ok_def by (auto simp: main_active_def view_flag_iff)
  moreover have "es_handlers (early_suspend_end s)" using es_okD(3) [OF ok] ph unfolding r es_handlers_def by simp
  ultimately show ?thesis by (simp add: es_ok_def)
qed

text \<open>The suspend work does not touch \<open>main_wake_lock\<close> nor the other works.\<close>

lemma suspend_kept:
  assumes ok: "wl_ok (w, x)" and m: "\<not> v_auto (views (wl_abs_of w) main_wake_lock)"
  shows "suspend_begin w = (e, w') \<Longrightarrow> kept (wl_abs_of w) (wl_abs_of w') \<and> (e \<noteq> None \<longrightarrow> \<not> v_active (views (wl_abs_of w') main_wake_lock))"
    "power_suspend_late w = (r, w') \<Longrightarrow> kept (wl_abs_of w) (wl_abs_of w')"
proof -
  note inv = wl_okD(1) [OF ok]
  obtain v where h: "has_wake_lock 0 w = Some (has_result (wl_abs_of w) 0, v)"
    and fr: "a_frame (if permanent (wl_abs_of w) 0 then {} else expired_locks (wl_abs_of w) 0) (wl_abs_of w) (wl_abs_of v)"
    using has_wake_lock_abs [OF inv, of 0] by auto
  have k: "kept (wl_abs_of w) (wl_abs_of v)" by (rule kept_frame [OF fr m])
  show "kept (wl_abs_of w) (wl_abs_of w')" if "power_suspend_late w = (r, w')"
  proof -
    have "w' = v\<lparr>wait_for_wakeup := True\<rparr>" using that h by (simp add: power_suspend_late_def WAKE_LOCK_SUSPEND_def)
    then show ?thesis using k by (simp add: kept_def)
  qed
  show "kept (wl_abs_of w) (wl_abs_of w') \<and> (e \<noteq> None \<longrightarrow> \<not> v_active (views (wl_abs_of w') main_wake_lock))"
    if b: "suspend_begin w = (e, w')"
  proof -
    have w': "w' = v" "e \<noteq> None \<Longrightarrow> has_result (wl_abs_of w) 0 = 0"
      using b h by (auto simp: suspend_begin_def WAKE_LOCK_SUSPEND_def split: if_splits)
    have "\<not> v_active (views (wl_abs_of v) main_wake_lock)" if e: "e \<noteq> None"
    proof -
      have e0: "act (wl_abs_of v) 0 = []" using has_zero(1) [OF fr] w'(2) [OF e] by simp
      have v: "a_inv (wl_abs_of v)" "known (wl_abs_of v) = known (wl_abs_of w)"
        "v_type (views (wl_abs_of v) main_wake_lock) = v_type (views (wl_abs_of w) main_wake_lock)"
        using fr by (simp_all add: a_frame_def)
      have "main_wake_lock \<in> known (wl_abs_of w)" "v_type (views (wl_abs_of w) main_wake_lock) = 0"
        using wl_okD(2,3) [OF ok] by (auto simp: static_locks_def)
      then consider "main_wake_lock \<in> set (inact (wl_abs_of v))" | "main_wake_lock \<in> set (act (wl_abs_of v) 1)"
        using v(2) e0 unfolding known_def by auto
      then show ?thesis
      proof cases
        case 1 then show ?thesis using a_invD(5) [OF v(1)] by blast
      next
        case 2 then show ?thesis using a_invD(6) [OF v(1), of 1] v(3) \<open>v_type _ = 0\<close> by simp
      qed
    qed
    then show ?thesis using k w'(1) by simp
  qed
qed

lemma es_ok_kept:
  assumes ok: "es_ok s" and w: "wl_ok (w', e)" "kept (wl_abs_of (wl s)) (wl_abs_of w')"
    and ph: "mutex_free s" "phase s \<noteq> Suspend_Called" "e = None \<longrightarrow> ph = Idle" "\<forall>n. e = Some n \<longrightarrow> ph = In_Pm_Suspend n"
  shows "es_ok (s\<lparr>wl := w', phase := ph\<rparr>)"
proof -
  let ?r = "s\<lparr>wl := w', phase := ph\<rparr>"
  have p: "ph = Idle \<or> (\<exists>n. ph = In_Pm_Suspend n)" "worker_event ?r = e" using ph(3,4) by (cases e; simp add: worker_event_def)+
  have q: "phase s = Idle \<or> (\<exists>n. phase s = In_Pm_Suspend n)"
    using ph(1,2) unfolding mutex_free_def by (cases "phase s") auto
  have "es_locks ?r" using p(2) w es_okD(5) [OF ok] by (simp add: es_locks_def kept_def)
  moreover have "es_bits ?r"
    using es_okD(2) [OF ok] p(1) q w(2) unfolding es_bits_def bits_ok_def kept_def
    by (auto simp: main_active_def view_flag_iff)
  moreover have "es_handlers ?r" using es_okD(3) [OF ok] p(1) q unfolding es_handlers_def by auto
  ultimately show ?thesis by (simp add: es_ok_def)
qed

lemma es_ok_suspend:
  assumes ok: "es_ok s" and ph: "phase s = Idle" and q: "suspend_work_queue (wl s) = suspend_work # ws"
    and b: "suspend_begin (wl (set_works ws s)) = (e, w')"
  shows "es_ok (s\<lparr>wl := w', phase := (case e of None \<Rightarrow> Idle | Some n \<Rightarrow> In_Pm_Suspend n)\<rparr>)" 
    "e \<noteq> None \<Longrightarrow> \<not> main_active (s\<lparr>wl := w'\<rparr>)"
proof -
  let ?w = "(wl s)\<lparr>suspend_work_queue := ws\<rparr>"
  have wl: "wl_ok (wl s, None)" using es_okD(4) [OF ok] ph by (simp add: worker_event_def)
  have b': "suspend_begin ?w = (e, w')" using b by (simp add: set_works_def)
  have v: "views (wl_abs_of ?w) = views (wl_abs_of (wl s))" by (simp add: abs_works)
  have "wl_ok (?w, Some (current_event_num ?w))"
    using wl_okD(1-4) [OF wl] by (simp add: wl_ok_def abs_works wl_known_def)
  note K = suspend_kept(1) [OF this _ b', unfolded v, OF es_okD(5) [OF ok]]
  have "kept (wl_abs_of (wl s)) (wl_abs_of w')" using K v q by (auto simp: kept_def)
  then show "es_ok (s\<lparr>wl := w', phase := (case e of None \<Rightarrow> Idle | Some n \<Rightarrow> In_Pm_Suspend n)\<rparr>)"
    by (rule es_ok_kept [OF ok ok_suspend [OF wl b']]) (use ph in \<open>auto simp: mutex_free_def split: option.splits\<close>)
  show "e \<noteq> None \<Longrightarrow> \<not> main_active (s\<lparr>wl := w'\<rparr>)" using K by (simp add: main_active_def view_flag_iff)
qed

lemma es_ok_suspend_late:
  assumes ok: "es_ok s" and ph: "phase s = In_Pm_Suspend n" and b: "power_suspend_late (wl s) = (r, w')"
  shows "es_ok (s\<lparr>wl := w'\<rparr>)"
proof -
  have wl: "wl_ok (wl s, Some n)" using es_okD(4) [OF ok] ph by (simp add: worker_event_def)
  have "es_ok (s\<lparr>wl := w', phase := phase s\<rparr>)"
    by (rule es_ok_kept [OF ok ok_suspend_late [OF wl b] suspend_kept(2) [OF wl es_okD(5) [OF ok] b]])
      (use ph in \<open>auto simp: mutex_free_def\<close>)
  then show ?thesis by simp
qed

lemma es_ok_resume:
  assumes ok: "es_ok s" and ph: "phase s = In_Pm_Suspend n" and b: "suspend_end n (wl s) = Some w'"
  shows "es_ok (s\<lparr>wl := w', phase := Idle\<rparr>)"
proof -
  have wl: "wl_ok (wl s, Some n)" using es_okD(4) [OF ok] ph by (simp add: worker_event_def)
  have "kept (wl_abs_of (wl s)) (wl_abs_of w')"
  proof (cases "current_event_num (wl s) = n")
    case True
    then have "a_lock unknown_wakeup (Some (word_of_int (HZ div 2))) (wl_abs_of (wl s)) = Some (wl_abs_of w')"
      using b abs_wake_lock_internal [of unknown_wakeup "word_of_int (HZ div 2)" True "wl s"]
      by (simp add: suspend_end_def wake_lock_timeout_def)
    moreover have "unknown_wakeup \<in> known (wl_abs_of (wl s))" "unknown_wakeup \<noteq> main_wake_lock"
      using wl_okD(2) [OF wl] by (auto simp: static_locks_def main_wake_lock_def unknown_wakeup_def)
    ultimately show ?thesis using kept_lock [OF wl_okD(1) [OF wl] _ _ es_okD(5) [OF ok]] by blast
  next
    case False
    then show ?thesis using b by (simp add: suspend_end_def kept_def)
  qed
  then show ?thesis by (rule es_ok_kept [OF ok ok_resume [OF wl b]]) (use ph in \<open>auto simp: mutex_free_def\<close>)
qed

lemma es_ok_step:
  assumes "es_step s s'" "es_ok s"
  shows "es_ok s'"
  using assms(1)
proof cases
  case (es_env w') then show ?thesis using es_ok_env [OF assms(2)] by simp
next
  case (es_register h E) then show ?thesis using es_ok_register [OF assms(2)] by simp
next
  case (es_unregister h) then show ?thesis using es_ok_unregister [OF assms(2)] by simp
next
  case (es_request n) then show ?thesis using es_ok_request [OF assms(2), of n] by auto
next
  case (es_early ws) then show ?thesis using es_ok_early [OF assms(2)] by simp
next
  case (es_late ws) then show ?thesis using es_ok_late [OF assms(2)] by simp
next
  case es_handler then show ?thesis using es_ok_handler [OF assms(2)] by simp
next
  case es_end then show ?thesis using es_ok_end [OF assms(2)] by simp
next
  case (es_suspend ws e w') then show ?thesis using es_ok_suspend(1) [OF assms(2)] by simp
next
  case (es_suspend_late n r w') then show ?thesis using es_ok_suspend_late [OF assms(2)] by simp
next
  case (es_resume n w') then show ?thesis using es_ok_resume [OF assms(2)] by simp
qed

lemma es_reachable_ok: "es_reachable s \<Longrightarrow> es_ok s"
proof (induction rule: es_reachable.induct)
  case (er_init w0 w H)
  have "wl_ok (w, None)" "v_active (views (wl_abs_of w) main_wake_lock)" "\<not> v_auto (views (wl_abs_of w) main_wake_lock)"
    using wakelocks_init_ok [OF er_init(1)] er_init(3) by auto
  then show ?case
    by (simp add: es_ok_def es_locks_def es_bits_def bits_ok_def es_handlers_def main_active_def view_flag_iff worker_event_def)
next
  case (er_step s s')
  then show ?case by (blast intro: es_ok_step)
qed

section \<open>Properties\<close>

definition power_on :: power where
  "power_on = \<lparr>wl = booted, es_state = 0, early_suspend_handlers = [],
     handler = (\<lambda>_. \<lparr>level = 0, has_suspend = False, has_resume = False\<rparr>),
     requested_suspend_state = PM_SUSPEND_MEM, calls = [], phase = Idle\<rparr>"

lemma power_on_reachable: "es_reachable power_on"
  unfolding power_on_def by (rule er_init [OF _ _ booted_init]) (simp_all add: boot_state_def)

text \<open>\<open>main_wake_lock\<close> is not held only while sleep is requested, no handler is being called, and every
  registered handler with both callbacks was last told to suspend.\<close>

lemma early_suspend_safe:
  assumes "es_reachable s" "\<not> wake_lock_active (wl s) main_wake_lock"
  shows "es_state s = SUSPEND_REQUESTED_AND_SUSPENDED \<and> mutex_free s
    \<and> (\<forall>h\<in>set (early_suspend_handlers s). has_suspend (handler s h) \<and> has_resume (handler s h) \<longrightarrow> last_call (calls s) h)"
proof -
  note ok = es_reachable_ok [OF assms(1)]
  have b: "es_state s = 3" "mutex_free s"
    using es_okD(2) [OF ok] assms(2)
    by (auto simp: es_bits_def bits_ok_def main_active_def mutex_free_def split: phase.splits)
  then have "all_called s True (early_suspend_handlers s)"
    using es_okD(3) [OF ok] by (auto simp: es_handlers_def mutex_free_def split: phase.splits)
  then show ?thesis using b
    by (simp add: all_called_def hooks_def SUSPEND_REQUESTED_AND_SUSPENDED_def SUSPEND_REQUESTED_def SUSPENDED_def)
qed

text \<open>A run: a handler is registered, sleep is requested, and the early suspend work runs.\<close>

definition asleep :: power where
  "asleep =
    (let s1 = register_early_suspend 7 (power_on\<lparr>handler := (handler power_on)(7 := \<lparr>level = 50, has_suspend = True, has_resume = True\<rparr>)\<rparr>);
         s2 = the (request_suspend_state PM_SUSPEND_MEM s1);
         s3 = early_suspend_begin (set_works [] s2)
     in early_suspend_end (handler_step (handler_step s3)))"

lemma asleep_reachable: "es_reachable asleep"
proof -
  let ?s1 = "register_early_suspend 7 (power_on\<lparr>handler := (handler power_on)(7 := \<lparr>level = 50, has_suspend = True, has_resume = True\<rparr>)\<rparr>)"
  have 1: "es_reachable ?s1"
    by (rule er_step [OF power_on_reachable es_register]) (simp_all add: power_on_def mutex_free_def)
  obtain s2 where s2: "request_suspend_state PM_SUSPEND_MEM ?s1 = Some s2"
    using es_ok_request [OF es_reachable_ok [OF 1]] by blast
  then have 2: "es_reachable s2" by (rule er_step [OF 1 es_request])
  have p: "phase (the (request_suspend_state PM_SUSPEND_MEM ?s1)) = Idle"
    "suspend_work_queue (wl (the (request_suspend_state PM_SUSPEND_MEM ?s1))) = [early_suspend_work]"
    "phase (early_suspend_begin (set_works [] (the (request_suspend_state PM_SUSPEND_MEM ?s1)))) = Calling_Suspend [7]"
    by code_simp+
  let ?s3 = "early_suspend_begin (set_works [] s2)"
  have 3: "es_reachable ?s3" by (rule er_step [OF 2 es_early]) (use p s2 in simp_all)
  have ph: "phase ?s3 = Calling_Suspend [7]" using p s2 by simp
  have 4: "es_reachable (handler_step ?s3)" by (rule er_step [OF 3 es_handler]) (simp add: mutex_free_def ph)
  have ph4: "phase (handler_step ?s3) = Calling_Suspend []" by (simp add: handler_step_def ph)
  have 5: "es_reachable (handler_step (handler_step ?s3))"
    by (rule er_step [OF 4 es_handler]) (simp add: mutex_free_def ph4)
  have "phase (handler_step (handler_step ?s3)) = Suspend_Called" unfolding handler_step_def [of "handler_step ?s3"] by (simp add: ph4)
  then show ?thesis using er_step [OF 5 es_end] by (simp add: asleep_def Let_def s2)
qed





lemma call_all_suspend:
  "call_all call_suspend hs s = s\<lparr>calls := calls s @ map (\<lambda>h. (h, True)) (filter (\<lambda>h. has_suspend (handler s h)) hs)\<rparr>"
  by (induction hs arbitrary: s) (simp_all add: call_suspend_def)

lemma call_all_resume:
  "call_all call_resume hs s = s\<lparr>calls := calls s @ map (\<lambda>h. (h, False)) (filter (\<lambda>h. has_resume (handler s h)) hs)\<rparr>"
  by (induction hs arbitrary: s) (simp_all add: call_resume_def)

text \<open>The early suspend work calls the suspend callbacks of all registered handlers in the order of
  their levels, low to high, each once; the late resume work calls the resume callbacks in the opposite order.  Each
  does so only in the state that asks for it, and otherwise calls nothing.\<close>

theorem handlers_in_level_order:
  assumes "es_reachable s" "mutex_free s"
  shows "sorted (map (\<lambda>h. level (handler s h)) (early_suspend_handlers s)) \<and> distinct (early_suspend_handlers s)
    \<and> calls (early_suspend s) = calls s @ (if es_state s = SUSPEND_REQUESTED
          then map (\<lambda>h. (h, True)) (filter (\<lambda>h. has_suspend (handler s h)) (early_suspend_handlers s)) else [])
    \<and> calls (late_resume s) = calls s @ (if es_state s = SUSPENDED
          then map (\<lambda>h. (h, False)) (filter (\<lambda>h. has_resume (handler s h)) (rev (early_suspend_handlers s))) else [])"
proof -
  have e: "calls (early_suspend_end x) = calls x" for x by (simp add: early_suspend_end_def Let_def)
  have "sorted (map (\<lambda>h. level (handler s h)) (early_suspend_handlers s))" "distinct (early_suspend_handlers s)"
    using es_okD(3) [OF es_reachable_ok [OF assms(1)]] by (auto simp: es_handlers_def)
  moreover have "calls (early_suspend s) = calls s @ (if es_state s = SUSPEND_REQUESTED
          then map (\<lambda>h. (h, True)) (filter (\<lambda>h. has_suspend (handler s h)) (early_suspend_handlers s)) else [])"
    by (simp add: early_suspend_def Let_def early_suspend_begin_def e call_all_suspend)
  moreover have "calls (late_resume s) = calls s @ (if es_state s = SUSPENDED
          then map (\<lambda>h. (h, False)) (filter (\<lambda>h. has_resume (handler s h)) (rev (early_suspend_handlers s))) else [])"
    using assms(2) by (auto simp: late_resume_def Let_def late_resume_begin_def call_all_resume mutex_free_def split: phase.splits)
  ultimately show ?thesis by blast
qed

theorem handlers_in_level_order_witness: "calls (late_resume asleep) = calls asleep"
proof -
  have "mutex_free asleep" "es_state asleep \<noteq> SUSPENDED" by code_simp+
  then show ?thesis using handlers_in_level_order [OF asleep_reachable] by auto
qed

end
