(* ===== verification/Suspend_Core.thy ===== *)
theory Suspend_Core
  imports Dpm Early_Suspend
begin

text \<open>
  System suspend, \<open>kernel/power/suspend.c\<close>: the sequence of steps from \<open>pm_suspend\<close> to the platform's
  \<open>enter\<close> and back, with the exits for every failure.  The state says for each step whether it is undone: the
  notifiers, the user mode helpers (\<open>kernel/kmod.c\<close>), the freezer, the console, the devices, interrupts, system devices, and
  the lock of the processor at its highest frequency (\<open>arch/arm/plat-s5p64xx/s5p6442-dvfs-perf.c\<close>).

  The environment gives the results of what the core calls: the drivers' and the platform's callbacks, the
  notifiers, the freezer, the wait for running helpers and the system devices.  \<open>plat_log\<close>
  records the calls of the platform with their results.  The device has one processor, and the
  test levels are not configured.  \<open>None\<close> is a transition that never ends, because a device asks to be prepared
  again for ever.
\<close>

section \<open>The model\<close>

datatype plat_op = P_begin | P_prepare | P_prepare_late | P_enter | P_wake | P_finish | P_end | P_recover

record platform_suspend_ops =
  has_valid :: bool
  has_begin :: bool
  has_prepare :: bool
  has_prepare_late :: bool
  has_enter :: bool
  has_wake :: bool
  has_finish :: bool
  has_end :: bool
  has_recover :: bool

record dvfs =
  set_max_freq_flag :: bool
  cpufreq_level :: nat
  dvfs_change_quick :: bool
  dvfs_level_count :: nat
  maxfreqlevel :: nat
  maxfreqlevel_onlycpu :: nat

record pm_core =
  dpm_part :: dpm
  dvfs_part :: dvfs
  suspend_ops :: "platform_suspend_ops option"
  pm_mutex :: bool
  console_prepared :: bool
  notified :: bool
  usermodehelper_disabled :: bool
  tasks_frozen :: bool
  console_suspended :: bool
  irqs_off :: bool
  sysdevs_suspended :: bool
  plat_log :: "(plat_op \<times> errno option) list"

record pm_env =
  env_dev :: dev_env
  env_plat :: "plat_op \<Rightarrow> errno option"
  env_valid :: "nat \<Rightarrow> bool"
  env_notifier :: "errno option"
  env_helpers_done :: bool
  env_freeze :: "errno option"
  env_sysdev :: "errno option"

definition plat_call :: "pm_env \<Rightarrow> plat_op \<Rightarrow> pm_core \<Rightarrow> errno option \<times> pm_core" where
  "plat_call env op s = (env_plat env op, s\<lparr>plat_log := plat_log s @ [(op, env_plat env op)]\<rparr>)"

text \<open>A callback of the platform, if it has it.\<close>

definition plat_opt :: "(platform_suspend_ops \<Rightarrow> bool) \<Rightarrow> pm_env \<Rightarrow> plat_op \<Rightarrow> pm_core \<Rightarrow> errno option \<times> pm_core" where
  "plat_opt has env op s =
     (case suspend_ops s of Some ops \<Rightarrow> if has ops then plat_call env op s else (None, s) | None \<Rightarrow> (None, s))"

definition suspend_set_ops :: "platform_suspend_ops option \<Rightarrow> pm_core \<Rightarrow> pm_core" where
  "suspend_set_ops ops s = s\<lparr>suspend_ops := ops\<rparr>"

definition valid_state :: "pm_env \<Rightarrow> nat \<Rightarrow> pm_core \<Rightarrow> bool" where
  "valid_state env state s = (case suspend_ops s of None \<Rightarrow> False | Some ops \<Rightarrow> has_valid ops \<and> env_valid env state)"

definition suspend_valid_only_mem :: "nat \<Rightarrow> bool" where
  "suspend_valid_only_mem state = (state = PM_SUSPEND_MEM)"

definition dvfs_set_max_freq_lock :: "dvfs \<Rightarrow> dvfs" where
  "dvfs_set_max_freq_lock v = v\<lparr>set_max_freq_flag := True, cpufreq_level := 0, dvfs_change_quick := True\<rparr>"

definition dvfs_set_max_freq_unlock :: "dvfs \<Rightarrow> dvfs" where
  "dvfs_set_max_freq_unlock v = v\<lparr>set_max_freq_flag := False,
     cpufreq_level := (if dvfs_level_count v > 0 then maxfreqlevel_onlycpu v else maxfreqlevel v)\<rparr>"

definition usermodehelper_disable :: "pm_env \<Rightarrow> pm_core \<Rightarrow> errno option \<times> pm_core" where
  "usermodehelper_disable env s =
     (let s1 = s\<lparr>usermodehelper_disabled := True\<rparr>
      in if env_helpers_done env then (None, s1) else (Some EAGAIN, s1\<lparr>usermodehelper_disabled := False\<rparr>))"

definition usermodehelper_enable :: "pm_core \<Rightarrow> pm_core" where
  "usermodehelper_enable s = s\<lparr>usermodehelper_disabled := False\<rparr>"

text \<open>The exit \<open>Finish\<close> of \<open>suspend_prepare\<close>.\<close>

definition prepare_finish :: "pm_core \<Rightarrow> pm_core" where
  "prepare_finish s = s\<lparr>notified := False, console_prepared := False\<rparr>"

definition suspend_prepare :: "pm_env \<Rightarrow> pm_core \<Rightarrow> errno option \<times> pm_core" where
  "suspend_prepare env s =
     (case suspend_ops s of
        None \<Rightarrow> (Some EPERM, s)
      | Some ops \<Rightarrow>
          if \<not> has_enter ops then (Some EPERM, s)
          else
           (let s1 = s\<lparr>console_prepared := True, notified := True\<rparr> in
            case env_notifier env of
              Some e \<Rightarrow> (Some e, prepare_finish s1)
            | None \<Rightarrow>
                (case usermodehelper_disable env s1 of
                   (Some e, s2) \<Rightarrow> (Some e, prepare_finish s2)
                 | (None, s2) \<Rightarrow>
                     (let s3 = s2\<lparr>tasks_frozen := True\<rparr> in
                      case env_freeze env of
                        None \<Rightarrow> (None, s3)
                      | Some e \<Rightarrow> (Some e, prepare_finish (usermodehelper_enable (s3\<lparr>tasks_frozen := False\<rparr>)))))))"

text \<open>The exits of \<open>suspend_enter\<close>, the last first.\<close>

definition platform_finish :: "pm_env \<Rightarrow> pm_core \<Rightarrow> pm_core" where
  "platform_finish env s = snd (plat_opt has_finish env P_finish s)"

definition power_up_devices :: "pm_env \<Rightarrow> pm_core \<Rightarrow> pm_core" where
  "power_up_devices env s = platform_finish env (s\<lparr>dpm_part := dpm_resume_noirq (env_dev env) PM_EVENT_RESUME (dpm_part s)\<rparr>)"

definition platform_wake :: "pm_env \<Rightarrow> pm_core \<Rightarrow> pm_core" where
  "platform_wake env s = power_up_devices env (snd (plat_opt has_wake env P_wake s))"

definition suspend_enter :: "pm_env \<Rightarrow> pm_core \<Rightarrow> errno option \<times> pm_core" where
  "suspend_enter env s =
     (let s0 = s\<lparr>dvfs_part := dvfs_set_max_freq_lock (dvfs_part s)\<rparr> in
      case plat_opt has_prepare env P_prepare s0 of
        (Some e, s1) \<Rightarrow> (Some e, s1)
      | (None, s1) \<Rightarrow>
          (case dpm_suspend_noirq (env_dev env) PM_EVENT_SUSPEND (dpm_part s1) of
             (Some e, d) \<Rightarrow> (Some e, platform_finish env (s1\<lparr>dpm_part := d\<rparr>))
           | (None, d) \<Rightarrow>
               (case plat_opt has_prepare_late env P_prepare_late (s1\<lparr>dpm_part := d\<rparr>) of
                  (Some e, s3) \<Rightarrow> (Some e, power_up_devices env s3)
                | (None, s3) \<Rightarrow>
                    (let s4 = s3\<lparr>irqs_off := True\<rparr>;
                         (error, s6) = (case env_sysdev env of
                             Some e \<Rightarrow> (Some e, s4)
                           | None \<Rightarrow> (let (e, s5) = plat_call env P_enter (s4\<lparr>sysdevs_suspended := True\<rparr>)
                                      in (e, s5\<lparr>sysdevs_suspended := False\<rparr>)));
                         s7 = s6\<lparr>irqs_off := False, dvfs_part := dvfs_set_max_freq_unlock (dvfs_part s6)\<rparr>
                     in (error, platform_wake env s7)))))"

text \<open>The exits of \<open>suspend_devices_and_enter\<close>.\<close>

definition suspend_close :: "pm_env \<Rightarrow> pm_core \<Rightarrow> pm_core" where
  "suspend_close env s = snd (plat_opt has_end env P_end s)"

definition resume_devices :: "pm_env \<Rightarrow> pm_core \<Rightarrow> pm_core" where
  "resume_devices env s =
     suspend_close env (s\<lparr>dpm_part := dpm_resume_end (env_dev env) PM_EVENT_RESUME (dpm_part s), console_suspended := False\<rparr>)"

definition suspend_devices_and_enter :: "pm_env \<Rightarrow> pm_core \<Rightarrow> (errno option \<times> pm_core) option" where
  "suspend_devices_and_enter env s =
     (if suspend_ops s = None then Some (Some ENOSYS, s)
      else case plat_opt has_begin env P_begin s of
        (Some e, s1) \<Rightarrow> Some (Some e, suspend_close env s1)
      | (None, s1) \<Rightarrow>
          (let s2 = s1\<lparr>console_suspended := True\<rparr> in
           case dpm_suspend_start (env_dev env) PM_EVENT_SUSPEND (dpm_part s2) of
             None \<Rightarrow> None
           | Some (Some e, d) \<Rightarrow> Some (Some e, resume_devices env (snd (plat_opt has_recover env P_recover (s2\<lparr>dpm_part := d\<rparr>))))
           | Some (None, d) \<Rightarrow> Some (None, resume_devices env (snd (suspend_enter env (s2\<lparr>dpm_part := d\<rparr>))))))"

definition suspend_finish :: "pm_core \<Rightarrow> pm_core" where
  "suspend_finish s = prepare_finish (usermodehelper_enable (s\<lparr>tasks_frozen := False\<rparr>))"

definition enter_state :: "pm_env \<Rightarrow> nat \<Rightarrow> pm_core \<Rightarrow> (errno option \<times> pm_core) option" where
  "enter_state env state s =
     (if \<not> valid_state env state s then Some (Some ENODEV, s)
      else if pm_mutex s then Some (Some EBUSY, s)
      else
       (case suspend_prepare env (s\<lparr>pm_mutex := True\<rparr>) of
          (Some e, s1) \<Rightarrow> Some (Some e, s1\<lparr>pm_mutex := False\<rparr>)
        | (None, s1) \<Rightarrow>
            map_option (\<lambda>(e, s2). (e, (suspend_finish s2)\<lparr>pm_mutex := False\<rparr>)) (suspend_devices_and_enter env s1)))"

definition pm_suspend :: "pm_env \<Rightarrow> nat \<Rightarrow> pm_core \<Rightarrow> (errno option \<times> pm_core) option" where
  "pm_suspend env state s =
     (if state > PM_SUSPEND_ON \<and> state \<le> PM_SUSPEND_MAX then enter_state env state s else Some (Some EINVAL, s))"

section \<open>Every step is undone\<close>

definition flags_of :: "pm_core \<Rightarrow> bool list \<times> platform_suspend_ops option" where
  "flags_of s = ([pm_mutex s, console_prepared s, notified s, usermodehelper_disabled s, tasks_frozen s,
     console_suspended s, irqs_off s, sysdevs_suspended s], suspend_ops s)"

lemma plat_opt_same:
  assumes "plat_opt has env op s = (e, t)"
  shows "flags_of t = flags_of s" "dpm_part t = dpm_part s" "dvfs_part t = dvfs_part s"
  using assms by (auto simp: plat_opt_def plat_call_def flags_of_def split: option.splits if_splits)

lemma platform_finish_same [simp]:
  "flags_of (platform_finish env s) = flags_of s" "dpm_part (platform_finish env s) = dpm_part s"
  "dvfs_part (platform_finish env s) = dvfs_part s"
  using plat_opt_same [of has_finish env P_finish s] by (auto simp: platform_finish_def) (metis prod.collapse)+

lemma suspend_close_same [simp]:
  "flags_of (suspend_close env s) = flags_of s" "dpm_part (suspend_close env s) = dpm_part s"
  "dvfs_part (suspend_close env s) = dvfs_part s"
  using plat_opt_same [of has_end env P_end s] by (auto simp: suspend_close_def) (metis prod.collapse)+

lemma flags_upd [simp]:
  "flags_of (s\<lparr>dpm_part := d\<rparr>) = flags_of s" "flags_of (s\<lparr>dvfs_part := v\<rparr>) = flags_of s"
  by (simp_all add: flags_of_def)

lemma power_up_same [simp]:
  "flags_of (power_up_devices env s) = flags_of s" "dvfs_part (power_up_devices env s) = dvfs_part s"
  "dpm_part (power_up_devices env s) = dpm_resume_noirq (env_dev env) PM_EVENT_RESUME (dpm_part s)"
  by (simp_all add: power_up_devices_def)

lemma platform_wake_same [simp]:
  "flags_of (platform_wake env s) = flags_of s" "dvfs_part (platform_wake env s) = dvfs_part s"
  "dpm_part (platform_wake env s) = dpm_resume_noirq (env_dev env) PM_EVENT_RESUME (dpm_part s)"
  using plat_opt_same [of has_wake env P_wake s] by (auto simp: platform_wake_def) (metis prod.collapse)+

text \<open>The outcomes of \<open>suspend_enter\<close>: it fails in the platform's \<open>prepare\<close>, in the noirq phase, in
  \<open>prepare_late\<close>, or goes through to the end.\<close>

lemma suspend_enter_cases:
  assumes "suspend_enter env s = (err, t)"
  obtains
    (prepare) e where "err = Some e" "flags_of t = flags_of s" "dpm_part t = dpm_part s" "set_max_freq_flag (dvfs_part t)"
  | (noirq) e where "dpm_suspend_noirq (env_dev env) PM_EVENT_SUSPEND (dpm_part s) = (Some e, dpm_part t)" "err = Some e"
      "flags_of t = flags_of s" "set_max_freq_flag (dvfs_part t)"
  | (late) e d where "dpm_suspend_noirq (env_dev env) PM_EVENT_SUSPEND (dpm_part s) = (None, d)" "err = Some e"
      "dpm_part t = dpm_resume_noirq (env_dev env) PM_EVENT_RESUME d" "flags_of t = flags_of s" "set_max_freq_flag (dvfs_part t)"
  | (through) d where "dpm_suspend_noirq (env_dev env) PM_EVENT_SUSPEND (dpm_part s) = (None, d)"
      "err = (if env_sysdev env = None then env_plat env P_enter else env_sysdev env)"
      "dpm_part t = dpm_resume_noirq (env_dev env) PM_EVENT_RESUME d" "\<not> set_max_freq_flag (dvfs_part t)"
      "flags_of t = flags_of s \<or> (irqs_off s \<or> sysdevs_suspended s)"
proof -
  let ?s0 = "s\<lparr>dvfs_part := dvfs_set_max_freq_lock (dvfs_part s)\<rparr>"
  obtain e1 s1 where p: "plat_opt has_prepare env P_prepare ?s0 = (e1, s1)" by fastforce
  note S1 = plat_opt_same [OF p]
  have f: "set_max_freq_flag (dvfs_part s1)" using S1(3) by (simp add: dvfs_set_max_freq_lock_def)
  obtain e2 d where n: "dpm_suspend_noirq (env_dev env) PM_EVENT_SUSPEND (dpm_part s1) = (e2, d)" by fastforce
  have dp: "dpm_part s1 = dpm_part s" using S1(2) by simp
  obtain e3 s3 where l: "plat_opt has_prepare_late env P_prepare_late (s1\<lparr>dpm_part := d\<rparr>) = (e3, s3)" by fastforce
  note S3 = plat_opt_same [OF l]
  show ?thesis
  proof (cases e1)
    case (Some e)
    then have "err = Some e" "t = s1" using assms p by (simp_all add: suspend_enter_def)
    then show ?thesis using S1 f by (intro prepare) simp_all
  next
    case None
    note e1 = this
    show ?thesis
    proof (cases e2)
      case (Some e)
      then have "err = Some e" "t = platform_finish env (s1\<lparr>dpm_part := d\<rparr>)" using assms p n e1 by (simp_all add: suspend_enter_def)
      then show ?thesis using S1 f n Some by (intro noirq) simp_all
    next
      case None
      note e2 = this
      show ?thesis
      proof (cases e3)
        case (Some e)
        then have "err = Some e" "t = power_up_devices env s3" using assms p n l e1 e2 by (simp_all add: suspend_enter_def)
        then show ?thesis using S1 S3 f n e2 by (intro late) simp_all
      next
        case None
        let ?c = "case env_sysdev env of Some e \<Rightarrow> (Some e, s3\<lparr>irqs_off := True\<rparr>)
           | None \<Rightarrow> (let (e, s5) = plat_call env P_enter (s3\<lparr>irqs_off := True, sysdevs_suspended := True\<rparr>)
                      in (e, s5\<lparr>sysdevs_suspended := False\<rparr>))"
        obtain e6 s6 where s6: "?c = (e6, s6)" by fastforce
        let ?s7 = "s6\<lparr>irqs_off := False, dvfs_part := dvfs_set_max_freq_unlock (dvfs_part s6)\<rparr>"
        have "(e6, platform_wake env ?s7) = (err, t)"
          using assms by (simp only: suspend_enter_def Let_def p e1 n e2 l None s6 [unfolded Let_def] option.case prod.case)
        then have r: "err = e6" "t = platform_wake env ?s7" by simp_all
        have e6: "e6 = (if env_sysdev env = None then env_plat env P_enter else env_sysdev env)"
          and v6: "dpm_part s6 = dpm_part s3"
          and f6: "irqs_off s3 \<or> sysdevs_suspended s3 \<or> flags_of (s6\<lparr>irqs_off := False\<rparr>) = flags_of s3"
          using s6 by (cases "env_sysdev env"; auto simp: plat_call_def flags_of_def)+
        have s3: "flags_of s3 = flags_of s" "dpm_part s3 = d" using S1 S3 by simp_all
        then have "flags_of ?s7 = flags_of s \<or> (irqs_off s \<or> sysdevs_suspended s)" using f6 by (auto simp: flags_of_def)
        moreover have "dpm_part ?s7 = d" "\<not> set_max_freq_flag (dvfs_part ?s7)"
          using s3(2) v6 by (simp_all add: dvfs_set_max_freq_unlock_def)
        ultimately have "dpm_part t = dpm_resume_noirq (env_dev env) PM_EVENT_RESUME d" "\<not> set_max_freq_flag (dvfs_part t)"
          "err = (if env_sysdev env = None then env_plat env P_enter else env_sysdev env)"
          "flags_of t = flags_of s \<or> (irqs_off s \<or> sysdevs_suspended s)"
          using r e6 by simp_all
        then show ?thesis using n e2 dp by (intro through) simp_all
      qed
    qed
  qed
qed

definition devices_on :: "dpm \<Rightarrow> bool" where
  "devices_on d \<longleftrightarrow> distinct (dpm_list d) \<and> (\<forall>k\<in>set (dpm_list d). dev_status d k = DPM_ON) \<and> \<not> irqs_suspended d"

text \<open>The devices are as before, and what was done to them was undone.\<close>

definition devices_back :: "dpm \<Rightarrow> dpm \<Rightarrow> bool" where
  "devices_back d d' \<longleftrightarrow> dpm_list d' = dpm_list d \<and> dev_status d' = dev_status d \<and> device d' = device d
     \<and> irqs_suspended d' = irqs_suspended d \<and> (\<exists>u. dev_trace d' = dev_trace d @ u \<and> balanced u)"

lemma devices_back_refl: "devices_back d d"
  by (simp add: devices_back_def balanced_def)

lemma devices_back_cycle:
  assumes "dpm_suspend_start env ev d = Some (err, d1)" "devices_on d" "noirq_mid d1 d2"
  shows "devices_back d (dpm_resume_end env' ev' d2)"
  using dpm_cycle [OF assms(1) _ _ assms(3), of env' ev'] assms(2) by (simp add: devices_on_def devices_back_def)

lemma suspend_enter_mid:
  assumes "distinct (dpm_list (dpm_part s))" "\<forall>d\<in>set (dpm_list (dpm_part s)). dev_status (dpm_part s) d = DPM_OFF"
    "\<not> irqs_suspended (dpm_part s)" "\<not> irqs_off s" "\<not> sysdevs_suspended s"
  shows "noirq_mid (dpm_part s) (dpm_part (snd (suspend_enter env s))) \<and> flags_of (snd (suspend_enter env s)) = flags_of s"
proof -
  obtain err t where e: "suspend_enter env s = (err, t)" by fastforce
  note C = noirq_cycle [OF _ assms(1,2,3), where env' = "env_dev env" and ev' = PM_EVENT_RESUME]
  from e have "noirq_mid (dpm_part s) (dpm_part t) \<and> flags_of t = flags_of s"
  proof (cases rule: suspend_enter_cases)
    case (prepare e) then show ?thesis by (simp add: noirq_mid_refl)
  next
    case (noirq e) then show ?thesis using C [OF noirq(1)] by simp
  next
    case (late e d) then show ?thesis using C [OF late(1)] by simp
  next
    case (through d) then show ?thesis using C [OF through(1)] assms(4,5) by simp
  qed
  then show ?thesis by (simp add: e)
qed

lemma resume_devices_same:
  "dpm_part (resume_devices env s) = dpm_resume_end (env_dev env) PM_EVENT_RESUME (dpm_part s)"
  "dvfs_part (resume_devices env s) = dvfs_part s"
  "flags_of (resume_devices env s) = flags_of (s\<lparr>console_suspended := False\<rparr>)"
proof -
  show "flags_of (resume_devices env s) = flags_of (s\<lparr>console_suspended := False\<rparr>)"
    unfolding resume_devices_def suspend_close_same by (simp add: flags_of_def)
qed (simp_all add: resume_devices_def)

lemma devices_and_enter_back:
  assumes r: "suspend_devices_and_enter env s = Some (err, t)" and on: "devices_on (dpm_part s)"
    and q: "\<not> console_suspended s" "\<not> irqs_off s" "\<not> sysdevs_suspended s"
  shows "flags_of t = flags_of s \<and> devices_back (dpm_part s) (dpm_part t)"
proof (cases "suspend_ops s = None")
  case True
  then show ?thesis using r by (simp add: suspend_devices_and_enter_def devices_back_refl)
next
  case ops: False
  obtain e1 s1 where b: "plat_opt has_begin env P_begin s = (e1, s1)" by fastforce
  note S1 = plat_opt_same [OF b]
  let ?s2 = "s1\<lparr>console_suspended := True\<rparr>"
  show ?thesis
  proof (cases e1)
    case (Some e)
    then have "t = suspend_close env s1" using r b ops by (simp add: suspend_devices_and_enter_def)
    then show ?thesis using S1 by (simp add: devices_back_refl)
  next
    case None
    obtain e2 d where p: "dpm_suspend_start (env_dev env) PM_EVENT_SUSPEND (dpm_part s) = Some (e2, d)"
      using r b ops None S1(2) by (auto simp: suspend_devices_and_enter_def Let_def split: option.splits)
    let ?s3 = "?s2\<lparr>dpm_part := d\<rparr>"
    let ?s4 = "if e2 = None then snd (suspend_enter env ?s3) else snd (plat_opt has_recover env P_recover ?s3)"
    have t: "t = resume_devices env ?s4"
      using r b ops None S1(2) p by (cases e2) (auto simp: suspend_devices_and_enter_def Let_def)
    have irq: "\<not> irqs_suspended d" "distinct (dpm_list d)"
      using dpm_suspend_start_spec [OF p] on unfolding devices_on_def by auto
    have mid: "noirq_mid d (dpm_part ?s4) \<and> flags_of ?s4 = flags_of ?s3"
    proof (cases e2)
      case None
      have "\<forall>k\<in>set (dpm_list d). dev_status d k = DPM_OFF"
        using dpm_suspend_start_spec [OF p] on None unfolding devices_on_def by auto
      then show ?thesis using suspend_enter_mid [of ?s3 env] irq None S1(1) q by (simp add: flags_of_def)
    next
      case (Some e)
      obtain e' s' where "plat_opt has_recover env P_recover ?s3 = (e', s')" by fastforce
      then show ?thesis using plat_opt_same [of has_recover env P_recover ?s3 e' s'] Some by (simp add: noirq_mid_refl)
    qed
    have "devices_back (dpm_part s) (dpm_part t)"
      unfolding t resume_devices_same by (rule devices_back_cycle [OF p on]) (use mid in blast)
    moreover have "flags_of t = flags_of s"
      using mid S1(1) q unfolding t resume_devices_same by (simp add: flags_of_def)
    ultimately show ?thesis by blast
  qed
qed

definition pm_quiet :: "pm_core \<Rightarrow> bool" where
  "pm_quiet s \<longleftrightarrow> flags_of s = (replicate 8 False, suspend_ops s) \<and> devices_on (dpm_part s)"

lemma pm_quietD:
  assumes "pm_quiet s"
  shows "\<not> pm_mutex s" "\<not> console_prepared s" "\<not> notified s" "\<not> usermodehelper_disabled s" "\<not> tasks_frozen s"
    "\<not> console_suspended s" "\<not> irqs_off s" "\<not> sysdevs_suspended s" "devices_on (dpm_part s)"
  using assms by (auto simp: pm_quiet_def flags_of_def eval_nat_numeral)

lemma suspend_prepare_ok:
  assumes "suspend_prepare env s = (None, t)"
  shows "t = s\<lparr>console_prepared := True, notified := True, usermodehelper_disabled := True, tasks_frozen := True\<rparr>"
  using assms by (auto simp: suspend_prepare_def usermodehelper_disable_def Let_def split: option.splits if_splits)

lemma suspend_prepare_fail:
  assumes "suspend_prepare env s = (Some e, t)" "\<not> console_prepared s" "\<not> notified s" "\<not> usermodehelper_disabled s" "\<not> tasks_frozen s"
  shows "t = s"
  using assms
  by (auto simp: suspend_prepare_def usermodehelper_disable_def usermodehelper_enable_def prepare_finish_def Let_def
      split: option.splits if_splits)

lemma devices_back_on: "devices_back d d' \<Longrightarrow> devices_on d \<Longrightarrow> devices_on d'"
  by (simp add: devices_back_def devices_on_def)

lemma enter_state_back:
  assumes r: "enter_state env state s = Some (err, t)" and q: "pm_quiet s"
  shows "flags_of t = flags_of s \<and> devices_back (dpm_part s) (dpm_part t)"
proof -
  note Q = pm_quietD [OF q]
  consider (same) "t = s" | (fail) e s1 where "suspend_prepare env (s\<lparr>pm_mutex := True\<rparr>) = (Some e, s1)" "t = s1\<lparr>pm_mutex := False\<rparr>"
    | (run) s1 e s2 where "suspend_prepare env (s\<lparr>pm_mutex := True\<rparr>) = (None, s1)" "suspend_devices_and_enter env s1 = Some (e, s2)"
        "t = (suspend_finish s2)\<lparr>pm_mutex := False\<rparr>"
    using r by (auto simp: enter_state_def split: if_splits prod.splits option.splits)
  then show ?thesis
  proof cases
    case same then show ?thesis by (simp add: devices_back_refl)
  next
    case fail
    have "s1 = s\<lparr>pm_mutex := True\<rparr>" by (rule suspend_prepare_fail [OF fail(1)]) (use Q in simp_all)
    then have "t = s\<lparr>pm_mutex := pm_mutex s\<rparr>" using fail(2) Q(1) by simp
    then show ?thesis by (simp add: devices_back_refl)
  next
    case run
    note s1 = suspend_prepare_ok [OF run(1)]
    have "flags_of s2 = flags_of s1 \<and> devices_back (dpm_part s1) (dpm_part s2)"
      by (rule devices_and_enter_back [OF run(2)]) (use Q s1 in simp_all)
    then show ?thesis using Q s1 run(3)
      by (simp add: flags_of_def suspend_finish_def prepare_finish_def usermodehelper_enable_def)
  qed
qed

lemma pm_suspend_back:
  assumes "pm_suspend env state s = Some (err, t)" "pm_quiet s"
  shows "flags_of t = flags_of s" "devices_back (dpm_part s) (dpm_part t)"
  using assms enter_state_back by (auto simp: pm_suspend_def devices_back_refl split: if_splits)

subsection \<open>A device that refuses\<close>

text \<open>If the bus callback of a device fails the noirq phase whenever it is called, the noirq phase fails.\<close>

lemma noirq_loop_refused:
  assumes "dpm_suspend_noirq_loop env PM_EVENT_SUSPEND ds s = (err, t)" "p \<in> set ds"
    and "dev_bus (device s p) = Some b" "layer_pm b = Some ops" "op_suspend_noirq ops" "\<forall>n. env n p Bus Suspend_noirq \<noteq> None"
  shows "err \<noteq> None"
  using assms
proof (induction ds arbitrary: s)
  case (Cons d ds)
  obtain e s1 where r: "device_suspend_noirq env d PM_EVENT_SUSPEND s = (e, s1)" by fastforce
  have op: "device s1 = device s" using one_op(4) [of d s env PM_EVENT_SUSPEND] r one_opD(3) by metis
  show ?case
  proof (cases e)
    case (Some a)
    then show ?thesis using Cons.prems(1) r by auto
  next
    case None
    have "d \<noteq> p"
      using None r Cons.prems(3-5) Cons.prems(6) [rule_format, of "length (callbacks s)"]
      by (auto simp: device_suspend_noirq_def done_op_def bus_noirq_def pm_noirq_op_def call_op_def split: prod.splits)
    then show ?thesis using Cons.IH [of "set_status d DPM_OFF_IRQ s1"] Cons.prems r None op by simp
  qed
qed simp

lemma noirq_refused:
  assumes "p \<in> set (dpm_list d)" "dev_bus (device d p) = Some b" "layer_pm b = Some ops" "op_suspend_noirq ops"
    "\<forall>n. env n p Bus Suspend_noirq \<noteq> None"
  shows "fst (dpm_suspend_noirq env PM_EVENT_SUSPEND d) \<noteq> None"
proof -
  obtain err t where r: "dpm_suspend_noirq_loop env PM_EVENT_SUSPEND (rev (dpm_list d)) (d\<lparr>irqs_suspended := True\<rparr>) = (err, t)" by fastforce
  have "err \<noteq> None" by (rule noirq_loop_refused [OF r]) (use assms in simp_all)
  then show ?thesis by (simp add: dpm_suspend_noirq_def r)
qed

text \<open>The callback of the \<open>power\<close> device fails while a suspend lock is held.\<close>

lemma suspend_late_held:
  assumes inv: "a_inv (wl_abs_of w)" and l: "l \<in> set (active_wake_locks w 0)"
    "flags (locks w l) AND WAKE_LOCK_AUTO_EXPIRE = 0 \<or> 0 < time_left w l"
  shows "fst (power_suspend_late w) = Inl EAGAIN"
  using l has_result_zero [of w] suspend_result(2) [OF inv] by (force simp: permanent_def wl_flag_bits)

definition power_device_env :: "addr \<Rightarrow> wakelocks \<Rightarrow> dev_env \<Rightarrow> dev_env" where
  "power_device_env p w env = (\<lambda>n d k op.
     if d = p \<and> k = Bus \<and> op = Suspend_noirq
     then (case fst (power_suspend_late w) of Inl e \<Rightarrow> Some e | Inr _ \<Rightarrow> None)
     else env n d k op)"

text \<open>How often the platform's \<open>enter\<close> was called.\<close>

definition entered :: "pm_core \<Rightarrow> nat" where
  "entered s = length (filter (\<lambda>(op, e). op = P_enter) (plat_log s))"

lemma entered_plat_opt: "op \<noteq> P_enter \<Longrightarrow> entered (snd (plat_opt has env op s)) = entered s"
  by (auto simp: plat_opt_def plat_call_def entered_def split: option.splits)

lemma entered_upd [simp]:
  "entered (s\<lparr>dpm_part := d\<rparr>) = entered s" "entered (s\<lparr>dvfs_part := v\<rparr>) = entered s" "entered (s\<lparr>console_suspended := c\<rparr>) = entered s"
  "entered (s\<lparr>pm_mutex := c\<rparr>) = entered s" "entered (platform_finish env s) = entered s" "entered (resume_devices env s) = entered s"
  "entered (suspend_finish s) = entered s" "entered (suspend_close env s) = entered s"
  by (simp_all add: platform_finish_def resume_devices_def suspend_finish_def suspend_close_def prepare_finish_def
      usermodehelper_enable_def entered_plat_opt) (simp_all add: entered_def)

lemma entered_suspend_enter:
  assumes "fst (dpm_suspend_noirq (env_dev env) PM_EVENT_SUSPEND (dpm_part s)) \<noteq> None"
  shows "entered (snd (suspend_enter env s)) = entered s"
proof -
  let ?s0 = "s\<lparr>dvfs_part := dvfs_set_max_freq_lock (dvfs_part s)\<rparr>"
  obtain e1 s1 where p: "plat_opt has_prepare env P_prepare ?s0 = (e1, s1)" by fastforce
  have s1: "entered s1 = entered s" "dpm_part s1 = dpm_part s"
    using entered_plat_opt [of P_prepare has_prepare env ?s0] plat_opt_same(2) [OF p] p by simp_all
  show ?thesis
    using assms s1 unfolding suspend_enter_def Let_def p by (auto split: option.splits prod.splits)
qed

lemma entered_refused:
  assumes r: "pm_suspend env state s = Some (err, t)" and on: "devices_on (dpm_part s)"
    and p: "p \<in> set (dpm_list (dpm_part s))" "dev_bus (device (dpm_part s) p) = Some b" "layer_pm b = Some ops" "op_suspend_noirq ops"
      "\<forall>n. env_dev env n p Bus Suspend_noirq \<noteq> None"
  shows "entered t = entered s"
proof -
  have D: "entered s2 = entered s1"
    if d: "suspend_devices_and_enter env s1 = Some (e, s2)" and dp: "dpm_part s1 = dpm_part s" for s1 s2 e
  proof -
    obtain e1 s1' where b: "plat_opt has_begin env P_begin s1 = (e1, s1')" by fastforce
    have s1': "entered s1' = entered s1" "dpm_part s1' = dpm_part s"
      using entered_plat_opt [of P_begin has_begin env s1] plat_opt_same(2) [OF b] b dp by simp_all
    have "entered (snd (suspend_enter env (s1'\<lparr>console_suspended := True, dpm_part := d1\<rparr>))) = entered s1"
      if st: "dpm_suspend_start (env_dev env) PM_EVENT_SUSPEND (dpm_part s) = Some (e2, d1)" for e2 d1
    proof -
      have "dpm_list d1 = dpm_list (dpm_part s)" "device d1 = device (dpm_part s)"
        using dpm_suspend_start_spec [OF st] on unfolding devices_on_def by auto
      then show ?thesis using entered_suspend_enter noirq_refused [of p d1 b ops "env_dev env"] p s1'(1) by simp
    qed
    then show ?thesis
      using d s1' unfolding suspend_devices_and_enter_def Let_def b
      by (auto simp: entered_plat_opt split: option.splits if_splits)
  qed
  have P: "entered s1 = entered s' \<and> dpm_part s1 = dpm_part s'" if "suspend_prepare env s' = (e, s1)" for e s1 s'
    using that by (auto simp: suspend_prepare_def usermodehelper_disable_def usermodehelper_enable_def prepare_finish_def entered_def Let_def
      split: option.splits if_splits)
  show ?thesis
    using r by (auto simp: pm_suspend_def enter_state_def split: if_splits prod.splits option.splits dest!: P dest: D)
qed

section \<open>Properties\<close>

definition s5p6442_pm_ops :: platform_suspend_ops where
  "s5p6442_pm_ops = \<lparr>has_valid = True, has_begin = False, has_prepare = False, has_prepare_late = False, has_enter = True,
     has_wake = False, has_finish = False, has_end = False, has_recover = False\<rparr>"

definition pm_ready :: pm_core where
  "pm_ready = \<lparr>dpm_part = two_devices, dvfs_part = \<lparr>set_max_freq_flag = False, cpufreq_level = 3, dvfs_change_quick = False,
       dvfs_level_count = 0, maxfreqlevel = 3, maxfreqlevel_onlycpu = 2\<rparr>,
     suspend_ops = Some s5p6442_pm_ops, pm_mutex = False, console_prepared = False, notified = False,
     usermodehelper_disabled = False, tasks_frozen = False, console_suspended = False, irqs_off = False,
     sysdevs_suspended = False, plat_log = []\<rparr>"

lemma pm_ready_quiet: "pm_quiet pm_ready"
  by (simp add: pm_quiet_def pm_ready_def flags_of_def devices_on_def two_devices_def eval_nat_numeral)

definition pm_env_of :: "dev_env \<Rightarrow> pm_env" where
  "pm_env_of dev = \<lparr>env_dev = dev, env_plat = (\<lambda>_. None), env_valid = suspend_valid_only_mem, env_notifier = None,
     env_helpers_done = True, env_freeze = None, env_sysdev = None\<rparr>"



text \<open>C36: A suspend that fails in the noirq phase leaves the processor locked at its highest frequency, and
  \<open>pm_suspend\<close> reports success.  (With the operations of the platform, which has no \<open>begin\<close>; the noirq phase fails for instance
  when a wake lock is taken late.)\<close>

theorem pm_suspend_freq_stuck:
  assumes "pm_quiet s" "suspend_ops s = Some s5p6442_pm_ops" "env_valid env PM_SUSPEND_MEM"
    and "env_notifier env = None" "env_helpers_done env" "env_freeze env = None"
    and "dpm_suspend_start (env_dev env) PM_EVENT_SUSPEND (dpm_part s) = Some (None, d)"
    and "dpm_suspend_noirq (env_dev env) PM_EVENT_SUSPEND d = (Some e, d')"
  shows "\<exists>t. pm_suspend env PM_SUSPEND_MEM s = Some (None, t)
    \<and> set_max_freq_flag (dvfs_part t) \<and> cpufreq_level (dvfs_part t) = 0"
proof -
  note Q = pm_quietD [OF assms(1)]
  let ?s1 = "s\<lparr>pm_mutex := True, console_prepared := True, notified := True, usermodehelper_disabled := True, tasks_frozen := True\<rparr>"
  let ?s3 = "?s1\<lparr>console_suspended := True, dpm_part := d\<rparr>"
  have "suspend_prepare env (s\<lparr>pm_mutex := True\<rparr>) = (None, ?s1)"
    using assms(2,4-6) by (simp add: suspend_prepare_def usermodehelper_disable_def s5p6442_pm_ops_def)
  moreover have en: "suspend_enter env ?s3 = (Some e, ?s3\<lparr>dvfs_part := dvfs_set_max_freq_lock (dvfs_part s), dpm_part := d'\<rparr>)"
    using assms(2,8) by (simp add: suspend_enter_def plat_opt_def platform_finish_def s5p6442_pm_ops_def)
  moreover have "suspend_devices_and_enter env ?s1 = Some (None, resume_devices env (snd (suspend_enter env ?s3)))"
    using assms(2,7) by (simp add: suspend_devices_and_enter_def plat_opt_def s5p6442_pm_ops_def)
  moreover have "PM_SUSPEND_MEM > PM_SUSPEND_ON" "PM_SUSPEND_MEM \<le> PM_SUSPEND_MAX"
    by (simp_all add: PM_SUSPEND_MEM_def PM_SUSPEND_ON_def PM_SUSPEND_MAX_def)
  ultimately have "pm_suspend env PM_SUSPEND_MEM s =
      Some (None, (suspend_finish (resume_devices env (snd (suspend_enter env ?s3))))\<lparr>pm_mutex := False\<rparr>)"
    using assms(2,3) Q(1) by (simp add: pm_suspend_def enter_state_def valid_state_def s5p6442_pm_ops_def)
  moreover have "dvfs_part (resume_devices env (snd (suspend_enter env ?s3))) = dvfs_set_max_freq_lock (dvfs_part s)"
    unfolding resume_devices_same en by simp
  ultimately show ?thesis
    by (simp add: suspend_finish_def prepare_finish_def usermodehelper_enable_def dvfs_set_max_freq_lock_def)
qed

text \<open>The first device refuses the noirq phase.\<close>

definition late_refusal :: dev_env where
  "late_refusal n d k op = (if d = 10 \<and> op = Suspend_noirq then Some EAGAIN else None)"

theorem pm_suspend_freq_stuck_witness:
  "\<exists>t. pm_suspend (pm_env_of late_refusal) PM_SUSPEND_MEM pm_ready = Some (None, t) \<and> set_max_freq_flag (dvfs_part t)"
proof -
  have "\<exists>d. dpm_suspend_start late_refusal PM_EVENT_SUSPEND two_devices = Some (None, d) \<and> fst (dpm_suspend_noirq late_refusal PM_EVENT_SUSPEND d) = Some EAGAIN"
  proof -
    have "map_option (\<lambda>(e, d). (e, fst (dpm_suspend_noirq late_refusal PM_EVENT_SUSPEND d))) (dpm_suspend_start late_refusal PM_EVENT_SUSPEND two_devices) = Some (None, Some EAGAIN)"
      by code_simp
    then show ?thesis by auto
  qed
  then obtain d d' where "dpm_suspend_start late_refusal PM_EVENT_SUSPEND two_devices = Some (None, d)"
    "dpm_suspend_noirq late_refusal PM_EVENT_SUSPEND d = (Some EAGAIN, d')" by (metis prod.collapse)
  then show ?thesis using pm_suspend_freq_stuck [OF pm_ready_quiet, of "pm_env_of late_refusal" d EAGAIN d']
    by (auto simp: pm_ready_def pm_env_of_def suspend_valid_only_mem_def)
qed

end
