(* ===== verification/Pmem_Alloc.thy ===== *)
theory Pmem_Alloc
  imports Kernel_Prelude
begin

text \<open>
  The page allocator of the Android physical memory driver (\<open>drivers/misc/pmem.c\<close>): the
  bitmap, the search for the best fitting block, splitting, merging and the layout at set-up.
  A device's memory is divided into pages (entries); a block is a power of two of entries and
  is described by the bitmap entry of its first page.

  The bitmap is the memory at the address \<open>kmalloc\<close> returned, a function on entry numbers: the
  driver owns the first \<open>num_entries\<close> cells, and \<open>pmem_free\<close> can read the cell behind them, whose
  contents are whatever lies there.  Entry numbers are naturals, since all of them are below
  \<open>2 ^ 20\<close> on a 32-bit machine; the order of an entry is a 7-bit field and is incremented modulo
  128; lengths and addresses are 32-bit words.
\<close>

unbundle bit_operations_syntax

subsection \<open>State and operations\<close>

definition PMEM_MAX_ORDER :: nat where "PMEM_MAX_ORDER = 128"
definition PMEM_MIN_ALLOC :: u32 where "PMEM_MIN_ALLOC = 4096"

record pmem_bits =
  bit_allocated :: bool
  bit_order :: nat

type_synonym pmem_bitmap = "nat \<Rightarrow> pmem_bits"

record pmem_info =
  dev_minor :: nat
  pmem_base :: u32
  pmem_vbase :: u32
  pmem_size :: u32
  num_entries :: nat
  garbage_pfn :: u32
  bitmap :: pmem_bitmap
  no_allocator :: bool
  cached :: bool
  buffered :: bool
  allocated :: bool
  data_list :: "addr list"

definition PMEM_IS_FREE :: "pmem_bitmap \<Rightarrow> nat \<Rightarrow> bool" where
  "PMEM_IS_FREE bm i \<longleftrightarrow> \<not> bit_allocated (bm i)"

definition PMEM_ORDER :: "pmem_bitmap \<Rightarrow> nat \<Rightarrow> nat" where
  "PMEM_ORDER bm i = bit_order (bm i)"

definition set_order :: "nat \<Rightarrow> nat \<Rightarrow> pmem_bitmap \<Rightarrow> pmem_bitmap" where
  "set_order i k bm = bm(i := bm i\<lparr>bit_order := k\<rparr>)"

definition set_allocated :: "nat \<Rightarrow> bool \<Rightarrow> pmem_bitmap \<Rightarrow> pmem_bitmap" where
  "set_allocated i b bm = bm(i := bm i\<lparr>bit_allocated := b\<rparr>)"

definition PMEM_BUDDY_INDEX :: "pmem_bitmap \<Rightarrow> nat \<Rightarrow> nat" where
  "PMEM_BUDDY_INDEX bm i = i XOR 2 ^ PMEM_ORDER bm i"

definition PMEM_NEXT_INDEX :: "pmem_bitmap \<Rightarrow> nat \<Rightarrow> nat" where
  "PMEM_NEXT_INDEX bm i = i + 2 ^ PMEM_ORDER bm i"

definition PMEM_OFFSET :: "nat \<Rightarrow> u32" where
  "PMEM_OFFSET i = of_nat i * PMEM_MIN_ALLOC"

definition PMEM_START_ADDR :: "pmem_info \<Rightarrow> nat \<Rightarrow> u32" where
  "PMEM_START_ADDR d i = PMEM_OFFSET i + pmem_base d"

definition PMEM_LEN :: "pmem_info \<Rightarrow> nat \<Rightarrow> u32" where
  "PMEM_LEN d i = of_nat (2 ^ PMEM_ORDER (bitmap d) i) * PMEM_MIN_ALLOC"

function order_loop :: "u32 \<Rightarrow> nat \<Rightarrow> nat" where
  "order_loop len i =
     (if i < 32 then if drop_bit i len = 0 then i else order_loop len (Suc i) else i)"
  by pat_completeness auto
termination by (relation "measure (\<lambda>(len, i). 32 - i)") auto

declare order_loop.simps [simp del]

definition pmem_order :: "u32 \<Rightarrow> nat" where
  "pmem_order len =
     (let len = (len + PMEM_MIN_ALLOC - 1) div PMEM_MIN_ALLOC; len = len - 1
      in order_loop len 0)"

function fit_loop :: "pmem_bitmap \<Rightarrow> nat \<Rightarrow> nat \<Rightarrow> nat \<Rightarrow> int \<Rightarrow> int" where
  "fit_loop bm end order cur best_fit =
     (if cur < end then
        if PMEM_IS_FREE bm cur \<and> PMEM_ORDER bm cur = order mod 256 then int cur
        else fit_loop bm end order (PMEM_NEXT_INDEX bm cur)
          (if PMEM_IS_FREE bm cur \<and> order mod 256 < PMEM_ORDER bm cur \<and>
              (best_fit < 0 \<or> PMEM_ORDER bm cur < PMEM_ORDER bm (nat best_fit))
           then int cur else best_fit)
      else best_fit)"
  by pat_completeness auto
termination
  by (relation "measure (\<lambda>(bm, end, order, cur, best_fit). end - cur)")
    (auto simp: PMEM_NEXT_INDEX_def intro!: diff_less_mono2)

declare fit_loop.simps [simp del]

function split_loop :: "nat \<Rightarrow> nat \<Rightarrow> pmem_bitmap \<Rightarrow> pmem_bitmap" where
  "split_loop order best_fit bm =
     (if order mod 256 < PMEM_ORDER bm best_fit then
        let bm = set_order best_fit (PMEM_ORDER bm best_fit - 1) bm;
            buddy = PMEM_BUDDY_INDEX bm best_fit
        in split_loop order best_fit (set_order buddy (PMEM_ORDER bm best_fit) bm)
      else bm)"
  by pat_completeness auto
termination
  by (relation "measure (\<lambda>(order, i, bm). PMEM_ORDER bm i)")
    (auto simp: PMEM_ORDER_def set_order_def)

declare split_loop.simps [simp del]

definition pmem_allocate :: "u32 \<Rightarrow> pmem_info \<Rightarrow> int \<times> pmem_info" where
  "pmem_allocate len d =
     (let order = pmem_order len in
      if no_allocator d then
        if pmem_size d < len \<or> allocated d then (- 1, d)
        else (sint len, d\<lparr>allocated := True\<rparr>)
      else if PMEM_MAX_ORDER < order then (- 1, d)
      else
        let best_fit = fit_loop (bitmap d) (num_entries d) order 0 (- 1) in
        if best_fit < 0 then (- 1, d)
        else (best_fit, d\<lparr>bitmap := set_allocated (nat best_fit) True
                                    (split_loop order (nat best_fit) (bitmap d))\<rparr>))"

partial_function (option) merge_loop :: "nat \<Rightarrow> nat \<Rightarrow> pmem_bitmap \<Rightarrow> pmem_bitmap option" where
  "merge_loop n cur bm =
     (let buddy = PMEM_BUDDY_INDEX bm cur in
      if PMEM_IS_FREE bm buddy \<and> PMEM_ORDER bm buddy = PMEM_ORDER bm cur then
        let bm = set_order buddy ((PMEM_ORDER bm buddy + 1) mod 128) bm;
            bm = set_order cur ((PMEM_ORDER bm cur + 1) mod 128) bm;
            cur = min buddy cur
        in if cur < n then merge_loop n cur bm else Some bm
      else Some bm)"

declare merge_loop.simps [code]

definition pmem_free :: "nat \<Rightarrow> pmem_info \<Rightarrow> pmem_info option" where
  "pmem_free index d =
     (if no_allocator d then Some (d\<lparr>allocated := False\<rparr>)
      else map_option (\<lambda>bm. d\<lparr>bitmap := bm\<rparr>)
             (merge_loop (num_entries d) index (set_allocated index False (bitmap d))))"

fun setup_loop :: "nat \<Rightarrow> nat \<Rightarrow> nat \<Rightarrow> pmem_bitmap \<Rightarrow> pmem_bitmap" where
  "setup_loop n 0 index bm = bm"
| "setup_loop n (Suc i) index bm =
     (if bit n i then
        let bm = set_order index i bm in setup_loop n i (PMEM_NEXT_INDEX bm index) bm
      else setup_loop n i index bm)"

lemma setup_loop_code [code]:
  "setup_loop n 0 index bm = bm"
  "setup_loop n (Suc i) index bm =
     (if bit (int n) i then
        let bm = set_order index i bm in setup_loop n i (PMEM_NEXT_INDEX bm index) bm
      else setup_loop n i index bm)"
  by (simp_all add: bit_of_nat_iff_bit)

subsection \<open>Blocks of a bitmap\<close>

text \<open>\<open>blocks\<close> walks the bitmap as \<open>pmem_allocate\<close> does; \<open>tiling\<close> says that a list of entry
  numbers covers a range without gaps, each block aligned to its size.\<close>

lemma set_order_order [simp]: "PMEM_ORDER (set_order i k bm) j = (if j = i then k else PMEM_ORDER bm j)"
  by (simp add: set_order_def PMEM_ORDER_def)

lemma set_order_free [simp]: "PMEM_IS_FREE (set_order i k bm) j = PMEM_IS_FREE bm j"
  by (simp add: set_order_def PMEM_IS_FREE_def)

lemma set_allocated_order [simp]: "PMEM_ORDER (set_allocated i b bm) j = PMEM_ORDER bm j"
  by (simp add: set_allocated_def PMEM_ORDER_def)

lemma set_allocated_free [simp]:
  "PMEM_IS_FREE (set_allocated i b bm) j = (if j = i then \<not> b else PMEM_IS_FREE bm j)"
  by (simp add: set_allocated_def PMEM_IS_FREE_def)

lemma set_other [simp]: "j \<noteq> i \<Longrightarrow> set_order i k bm j = bm j" "j \<noteq> i \<Longrightarrow> set_allocated i b bm j = bm j"
  by (simp_all add: set_order_def set_allocated_def)

function blocks :: "pmem_bitmap \<Rightarrow> nat \<Rightarrow> nat \<Rightarrow> nat list" where
  "blocks bm n a = (if a < n then a # blocks bm n (PMEM_NEXT_INDEX bm a) else [])"
  by pat_completeness auto
termination
  by (relation "measure (\<lambda>(bm, n, a). n - a)") (auto simp: PMEM_NEXT_INDEX_def intro!: diff_less_mono2)

declare blocks.simps [simp del]

fun tiling :: "pmem_bitmap \<Rightarrow> nat \<Rightarrow> nat list \<Rightarrow> nat \<Rightarrow> bool" where
  "tiling bm a [] b \<longleftrightarrow> a = b"
| "tiling bm a (x # xs) b \<longleftrightarrow>
     x = a \<and> 2 ^ PMEM_ORDER bm a dvd a \<and> tiling bm (a + 2 ^ PMEM_ORDER bm a) xs b"

definition buddy_ok :: "pmem_bitmap \<Rightarrow> nat \<Rightarrow> nat list \<Rightarrow> bool" where
  "buddy_ok bm n xs \<longleftrightarrow> n \<le> 2 ^ 20 \<and> tiling bm 0 xs n \<and> (\<forall>i<n. PMEM_IS_FREE bm i \<or> i \<in> set xs)"

lemma tiling_append: "tiling bm a (xs @ ys) b \<longleftrightarrow> (\<exists>c. tiling bm a xs c \<and> tiling bm c ys b)"
  by (induction xs arbitrary: a) auto

lemma tiling_cong: "(\<And>x. x \<in> set xs \<Longrightarrow> PMEM_ORDER bm' x = PMEM_ORDER bm x) \<Longrightarrow>
    tiling bm' a xs b \<longleftrightarrow> tiling bm a xs b"
  by (induction xs arbitrary: a) auto

lemma tiling_le: "tiling bm a xs b \<Longrightarrow> a \<le> b"
  by (induction xs arbitrary: a) (auto dest: meta_spec intro: order_trans [OF le_add1])

lemma tiling_mem: "tiling bm a xs b \<Longrightarrow> x \<in> set xs \<Longrightarrow>
    a \<le> x \<and> x + 2 ^ PMEM_ORDER bm x \<le> b \<and> 2 ^ PMEM_ORDER bm x dvd x"
proof (induction xs arbitrary: a)
  case (Cons y ys)
  then have t: "tiling bm (a + 2 ^ PMEM_ORDER bm a) ys b" by simp
  show ?case
  proof (cases "x = y")
    case True
    then show ?thesis using Cons.prems tiling_le [OF t] by auto
  next
    case False
    then show ?thesis using Cons.IH [OF t] Cons.prems by auto
  qed
qed simp

lemma tiling_less: "tiling bm a xs b \<Longrightarrow> x \<in> set xs \<Longrightarrow> x < b"
  using tiling_mem [of bm a xs b x] zero_less_power [of "2::nat" "PMEM_ORDER bm x"] by linarith

lemma tiling_cover: "tiling bm a xs b \<Longrightarrow> a \<le> i \<Longrightarrow> i < b \<Longrightarrow>
    \<exists>x\<in>set xs. x \<le> i \<and> i < x + 2 ^ PMEM_ORDER bm x"
proof (induction xs arbitrary: a)
  case (Cons y ys)
  then show ?case by (cases "i < a + 2 ^ PMEM_ORDER bm a") auto
qed simp

lemma tiling_disjoint: "tiling bm a xs b \<Longrightarrow> x \<in> set xs \<Longrightarrow> y \<in> set xs \<Longrightarrow> x < y \<Longrightarrow>
    x + 2 ^ PMEM_ORDER bm x \<le> y"
proof (induction xs arbitrary: a)
  case (Cons z zs)
  then have t: "tiling bm (a + 2 ^ PMEM_ORDER bm a) zs b" by simp
  from Cons.prems have "y \<in> set zs \<or> x \<in> set zs" by auto
  then show ?case using Cons.IH [OF t] Cons.prems tiling_mem [OF t] by force
qed simp

lemma tiling_distinct: "tiling bm a xs b \<Longrightarrow> distinct xs"
proof (induction xs arbitrary: a)
  case (Cons z zs)
  then have t: "tiling bm (a + 2 ^ PMEM_ORDER bm a) zs b" by simp
  have "z \<notin> set zs" using tiling_mem [OF t, of z] Cons.prems by auto
  then show ?case using Cons.IH [OF t] by simp
qed simp

lemma tiling_blocks: "tiling bm a xs n \<Longrightarrow> blocks bm n a = xs"
proof (induction xs arbitrary: a)
  case (Cons y ys)
  then have t: "tiling bm (a + 2 ^ PMEM_ORDER bm a) ys n" by simp
  have "a + 2 ^ PMEM_ORDER bm a \<le> n" by (rule tiling_le [OF t])
  then have "a < n" by (meson less_le_trans less_add_same_cancel1 zero_less_numeral zero_less_power)
  then show ?case using Cons.IH [OF t] Cons.prems by (simp add: blocks.simps [of bm n a] PMEM_NEXT_INDEX_def)
qed (simp add: blocks.simps)

lemma tiling_order: "tiling bm a xs b \<Longrightarrow> b \<le> 2 ^ 20 \<Longrightarrow> x \<in> set xs \<Longrightarrow> PMEM_ORDER bm x \<le> 20"
proof -
  assume t: "tiling bm a xs b" "b \<le> 2 ^ 20" "x \<in> set xs"
  then have "2 ^ PMEM_ORDER bm x \<le> (2::nat) ^ 20" using tiling_mem [OF t(1,3)] by linarith
  then show ?thesis by (rule power_le_imp_le_exp [rotated]) simp
qed

subsection \<open>Buddies\<close>

lemma buddy_cases:
  assumes "2 ^ k dvd (x::nat)"
  shows "(2 ^ Suc k dvd x \<and> x XOR 2 ^ k = x + 2 ^ k) \<or>
    (\<not> 2 ^ Suc k dvd x \<and> x = (x XOR 2 ^ k) + 2 ^ k \<and> 2 ^ Suc k dvd (x XOR 2 ^ k))"
proof -
  from assms obtain m where m: "x = 2 ^ k * m" by (rule dvdE)
  have "x XOR 2 ^ k = push_bit k m XOR push_bit k 1" by (simp add: m push_bit_eq_mult mult.commute)
  also have "\<dots> = push_bit k (m XOR 1)" by (simp only: push_bit_xor)
  finally have e: "x XOR 2 ^ k = 2 ^ k * (m XOR 1)" by (simp add: push_bit_eq_mult mult.commute)
  show ?thesis
  proof (cases "even m")
    case True
    then have "m XOR 1 = m + 1" by (simp add: xor_Suc_0_eq)
    with True show ?thesis by (simp add: e) (simp add: m algebra_simps)
  next
    case False
    then obtain q where q: "m = Suc q" "even q" by (cases m) auto
    then have "m XOR 1 = q" by (simp add: xor_Suc_0_eq)
    then have "x XOR 2 ^ k = 2 ^ k * q" "x = 2 ^ k * q + 2 ^ k" using e m q by simp_all
    moreover have "2 ^ Suc k dvd 2 ^ k * q" using q by simp
    moreover have "\<not> 2 ^ Suc k dvd 2 ^ k * m" using False by simp
    ultimately show ?thesis using m by simp
  qed
qed

lemma buddy_div: "k < p \<Longrightarrow> (x XOR 2 ^ k) div 2 ^ p = (x::nat) div 2 ^ p"
proof -
  assume "k < p"
  then have "(2::nat) ^ k div 2 ^ p = 0" by (simp add: div_eq_0_iff)
  moreover have "(x XOR 2 ^ k) div 2 ^ p = (x div 2 ^ p) XOR (2 ^ k div 2 ^ p)"
    using drop_bit_xor [of p x "2 ^ k"] by (simp add: drop_bit_eq_div)
  ultimately show ?thesis by simp
qed

lemma dvd_block:
  assumes "2 ^ p dvd (s::nat)" "s \<le> y" "y < s + 2 ^ p"
  shows "y div 2 ^ p = s div 2 ^ p"
proof -
  obtain m where "s = 2 ^ p * m" using assms(1) by (rule dvdE)
  moreover obtain r where "y = s + r" using assms(2) by (auto simp: le_iff_add)
  ultimately show ?thesis using assms(3) by simp
qed

lemma block_dvd:
  assumes "2 ^ p dvd (s::nat)" "x div 2 ^ p = s div 2 ^ p"
  shows "s \<le> x \<and> x < s + 2 ^ p"
proof -
  obtain m where m: "s = 2 ^ p * m" using assms(1) by (rule dvdE)
  then have "x div 2 ^ p = m" using assms(2) by simp
  then have "x = s + x mod 2 ^ p" using m div_mult_mod_eq [of x "2 ^ p"] by (simp add: mult.commute)
  moreover have "x mod 2 ^ p < 2 ^ p" by simp
  ultimately show ?thesis by linarith
qed

text \<open>The cell of a block's buddy is itself the first cell of a block, if it is in the bitmap.\<close>

lemma buddy_is_block:
  assumes t: "tiling bm 0 xs n" and x: "x \<in> set xs" and n: "PMEM_BUDDY_INDEX bm x < n"
  shows "PMEM_BUDDY_INDEX bm x \<in> set xs"
proof -
  let ?k = "PMEM_ORDER bm x" and ?y = "PMEM_BUDDY_INDEX bm x"
  have y: "?y = x XOR 2 ^ ?k" by (simp add: PMEM_BUDDY_INDEX_def)
  obtain s where s: "s \<in> set xs" "s \<le> ?y" "?y < s + 2 ^ PMEM_ORDER bm s"
    using tiling_cover [OF t _ n] by auto
  let ?p = "PMEM_ORDER bm s"
  have ds: "2 ^ ?p dvd s" and dx: "2 ^ ?k dvd x" using tiling_mem [OF t] s x by auto
  have dy: "?y div 2 ^ ?p = s div 2 ^ ?p" by (rule dvd_block [OF ds s(2,3)])
  show ?thesis
  proof (cases "?k < ?p")
    case True
    then have e: "x div 2 ^ ?p = s div 2 ^ ?p" using dy buddy_div [OF True, of x] y by simp
    then have "s \<le> x" "x < s + 2 ^ ?p" using block_dvd [OF ds] by blast+
    then have "x = s" using tiling_disjoint [OF t s(1) x] by linarith
    then show ?thesis using True by simp
  next
    case False
    then have "2 ^ ?p dvd ?y" using dx buddy_cases [OF dx] y
    proof -
      have pk: "(2::nat) ^ ?p dvd 2 ^ ?k" using False by (simp add: le_imp_power_dvd)
      then have "2 ^ ?p dvd x" using dx by (rule dvd_trans)
      with pk show ?thesis using buddy_cases [OF dx] y
        by (metis dvd_add dvd_add_left_iff)
    qed
    then have "?y = s" using dy ds by (metis dvd_div_mult_self)
    then show ?thesis using s by simp
  qed
qed

text \<open>Outside the bitmap the buddy of a block can only be the cell behind the last one.\<close>

lemma buddy_outside:
  assumes t: "tiling bm 0 xs n" and x: "x \<in> set xs" and n: "n \<le> PMEM_BUDDY_INDEX bm x"
  shows "PMEM_BUDDY_INDEX bm x = n \<and> 2 ^ PMEM_ORDER bm x dvd n \<and> \<not> 2 ^ Suc (PMEM_ORDER bm x) dvd n"
proof -
  let ?k = "PMEM_ORDER bm x"
  have d: "2 ^ ?k dvd x" and l: "x + 2 ^ ?k \<le> n" using tiling_mem [OF t x] by auto
  have "\<not> x = (x XOR 2 ^ ?k) + 2 ^ ?k" using n l zero_less_power [of "2::nat" ?k] unfolding PMEM_BUDDY_INDEX_def by linarith
  then have y: "x XOR 2 ^ ?k = x + 2 ^ ?k" and d2: "2 ^ Suc ?k dvd x" using buddy_cases [OF d] by blast+
  then have n: "n = x + 2 ^ ?k" using n l by (simp add: PMEM_BUDDY_INDEX_def)
  have "\<not> 2 ^ Suc ?k dvd (2::nat) ^ ?k" by (simp add: dvd_power_iff_le)
  then have "\<not> 2 ^ Suc ?k dvd n" unfolding n using dvd_add_right_iff [OF d2] by blast
  then show ?thesis using d y n by (simp add: PMEM_BUDDY_INDEX_def)
qed

subsection \<open>Splitting and merging\<close>

text \<open>\<open>coalesced\<close> excludes pairs of free buddies of one size, apart from those with a block of
  the last argument; \<open>foreign_ok\<close> is what \<open>pmem_free\<close> needs of the memory behind the bitmap.\<close>

definition coalesced :: "pmem_bitmap \<Rightarrow> nat \<Rightarrow> nat list \<Rightarrow> nat set \<Rightarrow> bool" where
  "coalesced bm n xs X \<longleftrightarrow>
     (\<forall>x\<in>set xs. let y = PMEM_BUDDY_INDEX bm x in
        x \<notin> X \<and> y \<notin> X \<and> y < n \<and> PMEM_IS_FREE bm x \<and> PMEM_IS_FREE bm y \<longrightarrow>
        PMEM_ORDER bm y \<noteq> PMEM_ORDER bm x)"

definition foreign_ok :: "pmem_bitmap \<Rightarrow> nat \<Rightarrow> bool" where
  "foreign_ok bm n \<longleftrightarrow>
     PMEM_IS_FREE bm n \<longrightarrow> 2 ^ PMEM_ORDER bm n dvd n \<longrightarrow> 2 ^ Suc (PMEM_ORDER bm n) dvd n"

definition same_owned :: "nat \<Rightarrow> pmem_bitmap \<Rightarrow> pmem_bitmap \<Rightarrow> bool" where
  "same_owned n bm bm' \<longleftrightarrow>
     (\<forall>i. PMEM_IS_FREE bm' i = PMEM_IS_FREE bm i) \<and>
     (\<forall>i. \<not> PMEM_IS_FREE bm i \<or> n \<le> i \<longrightarrow> bm' i = bm i)"

lemma same_owned_refl [simp]: "same_owned n bm bm"
  by (simp add: same_owned_def)

lemma same_owned_trans: "same_owned n a b \<Longrightarrow> same_owned n b c \<Longrightarrow> same_owned n a c"
  by (auto simp: same_owned_def)

lemma same_owned_foreign: "same_owned n a b \<Longrightarrow> foreign_ok b n = foreign_ok a n"
  by (simp add: same_owned_def foreign_ok_def PMEM_ORDER_def)

lemma tiling_outside:
  assumes "tiling bm a us c" "tiling bm (c + w) vs n" "0 < w"
    and f: "\<And>i. i < c \<or> c + w \<le> i \<Longrightarrow> PMEM_ORDER bm' i = PMEM_ORDER bm i"
  shows "tiling bm' a us c \<and> tiling bm' (c + w) vs n"
proof -
  have "x < c" if "x \<in> set us" for x
    using tiling_mem [OF assms(1) that] zero_less_power [of "2::nat" "PMEM_ORDER bm x"] by linarith
  then have "tiling bm' a us c = tiling bm a us c" using f by (intro tiling_cong) blast
  moreover have "tiling bm' (c + w) vs n = tiling bm (c + w) vs n"
    using f tiling_mem [OF assms(2)] by (intro tiling_cong) blast
  ultimately show ?thesis using assms by blast
qed

lemma tiling_halve:
  assumes t: "tiling bm a (us @ m # vs) n" and k: "PMEM_ORDER bm m = Suc k"
    and b: "PMEM_ORDER bm' m = k" "PMEM_ORDER bm' (m + 2 ^ k) = k"
    and f: "\<And>i. i \<noteq> m \<Longrightarrow> i \<noteq> m + 2 ^ k \<Longrightarrow> PMEM_ORDER bm' i = PMEM_ORDER bm i"
  shows "tiling bm' a (us @ m # (m + 2 ^ k) # vs) n"
proof -
  have two: "m + 2 ^ Suc k = m + 2 ^ k + 2 ^ k" by simp
  from t k have m: "tiling bm a us m" "2 ^ Suc k dvd m" "tiling bm (m + 2 ^ Suc k) vs n"
    by (auto simp: tiling_append)
  have "tiling bm' a us m \<and> tiling bm' (m + 2 ^ Suc k) vs n"
    by (rule tiling_outside [OF m(1,3)]) (auto intro!: f)
  moreover have "2 ^ k dvd m" using m(2) by (rule dvd_trans [rotated]) (simp add: le_imp_power_dvd)
  ultimately show ?thesis using b unfolding two by (auto simp: tiling_append)
qed

lemma tiling_join:
  assumes t: "tiling bm a (us @ m # (m + 2 ^ k) # vs) n"
    and k: "PMEM_ORDER bm m = k" "PMEM_ORDER bm (m + 2 ^ k) = k" and d: "2 ^ Suc k dvd m"
    and b: "PMEM_ORDER bm' m = Suc k"
    and f: "\<And>i. i \<noteq> m \<Longrightarrow> i \<noteq> m + 2 ^ k \<Longrightarrow> PMEM_ORDER bm' i = PMEM_ORDER bm i"
  shows "tiling bm' a (us @ m # vs) n"
proof -
  have two: "m + 2 ^ k + 2 ^ k = m + 2 ^ Suc k" by simp
  from t k have "tiling bm a us m" "tiling bm (m + 2 ^ k + 2 ^ k) vs n"
    by (auto simp: tiling_append)
  then have "tiling bm' a us m \<and> tiling bm' (m + 2 ^ Suc k) vs n"
    unfolding two by (rule tiling_outside) (auto intro!: f)
  then show ?thesis using b d by (auto simp: tiling_append)
qed

lemma tiling_next:
  assumes "tiling bm a (us @ x # vs) n" "x + 2 ^ PMEM_ORDER bm x < n"
  shows "\<exists>ws. vs = (x + 2 ^ PMEM_ORDER bm x) # ws"
  using assms by (cases vs) (auto simp: tiling_append)

lemma coalescedD:
  "coalesced bm n xs X \<Longrightarrow> x \<in> set xs \<Longrightarrow> PMEM_BUDDY_INDEX bm x < n \<Longrightarrow> PMEM_IS_FREE bm x \<Longrightarrow>
   PMEM_IS_FREE bm (PMEM_BUDDY_INDEX bm x) \<Longrightarrow>
   PMEM_ORDER bm (PMEM_BUDDY_INDEX bm x) = PMEM_ORDER bm x \<Longrightarrow> x \<in> X \<or> PMEM_BUDDY_INDEX bm x \<in> X"
  unfolding coalesced_def by (auto simp: Let_def)

lemma coalescedI:
  "(\<And>x y. x \<in> set xs \<Longrightarrow> y = PMEM_BUDDY_INDEX bm x \<Longrightarrow> y < n \<Longrightarrow> PMEM_IS_FREE bm x \<Longrightarrow>
     PMEM_IS_FREE bm y \<Longrightarrow> PMEM_ORDER bm y = PMEM_ORDER bm x \<Longrightarrow> x \<in> X \<or> y \<in> X) \<Longrightarrow>
   coalesced bm n xs X"
  unfolding coalesced_def by (auto simp: Let_def)

lemma buddy_involution: "PMEM_ORDER bm y = PMEM_ORDER bm x \<Longrightarrow> y = PMEM_BUDDY_INDEX bm x \<Longrightarrow>
    PMEM_BUDDY_INDEX bm y = x"
  by (simp add: PMEM_BUDDY_INDEX_def xor.assoc)

lemma buddy_cong: "PMEM_ORDER bm' x = PMEM_ORDER bm x \<Longrightarrow> PMEM_BUDDY_INDEX bm' x = PMEM_BUDDY_INDEX bm x"
  by (simp add: PMEM_BUDDY_INDEX_def)

lemma same_owned_set_order: "i < n \<Longrightarrow> PMEM_IS_FREE bm i \<Longrightarrow> same_owned n bm (set_order i k bm)"
  by (auto simp: same_owned_def set_order_def PMEM_IS_FREE_def)

text \<open>One round of the splitting loop.\<close>

lemma split_step:
  assumes ok: "buddy_ok bm n xs" and x: "x \<in> set xs" "PMEM_IS_FREE bm x" and k: "PMEM_ORDER bm x = Suc k"
    and co: "coalesced bm n xs {x}"
  defines "bm1 \<equiv> set_order x k bm"
  defines "bm2 \<equiv> set_order (PMEM_BUDDY_INDEX bm1 x) k bm1"
  shows "\<exists>ys. buddy_ok bm2 n ys \<and> x \<in> set ys \<and> set xs \<subseteq> set ys \<and> coalesced bm2 n ys {x} \<and>
    same_owned n bm bm2 \<and> PMEM_ORDER bm2 x = k"
proof -
  let ?y = "x + 2 ^ k"
  have t: "tiling bm 0 xs n" and n: "n \<le> 2 ^ 20" and own: "\<And>i. i < n \<Longrightarrow> PMEM_IS_FREE bm i \<or> i \<in> set xs"
    using ok by (auto simp: buddy_ok_def)
  have m: "x + 2 ^ Suc k \<le> n" "2 ^ Suc k dvd x" using tiling_mem [OF t x(1)] k by auto
  have yx: "?y \<noteq> x" and pos: "0 < (2::nat) ^ k" by simp_all
  have two: "x + 2 ^ Suc k = ?y + 2 ^ k" by simp
  have yn: "?y < n" "x < n" using m(1) pos unfolding two by linarith+
  have "2 ^ k dvd x" using m(2) by (rule dvd_trans [rotated]) (simp add: le_imp_power_dvd)
  then have y: "PMEM_BUDDY_INDEX bm1 x = ?y"
    using buddy_cases [of k x] m(2) by (auto simp: bm1_def PMEM_BUDDY_INDEX_def)
  have ynot: "?y \<notin> set xs" using tiling_disjoint [OF t x(1), of ?y] k pos by auto
  have fy: "PMEM_IS_FREE bm ?y" using own [OF yn(1)] ynot by blast
  have bm2: "bm2 = set_order ?y k (set_order x k bm)" unfolding bm2_def y by (simp only: bm1_def)
  have o2: "PMEM_ORDER bm2 x = k" "PMEM_ORDER bm2 ?y = k"
    "\<And>i. i \<noteq> x \<Longrightarrow> i \<noteq> ?y \<Longrightarrow> PMEM_ORDER bm2 i = PMEM_ORDER bm i"
    and f2: "\<And>i. PMEM_IS_FREE bm2 i = PMEM_IS_FREE bm i"
    by (simp_all add: bm2)
  obtain us vs where xs: "xs = us @ x # vs" using x(1) by (auto dest: split_list)
  let ?ys = "us @ x # ?y # vs"
  have t2: "tiling bm2 0 ?ys n"
    by (rule tiling_halve [OF _ k o2(1,2) o2(3)]) (use t xs in simp_all)
  have "same_owned n bm bm2"
    unfolding bm2 using same_owned_set_order [OF yn(2) x(2)] fy yn(1) x(2)
    by (intro same_owned_trans [OF _ same_owned_set_order]) simp_all
  moreover have "coalesced bm2 n ?ys {x}"
  proof (rule coalescedI)
    fix z w assume z: "z \<in> set ?ys" and w: "w = PMEM_BUDDY_INDEX bm2 z" "w < n"
      and fr: "PMEM_IS_FREE bm2 z" "PMEM_IS_FREE bm2 w" and e: "PMEM_ORDER bm2 w = PMEM_ORDER bm2 z"
    have bx: "PMEM_BUDDY_INDEX bm2 x = ?y" using y o2(1) by (simp add: PMEM_BUDDY_INDEX_def bm1_def)
    have "PMEM_BUDDY_INDEX bm2 ?y = x" by (rule buddy_involution) (simp_all only: o2 bx)
    then have "z = ?y \<Longrightarrow> w = x" "w = ?y \<Longrightarrow> z = x"
      using w(1) buddy_involution [OF e w(1)] by auto
    moreover have "z = x \<or> w = x" if "z \<noteq> ?y" "w \<noteq> ?y"
    proof (rule ccontr)
      assume c: "\<not> (z = x \<or> w = x)"
      then have zw: "PMEM_ORDER bm2 z = PMEM_ORDER bm z" "PMEM_ORDER bm2 w = PMEM_ORDER bm w"
        "z \<in> set xs" using that o2(3) z xs by auto
      then show False using coalescedD [OF co zw(3)] w fr e c f2 buddy_cong [OF zw(1)] by auto
    qed
    ultimately show "z \<in> {x} \<or> w \<in> {x}" by blast
  qed
  ultimately show ?thesis using t2 n own f2 o2 xs
    by (intro exI [of _ ?ys]) (auto simp: buddy_ok_def)
qed

lemma split_loop_ok:
  "buddy_ok bm n xs \<Longrightarrow> x \<in> set xs \<Longrightarrow> PMEM_IS_FREE bm x \<Longrightarrow> k mod 256 \<le> PMEM_ORDER bm x \<Longrightarrow>
   coalesced bm n xs {x} \<Longrightarrow>
   \<exists>ys. buddy_ok (split_loop k x bm) n ys \<and> x \<in> set ys \<and> set xs \<subseteq> set ys \<and>
     coalesced (split_loop k x bm) n ys {x} \<and> same_owned n bm (split_loop k x bm) \<and>
     PMEM_ORDER (split_loop k x bm) x = k mod 256"
proof (induction k x bm arbitrary: xs rule: split_loop.induct)
  case (1 k x bm)
  let ?bm1 = "set_order x (PMEM_ORDER bm x - 1) bm"
  let ?bm2 = "set_order (PMEM_BUDDY_INDEX ?bm1 x) (PMEM_ORDER ?bm1 x) ?bm1"
  show ?case
  proof (cases "k mod 256 < PMEM_ORDER bm x")
    case True
    then obtain j where j: "PMEM_ORDER bm x = Suc j" by (cases "PMEM_ORDER bm x") auto
    have e: "split_loop k x bm = split_loop k x ?bm2"
      using True by (subst split_loop.simps) (simp add: Let_def)
    have b2: "?bm2 = set_order (PMEM_BUDDY_INDEX (set_order x j bm) x) j (set_order x j bm)" by (simp add: j)
    obtain ys where ys: "buddy_ok ?bm2 n ys" "x \<in> set ys" "set xs \<subseteq> set ys" "coalesced ?bm2 n ys {x}"
      "same_owned n bm ?bm2" "PMEM_ORDER ?bm2 x = j"
      using split_step [OF "1.prems"(1-3) j "1.prems"(5)] unfolding b2 by blast
    have "PMEM_IS_FREE ?bm2 x" using "1.prems"(3) by simp
    moreover have "k mod 256 \<le> PMEM_ORDER ?bm2 x" using True j ys(6) by simp
    ultimately obtain zs where "buddy_ok (split_loop k x ?bm2) n zs" "x \<in> set zs" "set ys \<subseteq> set zs"
      "coalesced (split_loop k x ?bm2) n zs {x}" "same_owned n ?bm2 (split_loop k x ?bm2)"
      "PMEM_ORDER (split_loop k x ?bm2) x = k mod 256"
      using "1.IH" [OF True refl refl ys(1,2)] ys(4) by blast
    then show ?thesis unfolding e using same_owned_trans [OF ys(5)] ys(3) by blast
  next
    case False
    then have "split_loop k x bm = bm" "PMEM_ORDER bm x = k mod 256"
      using "1.prems"(4) by (simp_all add: split_loop.simps [of k x bm])
    then show ?thesis using "1.prems" by auto
  qed
qed

text \<open>One round of the merging loop.\<close>

lemma merge_step:
  assumes ok: "buddy_ok bm n xs" and x: "x \<in> set xs" "PMEM_IS_FREE bm x"
    and y: "y = PMEM_BUDDY_INDEX bm x" "y < n" "PMEM_IS_FREE bm y" "PMEM_ORDER bm y = PMEM_ORDER bm x"
    and co: "coalesced bm n xs {x}"
  defines "k \<equiv> PMEM_ORDER bm x"
  defines "bm2 \<equiv> set_order x (Suc k) (set_order y (Suc k) bm)"
  shows "\<exists>ys. buddy_ok bm2 n ys \<and> min y x \<in> set ys \<and> coalesced bm2 n ys {min y x} \<and>
    same_owned n bm bm2 \<and> length ys < length xs"
proof -
  let ?m = "min y x"
  have t: "tiling bm 0 xs n" and n: "n \<le> 2 ^ 20" and own: "\<And>i. i < n \<Longrightarrow> PMEM_IS_FREE bm i \<or> i \<in> set xs"
    using ok by (auto simp: buddy_ok_def)
  have d: "2 ^ k dvd x" using tiling_mem [OF t x(1)] k_def by auto
  have yk: "y = x XOR 2 ^ k" using y(1) by (simp add: PMEM_BUDDY_INDEX_def k_def)
  have ys: "y \<in> set xs" using buddy_is_block [OF t x(1)] y by simp
  have M: "2 ^ Suc k dvd ?m" "max y x = ?m + 2 ^ k" using buddy_cases [OF d] yk by auto
  have mM: "(?m = x \<and> ?m + 2 ^ k = y) \<or> (?m = y \<and> ?m + 2 ^ k = x)"
    unfolding M(2) [symmetric] by (auto simp: min_def max_def)
  then have om: "PMEM_ORDER bm ?m = k" "PMEM_ORDER bm (?m + 2 ^ k) = k" and mx: "?m \<in> set xs"
    and mn: "?m + 2 ^ k < n"
    using y x ys tiling_mem [OF t x(1)] by (auto simp: k_def)
  obtain us vs where "xs = us @ ?m # vs" using mx by (auto dest: split_list)
  then obtain ws where xs: "xs = us @ ?m # (?m + 2 ^ k) # ws"
    using tiling_next [of bm 0 us ?m vs n] t om mn by auto
  let ?zs = "us @ ?m # ws"
  have o2: "PMEM_ORDER bm2 ?m = Suc k" "\<And>i. i \<noteq> ?m \<Longrightarrow> i \<noteq> ?m + 2 ^ k \<Longrightarrow> PMEM_ORDER bm2 i = PMEM_ORDER bm i"
    using mM by (auto simp: bm2_def)
  have f2: "\<And>i. PMEM_IS_FREE bm2 i = PMEM_IS_FREE bm i" by (simp add: bm2_def)
  have t2: "tiling bm2 0 ?zs n"
    by (rule tiling_join [OF _ om M(1) o2]) (use t xs in simp_all)
  have Mnot: "?m + 2 ^ k \<notin> set ?zs" using tiling_distinct [OF t] unfolding xs by simp
  have fM: "PMEM_IS_FREE bm (?m + 2 ^ k)" using mM x(2) y(3) by auto
  have "coalesced bm2 n ?zs {?m}"
  proof (rule coalescedI, rule ccontr)
    fix z w assume z: "z \<in> set ?zs" and w: "w = PMEM_BUDDY_INDEX bm2 z" "w < n"
      and fr: "PMEM_IS_FREE bm2 z" "PMEM_IS_FREE bm2 w" and e: "PMEM_ORDER bm2 w = PMEM_ORDER bm2 z"
      and c: "\<not> (z \<in> {?m} \<or> w \<in> {?m})"
    have "w \<in> set ?zs" using buddy_is_block [OF t2 z] w by simp
    then have ne: "z \<noteq> ?m" "w \<noteq> ?m" "z \<noteq> ?m + 2 ^ k" "w \<noteq> ?m + 2 ^ k" using z Mnot c by auto
    then have zw: "PMEM_ORDER bm2 z = PMEM_ORDER bm z" "PMEM_ORDER bm2 w = PMEM_ORDER bm w" "z \<in> set xs"
      using o2(2) z xs by auto
    then show False using coalescedD [OF co zw(3)] w fr e f2 buddy_cong [OF zw(1)] ne mM by auto
  qed
  moreover have "same_owned n bm bm2"
    unfolding bm2_def using same_owned_set_order [OF y(2,3)] x(2) y(3) mM mn
    by (intro same_owned_trans [OF _ same_owned_set_order]) auto
  moreover have "buddy_ok bm2 n ?zs"
    unfolding buddy_ok_def using t2 n own f2 fM xs by auto
  ultimately show ?thesis using xs by (intro exI [of _ ?zs]) auto
qed

lemma merge_loop_ok:
  "buddy_ok bm n xs \<Longrightarrow> x \<in> set xs \<Longrightarrow> PMEM_IS_FREE bm x \<Longrightarrow> coalesced bm n xs {x} \<Longrightarrow> foreign_ok bm n \<Longrightarrow>
   \<exists>bm' ys. merge_loop n x bm = Some bm' \<and> buddy_ok bm' n ys \<and> coalesced bm' n ys {} \<and> same_owned n bm bm'"
proof (induction "length xs" arbitrary: xs x bm rule: less_induct)
  case less
  let ?y = "PMEM_BUDDY_INDEX bm x" and ?k = "PMEM_ORDER bm x"
  have t: "tiling bm 0 xs n" "n \<le> 2 ^ 20" using less.prems(1) by (auto simp: buddy_ok_def)
  have k: "?k \<le> 20" by (rule tiling_order [OF t less.prems(2)])
  show ?case
  proof (cases "PMEM_IS_FREE bm ?y \<and> PMEM_ORDER bm ?y = ?k")
    case True
    have "?y < n"
    proof (rule ccontr)
      assume "\<not> ?y < n"
      then show False using buddy_outside [OF t(1) less.prems(2)] True less.prems(5) by (auto simp: foreign_ok_def)
    qed
    then obtain ys where ys: "buddy_ok (set_order x (Suc ?k) (set_order ?y (Suc ?k) bm)) n ys"
        "min ?y x \<in> set ys" "coalesced (set_order x (Suc ?k) (set_order ?y (Suc ?k) bm)) n ys {min ?y x}"
        "same_owned n bm (set_order x (Suc ?k) (set_order ?y (Suc ?k) bm))" "length ys < length xs"
      using merge_step [OF less.prems(1-3) refl _ _ _ less.prems(4)] True by blast
    let ?bm2 = "set_order x (Suc ?k) (set_order ?y (Suc ?k) bm)"
    have "2 ^ ?k dvd x" using tiling_mem [OF t(1) less.prems(2)] by simp
    then have "?y \<noteq> x" using buddy_cases [of ?k x] by (auto simp: PMEM_BUDDY_INDEX_def)
    moreover have "min ?y x < n" using \<open>?y < n\<close> by simp
    ultimately have e: "merge_loop n x bm = merge_loop n (min ?y x) ?bm2"
      using True k by (subst merge_loop.simps) (simp add: Let_def)
    have "PMEM_IS_FREE ?bm2 (min ?y x)" using True less.prems(3) by (auto simp: min_def)
    moreover have "foreign_ok ?bm2 n" using same_owned_foreign [OF ys(4)] less.prems(5) by simp
    ultimately obtain bm' zs where "merge_loop n (min ?y x) ?bm2 = Some bm'" "buddy_ok bm' n zs"
        "coalesced bm' n zs {}" "same_owned n ?bm2 bm'"
      using less.hyps [OF ys(5,1,2) _ ys(3)] by blast
    then show ?thesis unfolding e using same_owned_trans [OF ys(4)] by blast
  next
    case False
    then have e: "merge_loop n x bm = Some bm" by (subst merge_loop.simps) (auto simp: Let_def)
    have "coalesced bm n xs {}"
    proof (rule coalescedI, rule ccontr)
      fix z w assume z: "z \<in> set xs" and w: "w = PMEM_BUDDY_INDEX bm z" "w < n"
        and fr: "PMEM_IS_FREE bm z" "PMEM_IS_FREE bm w" and o: "PMEM_ORDER bm w = PMEM_ORDER bm z"
      have "z = x \<or> w = x" using coalescedD [OF less.prems(4) z] w fr o by auto
      then show False using False w fr o buddy_involution [OF o w(1)] by auto
    qed
    then show ?thesis using e less.prems(1) by auto
  qed
qed

subsection \<open>The search\<close>

text \<open>The reference for the search: the first of the smallest free blocks that are large enough.\<close>

definition fits :: "pmem_bitmap \<Rightarrow> nat \<Rightarrow> nat \<Rightarrow> bool" where
  "fits bm k x \<longleftrightarrow> PMEM_IS_FREE bm x \<and> k \<le> PMEM_ORDER bm x"

definition best_fit :: "pmem_bitmap \<Rightarrow> nat list \<Rightarrow> nat \<Rightarrow> int" where
  "best_fit bm xs k =
     (let ys = filter (fits bm k) xs in
      if ys = [] then - 1 else int (arg_min_list (PMEM_ORDER bm) ys))"

lemma arg_min_list_snoc:
  "xs \<noteq> [] \<Longrightarrow> arg_min_list f (xs @ [x]) = (if f x < f (arg_min_list f xs) then x else arg_min_list f xs)"
proof (induction xs rule: list_nonempty_induct)
  case (cons y ys)
  then obtain z zs where "ys = z # zs" by (cases ys) auto
  then show ?case using cons.IH by (auto simp: Let_def)
qed (auto simp: not_le)

lemma arg_min_list_first:
  "\<forall>u\<in>set us. f x < f u \<Longrightarrow> \<forall>v\<in>set vs. f x \<le> f v \<Longrightarrow> arg_min_list f (us @ x # vs) = x"
proof (induction us)
  case Nil
  then show ?case using arg_min_list_in [of vs f] by (cases vs) (auto simp: Let_def)
next
  case (Cons u us)
  then obtain z zs where z: "us @ x # vs = z # zs" by (cases "us @ x # vs") auto
  then show ?case using Cons by (auto simp: Let_def)
qed

lemma fit_loop_best:
  "tiling bm cur vs n \<Longrightarrow> r = best_fit bm us (k mod 256) \<Longrightarrow>
   \<forall>z\<in>set us. PMEM_IS_FREE bm z \<longrightarrow> PMEM_ORDER bm z \<noteq> k mod 256 \<Longrightarrow>
   fit_loop bm n k cur r = best_fit bm (us @ vs) (k mod 256)"
proof (induction vs arbitrary: cur us r)
  case Nil
  then show ?case by (simp add: fit_loop.simps)
next
  case (Cons x vs)
  let ?k = "k mod 256" and ?o = "PMEM_ORDER bm cur"
  let ?fs = "filter (fits bm ?k)"
  let ?r = "if PMEM_IS_FREE bm cur \<and> ?k < ?o \<and> (r < 0 \<or> ?o < PMEM_ORDER bm (nat r)) then int cur else r"
  from Cons have x: "x = cur" and t: "tiling bm (PMEM_NEXT_INDEX bm cur) vs n"
    by (simp_all add: PMEM_NEXT_INDEX_def)
  have lt: "cur < n" using tiling_less [OF Cons.prems(1), of x] x by simp
  show ?case
  proof (cases "PMEM_IS_FREE bm cur \<and> ?o = ?k")
    case True
    then have "fit_loop bm n k cur r = int cur" using lt by (subst fit_loop.simps) simp
    moreover have "\<forall>u\<in>set (?fs us). ?o < PMEM_ORDER bm u" "\<forall>v\<in>set (?fs vs). ?o \<le> PMEM_ORDER bm v"
      using Cons.prems(3) True by (auto simp: fits_def le_less)
    then have "arg_min_list (PMEM_ORDER bm) (?fs us @ cur # ?fs vs) = cur" by (rule arg_min_list_first)
    ultimately show ?thesis using True x by (simp add: best_fit_def fits_def)
  next
    case False
    then have e: "fit_loop bm n k cur r = fit_loop bm n k (PMEM_NEXT_INDEX bm cur) ?r"
      using lt by (subst fit_loop.simps) auto
    have "?r = best_fit bm (us @ [x]) ?k"
    proof (cases "fits bm ?k cur")
      case c: True
      then have k: "PMEM_IS_FREE bm cur" "?k < ?o" using False by (auto simp: fits_def)
      show ?thesis
      proof (cases "?fs us = []")
        case True
        then show ?thesis using c x k Cons.prems(2) by (simp add: best_fit_def)
      next
        case False
        then show ?thesis using c x k Cons.prems(2) arg_min_list_snoc [OF False, of "PMEM_ORDER bm" cur]
          by (simp add: best_fit_def Let_def)
      qed
    next
      case c: False
      then show ?thesis using x Cons.prems(2) by (auto simp: best_fit_def fits_def)
    qed
    moreover have "\<forall>z\<in>set (us @ [x]). PMEM_IS_FREE bm z \<longrightarrow> PMEM_ORDER bm z \<noteq> ?k"
      using Cons.prems(3) False x by auto
    ultimately have "fit_loop bm n k (PMEM_NEXT_INDEX bm cur) ?r = best_fit bm ((us @ [x]) @ vs) ?k"
      using Cons.IH [OF t] by blast
    then show ?thesis unfolding e by simp
  qed
qed

lemma best_fit_mem:
  assumes "0 \<le> best_fit bm xs k"
  shows "nat (best_fit bm xs k) \<in> set xs \<and> fits bm k (nat (best_fit bm xs k))"
proof -
  let ?ys = "filter (fits bm k) xs"
  have "?ys \<noteq> []" "best_fit bm xs k = int (arg_min_list (PMEM_ORDER bm) ?ys)"
    using assms by (auto simp: best_fit_def Let_def split: if_splits)
  then show ?thesis using arg_min_list_in [of ?ys "PMEM_ORDER bm"] by auto
qed

subsection \<open>Orders of lengths\<close>

lemma drop_bit_0_iff: "drop_bit k (w::u32) = 0 \<longleftrightarrow> unat w < 2 ^ k"
proof -
  have "drop_bit k w = 0 \<longleftrightarrow> unat (drop_bit k w) = 0" by (simp only: unat_eq_zero)
  also have "unat (drop_bit k w) = drop_bit k (unat w)" 
    by (rule bit_eqI) (auto simp: bit_unsigned_iff bit_drop_bit_eq dest: bit_imp_le_length)
  finally show ?thesis by (simp add: drop_bit_eq_div div_eq_0_iff)
qed

lemma order_loop_le: "i \<le> 32 \<Longrightarrow> order_loop len i \<le> 32"
proof (induction len i rule: order_loop.induct)
  case (1 len i)
  then show ?case by (subst order_loop.simps) simp
qed

lemma order_loop_spec:
  "i \<le> 32 \<Longrightarrow> (\<And>j. j < i \<Longrightarrow> drop_bit j len \<noteq> 0) \<Longrightarrow> order_loop len i = k \<Longrightarrow>
   drop_bit k len = 0 \<and> (\<forall>j<k. drop_bit j len \<noteq> 0)"
proof (induction len i rule: order_loop.induct)
  case (1 len i)
  show ?case
  proof (cases "i < 32 \<and> drop_bit i len \<noteq> 0")
    case True
    then have "order_loop len (Suc i) = k" using "1.prems"(3) by (subst (asm) order_loop.simps) simp
    then show ?thesis using "1.IH" True "1.prems"(2) by (auto simp: less_Suc_eq)
  next
    case False
    then have "i = k" using "1.prems"(3) by (subst (asm) order_loop.simps) (auto split: if_splits)
    moreover have "drop_bit i len = 0"
      using False "1.prems"(1) unsigned_less [of len, where 'a = nat] by (cases "i = 32") (auto simp: drop_bit_0_iff)
    ultimately show ?thesis using "1.prems"(2) by blast
  qed
qed

lemma pmem_order_pages:
  assumes "0 < len" "unat len \<le> 2 ^ 32 - 4096"
  shows "unat ((len + PMEM_MIN_ALLOC - 1) div PMEM_MIN_ALLOC - 1) = (unat len - 1) div 4096"
proof -
  have "unat (len + 4095) = unat len + 4095" using assms(2) by (simp add: unat_word_ariths)
  then have "unat ((len + 4095) div 4096) = (unat len + 4095) div 4096" by (simp add: unat_div)
  moreover have "0 < unat len" using assms(1) by (simp add: word_less_nat_alt)
  then obtain m where m: "unat len = Suc m" by (cases "unat len") auto
  ultimately have p: "unat ((len + 4095) div 4096) = Suc (m div 4096)" by simp
  then have "(0::u32) < (len + 4095) div 4096" unfolding word_less_nat_alt by (simp only: p) simp
  then have "unat ((len + 4095) div 4096 - 1) = m div 4096" using unat_minus_one_less p by fastforce
  then show ?thesis unfolding PMEM_MIN_ALLOC_def m by (simp add: add.commute)
qed

lemma pmem_order_fits:
  assumes "0 < len" "unat len \<le> 2 ^ 32 - 4096"
  shows "unat len \<le> 2 ^ pmem_order len * 4096 \<and> pmem_order len \<le> 20 \<and>
    (\<forall>j < pmem_order len. 2 ^ j * 4096 < unat len)"
proof -
  let ?w = "(len + PMEM_MIN_ALLOC - 1) div PMEM_MIN_ALLOC - 1" and ?k = "pmem_order len"
  have "0 < unat len" using assms(1) by (simp add: word_less_nat_alt)
  have iff: "drop_bit k ?w = 0 \<longleftrightarrow> unat len \<le> 2 ^ k * 4096" for k
  proof -
    have "drop_bit k ?w = 0 \<longleftrightarrow> (unat len - 1) div 4096 < 2 ^ k"
      unfolding drop_bit_0_iff pmem_order_pages [OF assms] ..
    also have "\<dots> \<longleftrightarrow> unat len - 1 < 2 ^ k * 4096" by (simp add: div_less_iff_less_mult)
    finally show ?thesis using \<open>0 < unat len\<close> by linarith
  qed
  have "order_loop ?w 0 = ?k" by (simp add: pmem_order_def Let_def)
  then have s: "drop_bit ?k ?w = 0" "\<forall>j<?k. drop_bit j ?w \<noteq> 0" using order_loop_spec [of 0 ?w ?k] by auto
  have "?k \<le> 20"
  proof (rule ccontr)
    assume "\<not> ?k \<le> 20"
    then have "drop_bit 20 ?w \<noteq> 0" using s(2) by simp
    then show False unfolding iff using assms(2) by simp
  qed
  then show ?thesis using s unfolding iff by (auto simp: not_le)
qed

lemma pmem_order_huge:
  assumes "len = 0 \<or> 2 ^ 32 - 4096 < unat len"
  shows "pmem_order len = 32"
proof -
  let ?w = "(len + PMEM_MIN_ALLOC - 1) div PMEM_MIN_ALLOC - 1" and ?k = "pmem_order len"
  have "unat (len + 4095) < 4096"
  proof (cases "len = 0")
    case False
    then have "2 ^ 32 - 4096 < unat len" using assms by simp
    moreover have "unat len < 2 ^ 32" using unsigned_less [of len, where 'a = nat] by simp
    ultimately show ?thesis by (auto simp: unat_word_ariths mod_if)
  qed simp
  then have "(len + 4095) div 4096 = 0" by (simp add: unat_div word_unat_eq_iff)
  then have w: "?w = - 1" by (simp add: PMEM_MIN_ALLOC_def add.commute)
  have "order_loop ?w 0 = ?k" by (simp add: pmem_order_def Let_def)
  then have "drop_bit ?k ?w = 0" "?k \<le> 32" using order_loop_spec [of 0 ?w ?k] order_loop_le [of 0 ?w] by auto
  then have "(2::nat) ^ 32 - 1 < 2 ^ ?k" unfolding w drop_bit_0_iff by (simp add: unsigned_minus_1_eq_mask mask_eq_exp_minus_1)
  then have "(2::nat) ^ 32 \<le> 2 ^ ?k" by linarith
  then have "32 \<le> ?k" by (rule power_le_imp_le_exp [rotated]) simp
  with \<open>?k \<le> 32\<close> show ?thesis by simp
qed

subsection \<open>The layout of a bitmap without allocations\<close>

fun setup_layout :: "nat \<Rightarrow> nat \<Rightarrow> nat \<Rightarrow> (nat \<times> nat) list" where
  "setup_layout n 0 index = []"
| "setup_layout n (Suc i) index =
     (if bit n i then (index, i) # setup_layout n i (index + 2 ^ i) else setup_layout n i index)"

abbreviation decreasing :: "pmem_bitmap \<Rightarrow> nat list \<Rightarrow> bool" where
  "decreasing bm xs \<equiv> sorted_wrt (\<lambda>x y. PMEM_ORDER bm y < PMEM_ORDER bm x) xs"

lemma tiling_dvd: "tiling bm a xs b \<Longrightarrow> 2 ^ q dvd a \<Longrightarrow> \<forall>x\<in>set xs. q \<le> PMEM_ORDER bm x \<Longrightarrow> 2 ^ q dvd b"
proof (induction xs arbitrary: a)
  case (Cons x xs)
  then have "(2::nat) ^ q dvd 2 ^ PMEM_ORDER bm a" by (simp add: le_imp_power_dvd)
  then show ?case using Cons by auto
qed simp

lemma coalesced_decreasing:
  assumes t: "tiling bm 0 xs n" and c: "coalesced bm n xs {}" and f: "\<forall>x\<in>set xs. PMEM_IS_FREE bm x"
    and "xs = us @ vs"
  shows "decreasing bm us"
  using assms(4)
proof (induction us arbitrary: vs rule: rev_induct)
  case (snoc y us)
  then have d: "decreasing bm us" and xs: "xs = us @ y # vs" by simp_all
  show ?case
  proof (cases us rule: rev_cases)
    case (snoc ws x)
    let ?p = "PMEM_ORDER bm x"
    have "tiling bm 0 (ws @ x # y # vs) n" using t xs snoc by simp
    then have w: "tiling bm 0 ws x" "2 ^ ?p dvd x" "y = x + 2 ^ ?p" "2 ^ PMEM_ORDER bm y dvd y"
      by (auto simp: tiling_append)
    have "\<forall>z\<in>set ws. Suc ?p \<le> PMEM_ORDER bm z" using d snoc by (auto simp: sorted_wrt_append)
    then have dx: "2 ^ Suc ?p dvd x" using tiling_dvd [OF w(1), of "Suc ?p"] by (simp del: power_Suc)
    then have b: "PMEM_BUDDY_INDEX bm x = y" using buddy_cases [OF w(2)] w(3) by (auto simp: PMEM_BUDDY_INDEX_def)
    have m: "x \<in> set xs" "y \<in> set xs" using xs snoc by auto
    have "PMEM_ORDER bm y \<noteq> ?p"
      using coalescedD [OF c m(1)] f m tiling_less [OF t m(2)] unfolding b by auto
    moreover have "\<not> ?p < PMEM_ORDER bm y"
    proof
      assume "?p < PMEM_ORDER bm y"
      then have "(2::nat) ^ Suc ?p dvd 2 ^ PMEM_ORDER bm y" by (simp add: le_imp_power_dvd del: power_Suc)
      then have "2 ^ Suc ?p dvd x + 2 ^ ?p" using w(3,4) dvd_trans by blast
      then have "2 ^ Suc ?p dvd (2::nat) ^ ?p" using dx dvd_add_right_iff by blast
      then show False by (simp add: dvd_power_iff_le del: power_Suc)
    qed
    ultimately have "PMEM_ORDER bm y < ?p" by simp
    then show ?thesis using d snoc by (auto simp: sorted_wrt_append)
  qed simp
qed simp

lemma decreasing_bound:
  "tiling bm a xs b \<Longrightarrow> decreasing bm xs \<Longrightarrow> \<forall>x\<in>set xs. PMEM_ORDER bm x < i \<Longrightarrow> b < a + 2 ^ i"
proof (induction xs arbitrary: a i)
  case (Cons x xs)
  then have x: "x = a" "PMEM_ORDER bm a < i" and t: "tiling bm (a + 2 ^ PMEM_ORDER bm a) xs b" by auto
  have "b < a + 2 ^ PMEM_ORDER bm a + 2 ^ PMEM_ORDER bm a"
    by (rule Cons.IH [OF t]) (use Cons.prems x in auto)
  moreover have "(2::nat) ^ Suc (PMEM_ORDER bm a) \<le> 2 ^ i" using x(2) by (intro power_increasing) auto
  ultimately show ?case by simp
qed simp

lemma div_bit: "(n::nat) div 2 ^ i * 2 ^ i = n div 2 ^ Suc i * 2 ^ Suc i + (if bit n i then 2 ^ i else 0)"
proof -
  have "n div 2 ^ Suc i = n div 2 ^ i div 2" by (simp only: power_Suc2 div_mult2_eq)
  then have "n div 2 ^ i = 2 * (n div 2 ^ Suc i) + of_bool (bit n i)"
    using mult_div_mod_eq [of 2 "n div 2 ^ i"] by (simp only: bit_iff_odd mod_2_eq_odd)
  then show ?thesis by (simp add: algebra_simps)
qed

lemma decreasing_layout:
  "tiling bm a xs n \<Longrightarrow> decreasing bm xs \<Longrightarrow> \<forall>x\<in>set xs. PMEM_ORDER bm x < i \<Longrightarrow> a = n div 2 ^ i * 2 ^ i \<Longrightarrow>
   map (\<lambda>x. (x, PMEM_ORDER bm x)) xs = setup_layout n i a"
proof (induction i arbitrary: a xs)
  case 0
  then show ?case by (cases xs) auto
next
  case (Suc i)
  note n = div_bit [of n i, folded Suc.prems(4)]
  have r: "n < n div 2 ^ i * 2 ^ i + 2 ^ i" "n div 2 ^ i * 2 ^ i \<le> n"
    using dividend_less_div_times [of "2 ^ i" n] by (simp_all add: add.commute)
  show ?case
  proof (cases "bit n i")
    case True
    then have e: "n div 2 ^ i * 2 ^ i = a + 2 ^ i" using n by simp
    obtain x ys where xs: "xs = x # ys" using Suc.prems(1) r e by (cases xs) auto
    have x: "x = a" and t: "tiling bm (a + 2 ^ PMEM_ORDER bm a) ys n" using Suc.prems(1) xs by auto
    have "PMEM_ORDER bm x = i"
    proof (rule ccontr)
      assume "PMEM_ORDER bm x \<noteq> i"
      then have "\<forall>z\<in>set xs. PMEM_ORDER bm z < i" using Suc.prems(2,3) xs by force
      then have "n < a + 2 ^ i" by (rule decreasing_bound [OF Suc.prems(1,2)])
      then show False using r e by simp
    qed
    then have k: "PMEM_ORDER bm a = i" using x by simp
    have "decreasing bm ys" "\<forall>x\<in>set ys. PMEM_ORDER bm x < i" using Suc.prems(2) xs x k by simp_all
    then have "map (\<lambda>x. (x, PMEM_ORDER bm x)) ys = setup_layout n i (a + 2 ^ i)"
      by (rule Suc.IH [OF t [unfolded k] _ _ e [symmetric]])
    then show ?thesis using True xs x k by simp
  next
    case False
    then have e: "n div 2 ^ i * 2 ^ i = a" using n by simp
    have "PMEM_ORDER bm z < i" if "z \<in> set xs" for z
    proof -
      have "(2::nat) ^ PMEM_ORDER bm z < 2 ^ i" using tiling_mem [OF Suc.prems(1) that] r e by linarith
      then show ?thesis by simp
    qed
    then have "map (\<lambda>x. (x, PMEM_ORDER bm x)) xs = setup_layout n i a"
      by (intro Suc.IH [OF Suc.prems(1,2) _ e [symmetric]]) blast
    then show ?thesis using False by simp
  qed
qed

subsection \<open>Set-up\<close>

lemma setup_loop_free [simp]: "PMEM_IS_FREE (setup_loop n i a bm) j = PMEM_IS_FREE bm j"
  by (induction i arbitrary: a bm) (auto simp: Let_def)

lemma setup_loop_below: "j < a \<Longrightarrow> setup_loop n i a bm j = bm j"
  by (induction i arbitrary: a bm) (auto simp: Let_def PMEM_NEXT_INDEX_def)

lemma setup_loop_above: "a = n div 2 ^ i * 2 ^ i \<Longrightarrow> n \<le> j \<Longrightarrow> setup_loop n i a bm j = bm j"
proof (induction i arbitrary: a bm)
  case (Suc i)
  note n = div_bit [of n i, folded Suc.prems(1)]
  show ?case
  proof (cases "bit n i")
    case True
    then have "n div 2 ^ i * 2 ^ i = a + 2 ^ i" using n by simp
    moreover have "n div 2 ^ i * 2 ^ i \<le> n" by simp
    ultimately have e: "a + 2 ^ i = n div 2 ^ i * 2 ^ i" and j: "a \<noteq> j"
      using Suc.prems(2) zero_less_power [of "2::nat" i] by linarith+
    then show ?thesis using True Suc.IH [OF e Suc.prems(2), of "set_order a i bm"]
      by (simp add: Let_def PMEM_NEXT_INDEX_def)
  next
    case False
    then have "a = n div 2 ^ i * 2 ^ i" using n by simp
    then show ?thesis using False Suc.IH [OF _ Suc.prems(2)] by simp
  qed
qed simp

lemma setup_loop_tiling:
  "a = n div 2 ^ i * 2 ^ i \<Longrightarrow>
   \<exists>xs. tiling (setup_loop n i a bm) a xs n \<and> decreasing (setup_loop n i a bm) xs \<and>
     (\<forall>x\<in>set xs. PMEM_ORDER (setup_loop n i a bm) x < i)"
proof (induction i arbitrary: a bm)
  case 0
  then show ?case by (intro exI [of _ "[]"]) simp
next
  case (Suc i)
  note n = div_bit [of n i, folded Suc.prems(1)]
  show ?case
  proof (cases "bit n i")
    case True
    then have e: "a + 2 ^ i = n div 2 ^ i * 2 ^ i" using n by simp
    let ?bm = "setup_loop n i (a + 2 ^ i) (set_order a i bm)"
    have s: "setup_loop n (Suc i) a bm = ?bm" using True by (simp add: Let_def PMEM_NEXT_INDEX_def)
    obtain xs where xs: "tiling ?bm (a + 2 ^ i) xs n" "decreasing ?bm xs" "\<forall>x\<in>set xs. PMEM_ORDER ?bm x < i"
      using Suc.IH [OF e] by blast
    have "?bm a = set_order a i bm a" by (rule setup_loop_below) simp
    then have o: "PMEM_ORDER ?bm a = i" by (simp add: PMEM_ORDER_def set_order_def)
    have "a = n div 2 ^ Suc i * 2 * 2 ^ i" using Suc.prems by simp
    then have "2 ^ i dvd a" using dvd_triv_right by metis
    then have "tiling ?bm a (a # xs) n" using xs(1) o by simp
    then show ?thesis unfolding s using xs(2,3) o by (intro exI [of _ "a # xs"]) auto
  next
    case False
    then have e: "a = n div 2 ^ i * 2 ^ i" using n by simp
    have s: "setup_loop n (Suc i) a bm = setup_loop n i a bm" using False by simp
    show ?thesis unfolding s using Suc.IH [OF e, of bm] less_Suc_eq by blast
  qed
qed

lemma decreasing_coalesced:
  assumes "tiling bm 0 xs n" "decreasing bm xs"
  shows "coalesced bm n xs {}"
proof (rule coalescedI)
  fix x y assume x: "x \<in> set xs" and y: "y = PMEM_BUDDY_INDEX bm x" "y < n"
    and o: "PMEM_ORDER bm y = PMEM_ORDER bm x"
  have "y \<in> set xs" using buddy_is_block [OF assms(1) x] y by simp
  moreover have "x \<noteq> y" using buddy_cases [of "PMEM_ORDER bm x" x] tiling_mem [OF assms(1) x] y
    by (auto simp: PMEM_BUDDY_INDEX_def)
  ultimately obtain i j where "i < length xs" "j < length xs" "i \<noteq> j" "x = xs ! i" "y = xs ! j"
    using x by (metis in_set_conv_nth)
  then have "PMEM_ORDER bm y \<noteq> PMEM_ORDER bm x"
    using sorted_wrt_nth_less [OF assms(2), of i j] sorted_wrt_nth_less [OF assms(2), of j i]
    by (cases "i < j") auto
  then show "x \<in> {} \<or> y \<in> {}" using o by simp
qed

subsection \<open>The state of a device\<close>

definition pmem_ok :: "pmem_info \<Rightarrow> bool" where
  "pmem_ok d \<longleftrightarrow>
     (let bm = bitmap d; n = num_entries d; xs = blocks bm n 0 in
      \<not> no_allocator d \<and> buddy_ok bm n xs \<and> coalesced bm n xs {} \<and> foreign_ok bm n)"

definition owned :: "pmem_info \<Rightarrow> nat \<rightharpoonup> nat" where
  "owned d i =
     (if i < num_entries d \<and> \<not> PMEM_IS_FREE (bitmap d) i then Some (PMEM_ORDER (bitmap d) i) else None)"

lemma pmem_okI:
  "\<not> no_allocator d \<Longrightarrow> buddy_ok (bitmap d) (num_entries d) xs \<Longrightarrow>
   coalesced (bitmap d) (num_entries d) xs {} \<Longrightarrow> foreign_ok (bitmap d) (num_entries d) \<Longrightarrow> pmem_ok d"
  using tiling_blocks [of "bitmap d" 0 xs "num_entries d"] by (simp add: pmem_ok_def Let_def buddy_ok_def)

lemma pmem_okE:
  assumes "pmem_ok d"
  obtains xs where "\<not> no_allocator d" "buddy_ok (bitmap d) (num_entries d) xs"
    "coalesced (bitmap d) (num_entries d) xs {}" "foreign_ok (bitmap d) (num_entries d)"
    "xs = blocks (bitmap d) (num_entries d) 0"
  using assms by (auto simp: pmem_ok_def Let_def)

lemma owned_block:
  assumes "buddy_ok (bitmap d) (num_entries d) xs" "owned d i = Some k"
  shows "i \<in> set xs \<and> PMEM_ORDER (bitmap d) i = k \<and> \<not> PMEM_IS_FREE (bitmap d) i \<and> i < num_entries d"
  using assms by (auto simp: buddy_ok_def owned_def split: if_splits)

lemma coalesced_mono: "coalesced bm n xs X \<Longrightarrow> X \<subseteq> Y \<Longrightarrow> coalesced bm n xs Y"
  by (rule coalescedI) (use coalescedD [of bm n xs X] in blast)

lemma same_ownedD:
  assumes "same_owned n bm bm'"
  shows "PMEM_IS_FREE bm' i = PMEM_IS_FREE bm i"
    and "\<not> PMEM_IS_FREE bm i \<Longrightarrow> PMEM_ORDER bm' i = PMEM_ORDER bm i"
  using assms by (auto simp: same_owned_def PMEM_ORDER_def)

lemma pmem_order_le: "pmem_order len \<le> 32"
  by (simp add: pmem_order_def Let_def order_loop_le)

lemma pmem_allocate_succeeds:
  assumes ok: "pmem_ok d" and a: "pmem_allocate len d = (r, d')" and r: "0 \<le> r"
  shows "pmem_ok d' \<and> owned d (nat r) = None \<and> owned d' = (owned d)(nat r \<mapsto> pmem_order len) \<and>
    d' = d\<lparr>bitmap := bitmap d'\<rparr> \<and>
    r = best_fit (bitmap d) (blocks (bitmap d) (num_entries d) 0) (pmem_order len)"
proof -
  let ?bm = "bitmap d" and ?n = "num_entries d" and ?k = "pmem_order len" and ?x = "nat r"
  obtain xs where d: "\<not> no_allocator d" "buddy_ok ?bm ?n xs" "coalesced ?bm ?n xs {}" "foreign_ok ?bm ?n"
      "xs = blocks ?bm ?n 0" using ok by (rule pmem_okE)
  have k: "?k mod 256 = ?k" "\<not> PMEM_MAX_ORDER < ?k"
    using pmem_order_le [of len] by (simp_all add: PMEM_MAX_ORDER_def)
  have t: "tiling ?bm 0 xs ?n" using d(2) by (simp add: buddy_ok_def)
  have fit: "r = fit_loop ?bm ?n ?k 0 (- 1)"
    and d': "d' = d\<lparr>bitmap := set_allocated ?x True (split_loop ?k ?x ?bm)\<rparr>"
    using a d(1) k r by (auto simp: pmem_allocate_def Let_def split: if_splits)
  have best: "r = best_fit ?bm xs ?k"
    using fit_loop_best [OF t, of "- 1" "[]" ?k] fit k by (simp add: best_fit_def)
  then have x: "?x \<in> set xs" "PMEM_IS_FREE ?bm ?x" "?k mod 256 \<le> PMEM_ORDER ?bm ?x"
    using best_fit_mem [of ?bm xs ?k] r k by (simp_all add: fits_def)
  let ?s = "split_loop ?k ?x ?bm"
  obtain ys where ys: "buddy_ok ?s ?n ys" "?x \<in> set ys" "coalesced ?s ?n ys {?x}" "same_owned ?n ?bm ?s"
      "PMEM_ORDER ?s ?x = ?k"
    using split_loop_ok [OF d(2) x coalesced_mono [OF d(3)]] k by auto
  let ?a = "set_allocated ?x True ?s"
  have "buddy_ok ?a ?n ys" using ys(1,2) tiling_cong [of ys ?a ?s] by (auto simp: buddy_ok_def)
  moreover have "coalesced ?a ?n ys {}"
  proof (rule coalescedI, rule ccontr)
    fix z w assume z: "z \<in> set ys" and w: "w = PMEM_BUDDY_INDEX ?a z" "w < ?n"
      "PMEM_IS_FREE ?a z" "PMEM_IS_FREE ?a w" "PMEM_ORDER ?a w = PMEM_ORDER ?a z"
    then show False using coalescedD [OF ys(3) z] by (auto simp: PMEM_BUDDY_INDEX_def split: if_splits)
  qed
  moreover have xn: "?x < ?n" by (rule tiling_less [OF t x(1)])
  then have "foreign_ok ?a ?n" using d(4) same_owned_foreign [OF ys(4)] by (simp add: foreign_ok_def)
  ultimately have "pmem_ok d'" by (intro pmem_okI [of _ ys]) (simp_all add: d' d(1))
  moreover have "owned d' = (owned d)(?x \<mapsto> ?k)"
    using xn ys(5) same_ownedD [OF ys(4)] by (auto simp: owned_def d' fun_eq_iff)
  moreover have "owned d ?x = None" using x(2) by (simp add: owned_def)
  ultimately show ?thesis using best d(5) d' by simp
qed

lemma pmem_allocate_fails:
  assumes ok: "pmem_ok d" and a: "pmem_allocate len d = (r, d')" and r: "r < 0"
  shows "r = - 1 \<and> d' = d \<and> r = best_fit (bitmap d) (blocks (bitmap d) (num_entries d) 0) (pmem_order len)"
proof -
  let ?bm = "bitmap d" and ?n = "num_entries d" and ?k = "pmem_order len"
  obtain xs where d: "\<not> no_allocator d" "buddy_ok ?bm ?n xs" "xs = blocks ?bm ?n 0" using ok by (rule pmem_okE)
  have k: "?k mod 256 = ?k" "\<not> PMEM_MAX_ORDER < ?k"
    using pmem_order_le [of len] by (simp_all add: PMEM_MAX_ORDER_def)
  then have "r = - 1" "d' = d" "fit_loop ?bm ?n ?k 0 (- 1) < 0"
    using a d(1) r by (auto simp: pmem_allocate_def Let_def split: if_splits)
  moreover have t: "tiling ?bm 0 xs ?n" using d(2) by (simp add: buddy_ok_def)
  have "fit_loop ?bm ?n ?k 0 (- 1) = best_fit ?bm xs ?k"
    using fit_loop_best [OF t, of "- 1" "[]" ?k] k by (simp add: best_fit_def)
  ultimately show ?thesis using d(3) by (auto simp: best_fit_def Let_def split: if_splits)
qed

lemma pmem_free_succeeds:
  assumes ok: "pmem_ok d" and i: "owned d i = Some k"
  shows "\<exists>d'. pmem_free i d = Some d' \<and> pmem_ok d' \<and> owned d' = (owned d)(i := None) \<and>
    d' = d\<lparr>bitmap := bitmap d'\<rparr>"
proof -
  let ?n = "num_entries d" and ?bm = "set_allocated i False (bitmap d)"
  obtain xs where d: "\<not> no_allocator d" "buddy_ok (bitmap d) ?n xs" "coalesced (bitmap d) ?n xs {}"
      "foreign_ok (bitmap d) ?n" using ok by (rule pmem_okE)
  have x: "i \<in> set xs" "i < ?n" using owned_block [OF d(2) i] by auto
  have "buddy_ok ?bm ?n xs" using d(2) x tiling_cong [of xs ?bm "bitmap d"] by (auto simp: buddy_ok_def)
  moreover have "PMEM_IS_FREE ?bm i" by simp
  moreover have "coalesced ?bm ?n xs {i}"
  proof (rule coalescedI, rule ccontr)
    fix z w assume z: "z \<in> set xs" and w: "w = PMEM_BUDDY_INDEX ?bm z" "w < ?n"
      "PMEM_IS_FREE ?bm z" "PMEM_IS_FREE ?bm w" "PMEM_ORDER ?bm w = PMEM_ORDER ?bm z" "\<not> (z \<in> {i} \<or> w \<in> {i})"
    then show False using coalescedD [OF d(3) z] by (auto simp: PMEM_BUDDY_INDEX_def)
  qed
  moreover have "foreign_ok ?bm ?n" using d(4) x(2) by (simp add: foreign_ok_def)
  ultimately obtain bm' ys where m: "merge_loop ?n i ?bm = Some bm'" "buddy_ok bm' ?n ys" "coalesced bm' ?n ys {}"
      "same_owned ?n ?bm bm'" using merge_loop_ok [OF _ x(1)] by blast
  let ?d = "d\<lparr>bitmap := bm'\<rparr>"
  have "pmem_free i d = Some ?d" using d(1) m(1) by (simp add: pmem_free_def)
  moreover have "pmem_ok ?d"
    by (rule pmem_okI [of _ ys]) (use m same_owned_foreign [OF m(4)] \<open>foreign_ok ?bm ?n\<close> d(1) in simp_all)
  moreover have "owned ?d = (owned d)(i := None)"
    using same_ownedD [OF m(4)] x(2) by (auto simp: owned_def fun_eq_iff)
  ultimately show ?thesis by (intro exI [of _ ?d]) simp
qed

lemma owned_disjoint:
  assumes ok: "pmem_ok d" and o: "owned d i = Some k" "owned d j = Some l" "i \<noteq> j"
  shows "{i..<i + 2 ^ k} \<inter> {j..<j + 2 ^ l} = {}"
proof -
  obtain xs where d: "buddy_ok (bitmap d) (num_entries d) xs" using ok by (rule pmem_okE)
  then have t: "tiling (bitmap d) 0 xs (num_entries d)" by (simp add: buddy_ok_def)
  have "i + 2 ^ k \<le> j \<or> j + 2 ^ l \<le> i"
    using tiling_disjoint [OF t] owned_block [OF d o(1)] owned_block [OF d o(2)] o(3) by (metis nat_neq_iff)
  then show ?thesis by auto
qed

lemma owned_range: "pmem_ok d \<Longrightarrow> owned d i = Some k \<Longrightarrow> i + 2 ^ k \<le> num_entries d \<and> 2 ^ k dvd i \<and> num_entries d \<le> 2 ^ 20"
proof -
  assume ok: "pmem_ok d" and o: "owned d i = Some k"
  obtain xs where d: "buddy_ok (bitmap d) (num_entries d) xs" using ok by (rule pmem_okE)
  then show ?thesis using owned_block [OF d o] tiling_mem [of "bitmap d" 0 xs "num_entries d" i] by (auto simp: buddy_ok_def)
qed

lemma free_layout:
  assumes ok: "pmem_ok d" and o: "owned d = Map.empty"
  shows "map (\<lambda>x. (x, PMEM_ORDER (bitmap d) x)) (blocks (bitmap d) (num_entries d) 0) = setup_layout (num_entries d) 32 0"
proof -
  let ?bm = "bitmap d" and ?n = "num_entries d"
  obtain xs where d: "buddy_ok ?bm ?n xs" "coalesced ?bm ?n xs {}" "xs = blocks ?bm ?n 0" using ok by (rule pmem_okE)
  then have t: "tiling ?bm 0 xs ?n" and n: "?n \<le> 2 ^ 20" by (simp_all add: buddy_ok_def)
  have f: "\<forall>x\<in>set xs. PMEM_IS_FREE ?bm x"
    using tiling_less [OF t] fun_cong [OF o] by (fastforce simp: owned_def split: if_splits)
  have dec: "decreasing ?bm xs" by (rule coalesced_decreasing [OF t d(2) f]) simp
  have "\<forall>x\<in>set xs. PMEM_ORDER ?bm x < 32" using tiling_order [OF t n] by force
  moreover have "0 = ?n div 2 ^ 32 * 2 ^ 32" using n by simp
  ultimately show ?thesis using decreasing_layout [OF t dec] d(3) by simp
qed

subsection \<open>The interface of a block allocator\<close>

locale block_allocator =
  fixes alloc :: "'l \<Rightarrow> 'd \<Rightarrow> int \<times> 'd"
    and free :: "nat \<Rightarrow> 'd \<Rightarrow> 'd option"
    and own :: "'d \<Rightarrow> nat \<rightharpoonup> nat"
    and ok :: "'d \<Rightarrow> bool"
  assumes alloc_fail: "ok d \<Longrightarrow> alloc l d = (r, d') \<Longrightarrow> r < 0 \<Longrightarrow> d' = d"
    and alloc_new: "ok d \<Longrightarrow> alloc l d = (r, d') \<Longrightarrow> 0 \<le> r \<Longrightarrow>
      ok d' \<and> own d (nat r) = None \<and> (\<exists>k. own d' = (own d)(nat r \<mapsto> k))"
    and free_own: "ok d \<Longrightarrow> own d i = Some k \<Longrightarrow>
      \<exists>d'. free i d = Some d' \<and> ok d' \<and> own d' = (own d)(i := None)"
    and separate: "ok d \<Longrightarrow> own d i = Some k \<Longrightarrow> own d j = Some l' \<Longrightarrow> i \<noteq> j \<Longrightarrow>
      {i..<i + 2 ^ k} \<inter> {j..<j + 2 ^ l'} = {}"
begin

lemma alloc_ok: "ok d \<Longrightarrow> alloc l d = (r, d') \<Longrightarrow> ok d'"
  using alloc_fail alloc_new by (cases "r < 0") (auto simp: not_less)

lemma alloc_keeps: "ok d \<Longrightarrow> alloc l d = (r, d') \<Longrightarrow> own d i = Some k \<Longrightarrow> own d' i = Some k \<and> int i \<noteq> r"
  using alloc_fail [of d l r d'] alloc_new [of d l r d'] by (cases "r < 0") (auto simp: not_less)

lemma free_keeps: "ok d \<Longrightarrow> own d i = Some k \<Longrightarrow> free i d = Some d' \<Longrightarrow>
    ok d' \<and> own d' i = None \<and> (\<forall>j. j \<noteq> i \<longrightarrow> own d' j = own d j)"
  using free_own [of d i k] by auto

lemma alloc_free: "ok d \<Longrightarrow> alloc l d = (r, d') \<Longrightarrow> 0 \<le> r \<Longrightarrow>
    \<exists>d''. free (nat r) d' = Some d'' \<and> ok d'' \<and> own d'' = own d"
proof -
  assume a: "ok d" "alloc l d = (r, d')" "0 \<le> r"
  then obtain k where k: "ok d'" "own d (nat r) = None" "own d' = (own d)(nat r \<mapsto> k)"
    using alloc_new by blast
  then obtain d'' where "free (nat r) d' = Some d''" "ok d''" "own d'' = (own d')(nat r := None)"
    using free_own [of d' "nat r" k] by auto
  then show ?thesis using k by (auto simp: fun_upd_idem)
qed

end

interpretation palloc: block_allocator pmem_allocate pmem_free owned pmem_ok
proof unfold_locales
  fix d l r d' assume "pmem_ok d" "pmem_allocate l d = (r, d')" "r < 0"
  then show "d' = d" using pmem_allocate_fails by blast
next
  fix d l r d' assume "pmem_ok d" "pmem_allocate l d = (r, d')" "0 \<le> r"
  then show "pmem_ok d' \<and> owned d (nat r) = None \<and> (\<exists>k. owned d' = (owned d)(nat r \<mapsto> k))"
    using pmem_allocate_succeeds by blast
next
  fix d i k assume "pmem_ok d" "owned d i = Some k"
  then show "\<exists>d'. pmem_free i d = Some d' \<and> pmem_ok d' \<and> owned d' = (owned d)(i := None)"
    using pmem_free_succeeds by blast
qed (rule owned_disjoint)

lemma pmem_allocate_frame:
  "pmem_ok d \<Longrightarrow> pmem_allocate len d = (r, d') \<Longrightarrow> d' = d\<lparr>bitmap := bitmap d'\<rparr>"
  using pmem_allocate_fails [of d len r d'] pmem_allocate_succeeds [of d len r d'] by (cases "r < 0") auto

lemma pmem_free_frame:
  "pmem_ok d \<Longrightarrow> owned d i = Some k \<Longrightarrow> pmem_free i d = Some d' \<Longrightarrow> d' = d\<lparr>bitmap := bitmap d'\<rparr>"
  using pmem_free_succeeds [of d i k] by auto

subsection \<open>A bitmap after set-up\<close>

definition bitmap_init :: "nat \<Rightarrow> pmem_bitmap \<Rightarrow> pmem_bitmap" where
  "bitmap_init n mem =
     setup_loop n 32 0 (\<lambda>i. if i < n then \<lparr>bit_allocated = False, bit_order = 0\<rparr> else mem i)"

lemma bitmap_init_ok:
  assumes n: "num_entries d \<le> 2 ^ 20" and d: "\<not> no_allocator d" "bitmap d = bitmap_init (num_entries d) mem"
    and f: "foreign_ok mem (num_entries d)"
  shows "pmem_ok d \<and> owned d = Map.empty"
proof -
  let ?n = "num_entries d" and ?bm = "bitmap d"
  let ?z = "\<lambda>i. if i < ?n then \<lparr>bit_allocated = False, bit_order = 0\<rparr> else mem i"
  have z: "0 = ?n div 2 ^ 32 * 2 ^ 32" using n by simp
  obtain xs where t: "tiling ?bm 0 xs ?n" "decreasing ?bm xs"
    unfolding d(2) bitmap_init_def using setup_loop_tiling [OF z, of ?z] by blast
  have fr: "PMEM_IS_FREE ?bm i" if "i < ?n" for i
    using that by (simp add: d(2) bitmap_init_def) (simp add: PMEM_IS_FREE_def)
  have "?bm ?n = mem ?n" using setup_loop_above [OF z, of ?n ?z] by (simp add: d(2) bitmap_init_def)
  then have "foreign_ok ?bm ?n" using f by (simp add: foreign_ok_def PMEM_IS_FREE_def PMEM_ORDER_def)
  moreover have "buddy_ok ?bm ?n xs" using t n fr by (simp add: buddy_ok_def)
  ultimately have "pmem_ok d" using d(1) decreasing_coalesced [OF t] by (intro pmem_okI [of d xs])
  moreover have "owned d = Map.empty" using fr by (auto simp: owned_def)
  ultimately show ?thesis by blast
qed

inductive pmem_alloc_run :: "pmem_info \<Rightarrow> pmem_info \<Rightarrow> bool" where
  run_start: "pmem_alloc_run d d"
| run_allocate: "pmem_alloc_run d d1 \<Longrightarrow> pmem_allocate len d1 = (r, d2) \<Longrightarrow> pmem_alloc_run d d2"
| run_free: "pmem_alloc_run d d1 \<Longrightarrow> owned d1 i \<noteq> None \<Longrightarrow> pmem_free i d1 = Some d2 \<Longrightarrow> pmem_alloc_run d d2"

lemma pmem_alloc_run_ok: "pmem_alloc_run d d' \<Longrightarrow> pmem_ok d \<Longrightarrow> pmem_ok d' \<and> d' = d\<lparr>bitmap := bitmap d'\<rparr>"
proof (induction rule: pmem_alloc_run.induct)
  case (run_allocate d d1 len r d2)
  then have "pmem_ok d2" "d2 = d1\<lparr>bitmap := bitmap d2\<rparr>" "d1 = d\<lparr>bitmap := bitmap d1\<rparr>"
    using palloc.alloc_ok pmem_allocate_frame by blast+
  then show ?case by (metis pmem_info.update_convs(7) pmem_info.surjective)
next
  case (run_free d d1 i d2)
  then obtain k where "owned d1 i = Some k" by auto
  then have "pmem_ok d2" "d2 = d1\<lparr>bitmap := bitmap d2\<rparr>" "d1 = d\<lparr>bitmap := bitmap d1\<rparr>"
    using run_free palloc.free_keeps pmem_free_frame by blast+
  then show ?case by (metis pmem_info.update_convs(7) pmem_info.surjective)
qed simp

subsection \<open>Properties\<close>

definition sample_pmem :: pmem_info where
  "sample_pmem = \<lparr>dev_minor = 1, pmem_base = 0x50000000, pmem_vbase = 0xD0000000, pmem_size = 0x5000, num_entries = 5,
     garbage_pfn = 0x999, bitmap = bitmap_init 5 (\<lambda>i. \<lparr>bit_allocated = True, bit_order = 0\<rparr>),
     no_allocator = False, cached = True, buffered = True, allocated = False, data_list = []\<rparr>"

lemma sample_pmem_ok: "pmem_ok sample_pmem \<and> owned sample_pmem = Map.empty"
  by (rule bitmap_init_ok [where mem = "\<lambda>i. \<lparr>bit_allocated = True, bit_order = 0\<rparr>"])
    (simp_all add: sample_pmem_def foreign_ok_def PMEM_IS_FREE_def)

text \<open>C1: on a well-formed device \<open>pmem_allocate\<close> returns what the reference search
  \<open>best_fit\<close> finds: the first of the smallest free blocks that hold the request, or -1 if there
  is none, and then nothing changes.  On success the block it carves out is exactly of the order
  of the request, aligned, inside the device, large enough for the length, disjoint from all
  blocks in use, and the only change of the ownership map; the device stays well-formed.\<close>

theorem pmem_allocate_best_fit:
  assumes "pmem_ok d" and "pmem_allocate len d = (r, d')"
  shows "r = best_fit (bitmap d) (blocks (bitmap d) (num_entries d) 0) (pmem_order len) \<and>
    (r < 0 \<longrightarrow> d' = d) \<and>
    (0 \<le> r \<longrightarrow> pmem_ok d' \<and> owned d (nat r) = None \<and> owned d' = (owned d)(nat r \<mapsto> pmem_order len) \<and>
       nat r + 2 ^ pmem_order len \<le> num_entries d \<and> 2 ^ pmem_order len dvd nat r \<and>
       unat len \<le> 2 ^ pmem_order len * 4096 \<and>
       (\<forall>i k. owned d i = Some k \<longrightarrow> {i..<i + 2 ^ k} \<inter> {nat r..<nat r + 2 ^ pmem_order len} = {}))"
proof (cases "r < 0")
  case True
  then show ?thesis using pmem_allocate_fails [OF assms] by simp
next
  case False
  let ?k = "pmem_order len"
  from False have s: "pmem_ok d'" "owned d (nat r) = None" "owned d' = (owned d)(nat r \<mapsto> ?k)"
    "d' = d\<lparr>bitmap := bitmap d'\<rparr>" "r = best_fit (bitmap d) (blocks (bitmap d) (num_entries d) 0) ?k"
    using pmem_allocate_succeeds [OF assms] by auto
  have n: "num_entries d' = num_entries d" by (subst s(4)) simp
  have o: "owned d' (nat r) = Some ?k" using s(3) by simp
  have rng: "nat r + 2 ^ ?k \<le> num_entries d" "2 ^ ?k dvd nat r" "num_entries d \<le> 2 ^ 20"
    using owned_range [OF s(1) o] n by auto
  have "\<not> (len = 0 \<or> 2 ^ 32 - 4096 < unat len)"
  proof
    assume "len = 0 \<or> 2 ^ 32 - 4096 < unat len"
    then have "?k = 32" by (rule pmem_order_huge)
    then show False using rng by simp
  qed
  then have "unat len \<le> 2 ^ ?k * 4096" using pmem_order_fits [of len] by (simp add: word_neq_0_conv [symmetric] not_less)
  moreover have "{i..<i + 2 ^ k} \<inter> {nat r..<nat r + 2 ^ ?k} = {}" if "owned d i = Some k" for i k
  proof -
    have ne: "i \<noteq> nat r" using s(2) that by auto
    then have "owned d' i = Some k" using s(3) that by simp
    then show ?thesis using palloc.separate [OF s(1) _ o ne] by blast
  qed
  ultimately show ?thesis using False s rng by auto
qed

theorem pmem_allocate_best_fit_witness:
  "pmem_ok sample_pmem \<and> fst (pmem_allocate 8192 sample_pmem) = 0 \<and>
   owned (snd (pmem_allocate 8192 sample_pmem)) = [0 \<mapsto> 1] \<and> fst (pmem_allocate 4096 sample_pmem) = 4"
proof -
  have v: "fst (pmem_allocate 8192 sample_pmem) = 0" "pmem_order 8192 = 1" "fst (pmem_allocate 4096 sample_pmem) = 4"
    by code_simp+
  have "pmem_allocate 8192 sample_pmem = (0, snd (pmem_allocate 8192 sample_pmem))" using v(1) by (metis prod.collapse)
  from pmem_allocate_best_fit [OF _ this] show ?thesis using sample_pmem_ok v by simp
qed





text \<open>C35: \<open>pmem_free\<close> checks the end of the bitmap for the block it has merged, not for the buddy
  it reads.  When the block at the end of the bitmap is freed and the byte behind the bitmap
  looks like a free entry of that order, the byte is overwritten and the freed block extends
  beyond the memory of the device.\<close>

theorem pmem_free_out_of_bounds:
  assumes "\<not> no_allocator d" "num_entries d = i + 2 ^ k" "2 ^ Suc k dvd i" "k < 20"
    and "PMEM_ORDER (bitmap d) i = k"
    and "PMEM_IS_FREE (bitmap d) (num_entries d)" "PMEM_ORDER (bitmap d) (num_entries d) = k"
    and "\<not> PMEM_IS_FREE (bitmap d) (i XOR 2 ^ Suc k)"
  shows "\<exists>d'. pmem_free i d = Some d' \<and>
    bitmap d' (num_entries d) = (bitmap d (num_entries d))\<lparr>bit_order := Suc k\<rparr> \<and>
    PMEM_IS_FREE (bitmap d') i \<and> num_entries d' < i + 2 ^ PMEM_ORDER (bitmap d') i"
proof -
  let ?n = "num_entries d" and ?bm = "set_allocated i False (bitmap d)"
  let ?b1 = "set_order ?n (Suc k) ?bm"
  let ?b2 = "set_order i (Suc k) ?b1"
  have "2 ^ k dvd i" using assms(3) by (rule dvd_trans [rotated]) (simp add: le_imp_power_dvd)
  then have b: "i XOR 2 ^ k = ?n" using buddy_cases [of k i] assms(2,3) by auto
  have ne: "i \<noteq> ?n" "?n \<noteq> i" "min ?n i = i" "i < ?n" using assms(2) by simp_all
  have "i XOR 2 ^ Suc k \<noteq> i" using buddy_cases [OF assms(3)] by auto
  then have stop: "merge_loop ?n i ?b2 = Some ?b2"
    using assms(8) by (subst merge_loop.simps) (simp add: PMEM_BUDDY_INDEX_def Let_def)
  have "merge_loop ?n i ?bm = merge_loop ?n i ?b2"
    using assms(4-7) b ne by (subst merge_loop.simps) (simp add: PMEM_BUDDY_INDEX_def Let_def)
  then have "pmem_free i d = Some (d\<lparr>bitmap := ?b2\<rparr>)" using stop assms(1) by (simp add: pmem_free_def)
  then show ?thesis using ne assms(2) by (auto simp: set_order_def set_allocated_def PMEM_IS_FREE_def PMEM_ORDER_def)
qed

definition sample_overrun :: pmem_info where
  "sample_overrun = sample_pmem\<lparr>num_entries := 3, pmem_size := 0x3000,
     bitmap := (\<lambda>i. if i = 0 then \<lparr>bit_allocated = True, bit_order = 1\<rparr>
                 else if i = 2 then \<lparr>bit_allocated = True, bit_order = 0\<rparr>
                 else \<lparr>bit_allocated = False, bit_order = 0\<rparr>)\<rparr>"

theorem pmem_free_out_of_bounds_witness:
  "\<exists>d'. pmem_free 2 sample_overrun = Some d' \<and> bit_order (bitmap d' 3) = 1 \<and>
     num_entries d' < 2 + 2 ^ PMEM_ORDER (bitmap d') 2 \<and> owned sample_overrun 2 = Some 0"
proof -
  have o: "owned sample_overrun 2 = Some 0"
    by (simp add: sample_overrun_def sample_pmem_def owned_def PMEM_IS_FREE_def PMEM_ORDER_def)
  have x: "(2::nat) XOR 2 ^ Suc 0 = 0" by simp
  show ?thesis
    using pmem_free_out_of_bounds [of sample_overrun 2 0] o unfolding x
    by (auto simp: sample_overrun_def sample_pmem_def PMEM_IS_FREE_def PMEM_ORDER_def)
qed

end
