(* ===== verification/Pmem.thy ===== *)
theory Pmem
  imports Kernel_Slab Pmem_Alloc "HOL-Library.Monad_Syntax"
begin

text \<open>
  The file interface of the Android physical memory driver (\<open>drivers/misc/pmem.c\<close>).  A process
  opens a device, gets a block of it (a master), and maps it; other files can be connected to
  the master, and the owner of the master decides which regions of the block they see, everything
  else being mapped to one garbage page.

  The state holds the array \<open>pmem\<close> of devices, the open files, the \<open>pmem_data\<close> objects, the memory
  areas (\<open>vmas\<close>) and, for each area, its page table entries.  An operation that can stop the kernel
  (\<open>BUG_ON\<close>) or fail to return yields \<open>None\<close>; otherwise it yields its result and the new state.
  Each operation is atomic: the semaphores are not modelled, nor the retry in
  \<open>pmem_lock_data_and_mm\<close> that only a concurrent map of the same file can cause.  Files have no
  hooks of their own (\<open>pmem_probe\<close> passes NULL for both).  The three page table operations the
  driver calls are modelled on the area they are called for; whether a page table page can be
  allocated is an input (\<open>nomem\<close>).  Descriptors, tasks and the current process are the environment
  of a call (\<open>pmem_env\<close>); file and memory reference counts are not modelled.
\<close>

unbundle bit_operations_syntax

subsection \<open>State\<close>

definition PMEM_MAX_DEVICES :: nat where "PMEM_MAX_DEVICES = 10"
definition MISC_MAJOR :: nat where "MISC_MAJOR = 10"

definition PMEM_FLAGS_CONNECTED :: u32 where "PMEM_FLAGS_CONNECTED = 0x2"
definition PMEM_FLAGS_MASTERMAP :: u32 where "PMEM_FLAGS_MASTERMAP = 0x4"
definition PMEM_FLAGS_SUBMAP :: u32 where "PMEM_FLAGS_SUBMAP = 0x8"
definition PMEM_FLAGS_UNSUBMAP :: u32 where "PMEM_FLAGS_UNSUBMAP = 0x10"

definition VM_WRITE :: u32 where "VM_WRITE = 0x2"
definition VM_SHARED :: u32 where "VM_SHARED = 0x8"
definition VM_MAYWRITE :: u32 where "VM_MAYWRITE = 0x20"
definition VM_PFNMAP :: u32 where "VM_PFNMAP = 0x400"
definition VM_IO :: u32 where "VM_IO = 0x4000"
definition VM_RESERVED :: u32 where "VM_RESERVED = 0x80000"
definition VM_PFN_AT_MMAP :: u32 where "VM_PFN_AT_MMAP = 0x40000000"

record pmem_region =
  region_offset :: u32
  region_len :: u32

record pmem_data =
  data_index :: int
  data_flags :: u32
  data_vma :: addr
  data_task :: addr
  data_pid :: nat
  master_fd :: nat
  master_file :: addr
  region_list :: "pmem_region list"

datatype file_private = Priv_null | Priv_dev nat | Priv_data addr

record pmem_file =
  i_rdev :: "nat \<times> nat"
  f_sync :: bool
  private_data :: file_private

record vma =
  vm_start :: u32
  vm_end :: u32
  vm_pgoff :: u32
  vm_flags :: u32
  vm_page_prot :: u32
  vm_file :: addr
  vm_ops :: bool

record pmem_state =
  pmem :: "nat \<Rightarrow> pmem_info"
  id_count :: nat
  filp :: "addr \<Rightarrow> pmem_file"
  datas :: "pmem_data kheap"
  vmas :: "addr \<Rightarrow> vma"
  ptes :: "addr \<Rightarrow> u32 \<rightharpoonup> u32"
  task_refs :: "addr \<Rightarrow> int"
  nomem :: "bool list"
  flushed :: "(u32 \<times> u32) list"

record pmem_env =
  fget :: "nat \<Rightarrow> addr"
  group_leader :: addr
  cur_pid :: nat
  task_mm :: "addr \<Rightarrow> addr"

type_synonym 'a outcome = "('a \<times> pmem_state) option"

definition PAGE_SIZE :: u32 where "PAGE_SIZE = 4096"
definition PMEM_IS_PAGE_ALIGNED :: "u32 \<Rightarrow> bool" where
  "PMEM_IS_PAGE_ALIGNED a \<longleftrightarrow> a AND 0xFFF = 0"

definition has_flag :: "u32 \<Rightarrow> pmem_data \<Rightarrow> bool" where
  "has_flag f d \<longleftrightarrow> f AND data_flags d \<noteq> 0"

definition PMEM_IS_SUBMAP :: "pmem_data \<Rightarrow> bool" where
  "PMEM_IS_SUBMAP d \<longleftrightarrow> has_flag PMEM_FLAGS_SUBMAP d \<and> \<not> has_flag PMEM_FLAGS_UNSUBMAP d"

definition get_data :: "pmem_state \<Rightarrow> addr \<Rightarrow> pmem_data" where
  "get_data s a = deref (datas s) a"

definition set_data :: "addr \<Rightarrow> pmem_data \<Rightarrow> pmem_state \<Rightarrow> pmem_state" where
  "set_data a d s = s\<lparr>datas := kwrite a d (datas s)\<rparr>"

definition set_pmem :: "nat \<Rightarrow> pmem_info \<Rightarrow> pmem_state \<Rightarrow> pmem_state" where
  "set_pmem dev_id i s = s\<lparr>pmem := (pmem s)(dev_id := i)\<rparr>"

definition data_of :: "pmem_state \<Rightarrow> addr \<Rightarrow> addr" where
  "data_of s f = (case private_data (filp s f) of Priv_data a \<Rightarrow> a | _ \<Rightarrow> 0)"

definition get_id :: "pmem_state \<Rightarrow> addr \<Rightarrow> nat" where
  "get_id s f = snd (i_rdev (filp s f))"

definition is_pmem_file :: "addr \<Rightarrow> pmem_state \<Rightarrow> bool" where
  "is_pmem_file f s \<longleftrightarrow>
     (if f = 0 then False
      else let dev_id = get_id s f in
        if PMEM_MAX_DEVICES \<le> dev_id then False
        else i_rdev (filp s f) = (MISC_MAJOR, dev_minor (pmem s dev_id)))"

definition has_allocation :: "addr \<Rightarrow> pmem_state \<Rightarrow> bool" where
  "has_allocation f s \<longleftrightarrow>
     (if private_data (filp s f) = Priv_null then False
      else \<not> data_index (get_data s (data_of s f)) < 0)"

definition is_master_owner :: "pmem_env \<Rightarrow> addr \<Rightarrow> pmem_state \<Rightarrow> bool" where
  "is_master_owner e f s \<longleftrightarrow>
     (if \<not> is_pmem_file f s \<or> \<not> has_allocation f s then False
      else let d = get_data s (data_of s f) in
        if has_flag PMEM_FLAGS_MASTERMAP d then True
        else let m = fget e (master_fd d) in m \<noteq> 0 \<and> master_file d = m)"

subsection \<open>Addresses\<close>

definition pmem_start_addr :: "nat \<Rightarrow> pmem_data \<Rightarrow> pmem_state \<Rightarrow> u32" where
  "pmem_start_addr dev_id d s =
     (if no_allocator (pmem s dev_id) then PMEM_START_ADDR (pmem s dev_id) 0
      else PMEM_START_ADDR (pmem s dev_id) (nat (data_index d)))"

definition pmem_start_vaddr :: "nat \<Rightarrow> pmem_data \<Rightarrow> pmem_state \<Rightarrow> u32" where
  "pmem_start_vaddr dev_id d s = pmem_start_addr dev_id d s - pmem_base (pmem s dev_id) + pmem_vbase (pmem s dev_id)"

definition pmem_len :: "nat \<Rightarrow> pmem_data \<Rightarrow> pmem_state \<Rightarrow> u32" where
  "pmem_len dev_id d s =
     (if no_allocator (pmem s dev_id) then of_int (data_index d)
      else PMEM_LEN (pmem s dev_id) (nat (data_index d)))"

definition phys_mem_access_prot :: "addr \<Rightarrow> u32 \<Rightarrow> pmem_state \<Rightarrow> u32" where
  "phys_mem_access_prot f prot s =
     (if \<not> cached (pmem s (get_id s f)) \<or> f_sync (filp s f) then prot AND NOT 0x3C else prot)"

subsection \<open>Page tables\<close>

definition next_fails :: "pmem_state \<Rightarrow> bool \<times> pmem_state" where
  "next_fails s = (nomem s \<noteq> [] \<and> hd (nomem s), s\<lparr>nomem := tl (nomem s)\<rparr>)"

definition set_pte :: "addr \<Rightarrow> u32 \<Rightarrow> u32 \<Rightarrow> pmem_state \<Rightarrow> pmem_state" where
  "set_pte v a pfn s = s\<lparr>ptes := (ptes s)(v := (ptes s v)(a \<mapsto> pfn))\<rparr>"

definition zap_page_range :: "addr \<Rightarrow> u32 \<Rightarrow> u32 \<Rightarrow> pmem_state \<Rightarrow> pmem_state" where
  "zap_page_range v address bytes s =
     (let end_addr = address + bytes; w = vmas s v in
      if vm_start w < end_addr then
        s\<lparr>ptes := (ptes s)(v := \<lambda>a. if max (vm_start w) address \<le> a \<and> a < min (vm_end w) end_addr
                                    then None else ptes s v a)\<rparr>
      else s)"

definition vm_insert_pfn :: "addr \<Rightarrow> u32 \<Rightarrow> u32 \<Rightarrow> pmem_state \<Rightarrow> errno option \<times> pmem_state" where
  "vm_insert_pfn v a pfn s =
     (let w = vmas s v in
      if a < vm_start w \<or> vm_end w \<le> a then (Some EFAULT, s)
      else let (fail, s) = next_fails s in
        if fail then (Some ENOMEM, s)
        else if ptes s v a \<noteq> None then (Some EBUSY, s)
        else (None, set_pte v a pfn s))"

fun remap_pages :: "addr \<Rightarrow> u32 \<Rightarrow> u32 \<Rightarrow> nat \<Rightarrow> pmem_state \<Rightarrow> (errno option) outcome" where
  "remap_pages v a pfn 0 s = Some (None, s)"
| "remap_pages v a pfn (Suc n) s =
     (let (fail, s) = next_fails s in
      if fail then Some (Some ENOMEM, s)
      else if ptes s v a \<noteq> None then None
      else remap_pages v (a + PAGE_SIZE) (pfn + 1) n (set_pte v a pfn s))"

definition is_cow_mapping :: "u32 \<Rightarrow> bool" where
  "is_cow_mapping fl \<longleftrightarrow> fl AND (VM_SHARED OR VM_MAYWRITE) = VM_MAYWRITE"

definition set_vma :: "addr \<Rightarrow> vma \<Rightarrow> pmem_state \<Rightarrow> pmem_state" where
  "set_vma v w s = s\<lparr>vmas := (vmas s)(v := w)\<rparr>"

definition io_remap_pfn_range :: "addr \<Rightarrow> u32 \<Rightarrow> u32 \<Rightarrow> u32 \<Rightarrow> pmem_state \<Rightarrow> (errno option) outcome" where
  "io_remap_pfn_range v a pfn bytes s =
     (let w = vmas s v; end_addr = a + (bytes + 0xFFF AND NOT 0xFFF) in
      if a = vm_start w \<and> end_addr = vm_end w \<or> \<not> is_cow_mapping (vm_flags w) then
        let w = (if a = vm_start w \<and> end_addr = vm_end w 
                 then w\<lparr>vm_pgoff := pfn, vm_flags := vm_flags w OR VM_PFN_AT_MMAP\<rparr> else w);
            s = set_vma v (w\<lparr>vm_flags := vm_flags w OR (VM_IO OR VM_RESERVED OR VM_PFNMAP)\<rparr>) s
        in if end_addr \<le> a then None
           else remap_pages v a pfn (unat (end_addr - a) div 4096) s
      else Some (Some EINVAL, s))"

fun garbage_loop :: "nat \<Rightarrow> addr \<Rightarrow> u32 \<Rightarrow> nat \<Rightarrow> pmem_state \<Rightarrow> errno option \<times> pmem_state" where
  "garbage_loop dev_id v a 0 s = (None, s)"
| "garbage_loop dev_id v a (Suc n) s =
     (case vm_insert_pfn v a (garbage_pfn (pmem s dev_id)) s of
        (Some _, s) \<Rightarrow> (Some EAGAIN, s)
      | (None, s) \<Rightarrow> garbage_loop dev_id v (a + PAGE_SIZE) n s)"

definition pmem_map_garbage :: "nat \<Rightarrow> addr \<Rightarrow> u32 \<Rightarrow> u32 \<Rightarrow> pmem_state \<Rightarrow> errno option \<times> pmem_state" where
  "pmem_map_garbage dev_id v offset len s =
     (let garbage_pages = unat (drop_bit 12 len);
          w = vmas s v;
          s = set_vma v (w\<lparr>vm_flags := vm_flags w OR (VM_IO OR VM_RESERVED OR VM_PFNMAP OR VM_SHARED OR VM_WRITE)\<rparr>) s
      in garbage_loop dev_id v (vm_start w + offset) garbage_pages s)"

definition pmem_unmap_pfn_range :: "nat \<Rightarrow> addr \<Rightarrow> u32 \<Rightarrow> u32 \<Rightarrow> pmem_state \<Rightarrow> (errno option) outcome" where
  "pmem_unmap_pfn_range dev_id v offset len s =
     (if \<not> PMEM_IS_PAGE_ALIGNED len then None
      else let s = zap_page_range v (vm_start (vmas s v) + offset) len s;
               (_, s) = pmem_map_garbage dev_id v offset len s
           in Some (None, s))"

definition pmem_map_pfn_range :: "nat \<Rightarrow> addr \<Rightarrow> pmem_data \<Rightarrow> u32 \<Rightarrow> u32 \<Rightarrow> pmem_state \<Rightarrow> (errno option) outcome" where
  "pmem_map_pfn_range dev_id v d offset len s =
     (let w = vmas s v in
      if \<not> PMEM_IS_PAGE_ALIGNED (vm_start w) \<or> \<not> PMEM_IS_PAGE_ALIGNED (vm_end w) \<or>
         \<not> PMEM_IS_PAGE_ALIGNED len \<or> \<not> PMEM_IS_PAGE_ALIGNED offset then None
      else do {
        (r, s) \<leftarrow> io_remap_pfn_range v (vm_start w + offset)
                    (drop_bit 12 (pmem_start_addr dev_id d s + offset)) len s;
        Some (if r = None then None else Some EAGAIN, s)
      })"

definition pmem_remap_pfn_range :: "nat \<Rightarrow> addr \<Rightarrow> pmem_data \<Rightarrow> u32 \<Rightarrow> u32 \<Rightarrow> pmem_state \<Rightarrow> (errno option) outcome" where
  "pmem_remap_pfn_range dev_id v d offset len s =
     (if v = 0 then None
      else pmem_map_pfn_range dev_id v d offset len (zap_page_range v (vm_start (vmas s v) + offset) len s))"

subsection \<open>Files\<close>

definition pmem_open :: "addr \<Rightarrow> pmem_state \<Rightarrow> errno option \<times> pmem_state" where
  "pmem_open f s =
     (let dev_id = get_id s f in
      if private_data (filp s f) \<noteq> Priv_dev dev_id then (Some EPERM, s)
      else case kzalloc \<lparr>data_index = - 1, data_flags = 0, data_vma = 0, data_task = 0, data_pid = 0,
                         master_fd = 0, master_file = 0, region_list = []\<rparr> (datas s) of
        (None, h) \<Rightarrow> (Some EPERM, s\<lparr>datas := h\<rparr>)
      | (Some a, h) \<Rightarrow>
          (None, set_pmem dev_id ((pmem s dev_id)\<lparr>data_list := a # data_list (pmem s dev_id)\<rparr>)
                   (s\<lparr>datas := h, filp := (filp s)(f := (filp s f)\<lparr>private_data := Priv_data a\<rparr>)\<rparr>)))"

definition pmem_vma_open :: "addr \<Rightarrow> pmem_state \<Rightarrow> (errno option) outcome" where
  "pmem_vma_open v s =
     (let w = vmas s v; f = vm_file w; dev_id = get_id s f in
      if \<not> has_allocation f s then None
      else pmem_unmap_pfn_range dev_id v 0 (vm_start w - vm_end w) s)"

definition pmem_vma_close :: "addr \<Rightarrow> pmem_state \<Rightarrow> pmem_state" where
  "pmem_vma_close v s =
     (let f = vm_file (vmas s v); a = data_of s f; d = get_data s a in
      if \<not> is_pmem_file f s \<or> \<not> has_allocation f s then s
      else if data_vma d = v then
        let d = d\<lparr>data_vma := 0\<rparr> in
        set_data a (if has_flag PMEM_FLAGS_CONNECTED d \<and> has_flag PMEM_FLAGS_SUBMAP d
                    then d\<lparr>data_flags := data_flags d OR PMEM_FLAGS_UNSUBMAP\<rparr> else d) s
      else s)"

fun remap_regions :: "nat \<Rightarrow> addr \<Rightarrow> pmem_data \<Rightarrow> pmem_region list \<Rightarrow> pmem_state \<Rightarrow> (errno option) outcome" where
  "remap_regions dev_id v d [] s = Some (None, s)"
| "remap_regions dev_id v d (r # rs) s = do {
     (e, s) \<leftarrow> pmem_remap_pfn_range dev_id v d (region_offset r) (region_len r) s;
     if e \<noteq> None then Some (Some EAGAIN, s) else remap_regions dev_id v d rs s
   }"

definition pmem_mmap_allocate :: "nat \<Rightarrow> addr \<Rightarrow> u32 \<Rightarrow> pmem_state \<Rightarrow> pmem_state" where
  "pmem_mmap_allocate dev_id a len s =
     (let (index, i) = pmem_allocate len (pmem s dev_id)
      in set_data a ((get_data s a)\<lparr>data_index := index\<rparr>) (set_pmem dev_id i s))"

definition mmap_connected :: "pmem_env \<Rightarrow> nat \<Rightarrow> addr \<Rightarrow> addr \<Rightarrow> u32 \<Rightarrow> pmem_state \<Rightarrow> (errno option) outcome" where
  "mmap_connected e dev_id v a vma_size s =
     (let d = get_data s a in
      case pmem_map_garbage dev_id v 0 vma_size s of
        (Some _, s) \<Rightarrow> Some (Some EAGAIN, s)
      | (None, s) \<Rightarrow> do {
          (r, s) \<leftarrow> remap_regions dev_id v d (region_list d) s;
          if r \<noteq> None then Some (Some EAGAIN, s)
          else Some (None,
            set_data a (d\<lparr>data_flags := data_flags d OR PMEM_FLAGS_SUBMAP, data_task := group_leader e, data_vma := v\<rparr>)
              (s\<lparr>task_refs := (task_refs s)(group_leader e := task_refs s (group_leader e) + 1)\<rparr>))
        })"

definition mmap_master :: "pmem_env \<Rightarrow> nat \<Rightarrow> addr \<Rightarrow> addr \<Rightarrow> u32 \<Rightarrow> pmem_state \<Rightarrow> (errno option) outcome" where
  "mmap_master e dev_id v a vma_size s =
     (let d = get_data s a in do {
        (r, s) \<leftarrow> pmem_map_pfn_range dev_id v d 0 vma_size s;
        if r \<noteq> None then Some (Some EAGAIN, s)
        else Some (None,
          set_data a (d\<lparr>data_flags := data_flags d OR PMEM_FLAGS_MASTERMAP, data_pid := cur_pid e\<rparr>) s)
      })"

definition mmap_pages :: "pmem_env \<Rightarrow> addr \<Rightarrow> addr \<Rightarrow> addr \<Rightarrow> u32 \<Rightarrow> pmem_state \<Rightarrow> (errno option) outcome" where
  "mmap_pages e f v a vma_size s =
     (let dev_id = get_id s f; w = vmas s v; d = get_data s a;
          s = set_vma v (w\<lparr>vm_pgoff := drop_bit 12 (pmem_start_addr dev_id d s),
                            vm_page_prot := phys_mem_access_prot f (vm_page_prot w) s\<rparr>) s in do {
        (r, s) \<leftarrow> (if has_flag PMEM_FLAGS_CONNECTED d then mmap_connected e dev_id v a vma_size s
                    else mmap_master e dev_id v a vma_size s);
        Some (r, if r \<noteq> None then s else set_vma v ((vmas s v)\<lparr>vm_ops := True\<rparr>) s)
      })"

definition pmem_mmap :: "pmem_env \<Rightarrow> addr \<Rightarrow> addr \<Rightarrow> pmem_state \<Rightarrow> (errno option) outcome" where
  "pmem_mmap e f v s =
     (let w = vmas s v; vma_size = vm_end w - vm_start w; dev_id = get_id s f; a = data_of s f; d = get_data s a in
      if vm_pgoff w \<noteq> 0 \<or> \<not> PMEM_IS_PAGE_ALIGNED vma_size then Some (Some EINVAL, s)
      else if has_flag PMEM_FLAGS_MASTERMAP d \<or> has_flag PMEM_FLAGS_SUBMAP d \<or> has_flag PMEM_FLAGS_UNSUBMAP d
      then Some (Some EINVAL, s)
      else
        let s = (if data_index d = - 1 then pmem_mmap_allocate dev_id a vma_size s else s) in
        if \<not> has_allocation f s then Some (Some EINVAL, s)
        else if pmem_len dev_id (get_data s a) s < vma_size then Some (Some EINVAL, s)
        else mmap_pages e f v a vma_size s)"

subsection \<open>Access by other drivers\<close>

definition get_pmem_user_addr :: "addr \<Rightarrow> pmem_state \<Rightarrow> errno + u32 \<times> u32" where
  "get_pmem_user_addr f s =
     (if \<not> is_pmem_file f s \<or> \<not> has_allocation f s then Inl EPERM
      else let v = data_vma (get_data s (data_of s f)) in
        if v \<noteq> 0 then Inr (vm_start (vmas s v), vm_end (vmas s v) - vm_start (vmas s v))
        else Inr (0, 0))"

definition get_pmem_addr :: "addr \<Rightarrow> pmem_state \<Rightarrow> errno + u32 \<times> u32 \<times> u32" where
  "get_pmem_addr f s =
     (if \<not> is_pmem_file f s \<or> \<not> has_allocation f s then Inl EPERM
      else let d = get_data s (data_of s f); dev_id = get_id s f in
        Inr (pmem_start_addr dev_id d s, pmem_start_vaddr dev_id d s, pmem_len dev_id d s))"

definition get_pmem_file :: "pmem_env \<Rightarrow> nat \<Rightarrow> pmem_state \<Rightarrow> errno + (u32 \<times> u32 \<times> u32) \<times> addr" where
  "get_pmem_file e fd s =
     (let f = fget e fd in
      if f = 0 then Inl EPERM
      else case get_pmem_addr f s of Inl _ \<Rightarrow> Inl EPERM | Inr r \<Rightarrow> Inr (r, f))"

fun flush_regions :: "u32 \<Rightarrow> u32 \<Rightarrow> u32 \<Rightarrow> pmem_region list \<Rightarrow> (u32 \<times> u32) list" where
  "flush_regions vaddr offset len [] = []"
| "flush_regions vaddr offset len (r # rs) =
     (if region_offset r \<le> offset \<and> offset + len \<le> region_offset r + region_len r
      then let flush_start = vaddr + region_offset r in [(flush_start, flush_start + region_len r)]
      else flush_regions vaddr offset len rs)"

definition flush_pmem_file :: "addr \<Rightarrow> u32 \<Rightarrow> u32 \<Rightarrow> pmem_state \<Rightarrow> pmem_state" where
  "flush_pmem_file f offset len s =
     (if \<not> is_pmem_file f s \<or> \<not> has_allocation f s then s
      else let dev_id = get_id s f; d = get_data s (data_of s f) in
        if \<not> cached (pmem s dev_id) \<or> f_sync (filp s f) then s
        else let vaddr = pmem_start_vaddr dev_id d s in
          if \<not> has_flag PMEM_FLAGS_CONNECTED d
          then s\<lparr>flushed := flushed s @ [(vaddr, vaddr + pmem_len dev_id d s)]\<rparr>
          else s\<lparr>flushed := flushed s @ flush_regions vaddr offset len (region_list d)\<rparr>)"

subsection \<open>Connected files\<close>

definition pmem_connect :: "pmem_env \<Rightarrow> nat \<Rightarrow> addr \<Rightarrow> pmem_state \<Rightarrow> errno option \<times> pmem_state" where
  "pmem_connect e fd f s =
     (let a = data_of s f; d = get_data s a; src_file = fget e fd in
      if src_file = 0 then (Some EINVAL, s)
      else if \<not> is_pmem_file src_file s \<or> \<not> has_allocation src_file s then (Some EINVAL, s)
      else let src_data = get_data s (data_of s src_file) in
        if has_allocation f s \<and> data_index d \<noteq> data_index src_data then (Some EINVAL, s)
        else (None, set_data a (d\<lparr>data_index := data_index src_data,
                                   data_flags := data_flags d OR PMEM_FLAGS_CONNECTED,
                                   master_fd := fd, master_file := src_file\<rparr>) s))"

definition put_task_struct :: "addr \<Rightarrow> pmem_state \<Rightarrow> pmem_state" where
  "put_task_struct t s = s\<lparr>task_refs := (task_refs s)(t := task_refs s t - 1)\<rparr>"

definition pmem_lock_data_and_mm :: "pmem_env \<Rightarrow> addr \<Rightarrow> pmem_state \<Rightarrow> (errno + addr) outcome" where
  "pmem_lock_data_and_mm e a s =
     (let d = get_data s a; mm = (if PMEM_IS_SUBMAP d then task_mm e (data_task d) else 0) in
      if PMEM_IS_SUBMAP d \<and> mm = 0 then Some (Inl EPERM, s)
      else if PMEM_IS_SUBMAP d \<and> mm = 0 then None
      else if has_flag PMEM_FLAGS_UNSUBMAP d \<and> mm \<noteq> 0 then
        Some (Inl EPERM,
          if has_flag PMEM_FLAGS_SUBMAP d
          then set_data a (d\<lparr>data_task := 0, data_flags := data_flags d AND NOT PMEM_FLAGS_SUBMAP\<rparr>)
                 (put_task_struct (data_task d) s)
          else s)
      else Some (Inr mm, s))"

datatype remap_op = PMEM_MAP_op | PMEM_UNMAP_op

definition pmem_remap :: "pmem_env \<Rightarrow> pmem_region \<Rightarrow> addr \<Rightarrow> remap_op \<Rightarrow> pmem_state \<Rightarrow> (errno option) outcome" where
  "pmem_remap e region f operation s =
     (let dev_id = get_id s f; a = data_of s f in
      if \<not> PMEM_IS_PAGE_ALIGNED (region_offset region) \<or> \<not> PMEM_IS_PAGE_ALIGNED (region_len region)
      then Some (Some EINVAL, s)
      else if region_len region = 0 then Some (None, s)
      else do {
        (l, s) \<leftarrow> pmem_lock_data_and_mm e a s;
        case l of Inl _ \<Rightarrow> Some (None, s)
        | Inr _ \<Rightarrow>
          let d = get_data s a; len = pmem_len dev_id d s in
          if \<not> is_master_owner e f s then Some (Some EINVAL, s)
          else if len < region_offset region \<or> len < region_len region \<or>
                  len < region_offset region + region_len region
          then Some (Some EINVAL, s)
          else case operation of
            PMEM_MAP_op \<Rightarrow>
              let (fail, s) = next_fails s in
              if fail then Some (Some ENOMEM, s)
              else let s = set_data a (d\<lparr>region_list := region # region_list d\<rparr>) s in
                if data_vma d \<noteq> 0 \<and> PMEM_IS_SUBMAP d
                then pmem_remap_pfn_range dev_id (data_vma d) d (region_offset region) (region_len region) s
                else Some (None, s)
          | PMEM_UNMAP_op \<Rightarrow>
              let rest = filter (\<lambda>r. \<not> (region_len region = 0 \<or>
                    region_offset r = region_offset region \<and> region_len r = region_len region)) (region_list d) in
              if length rest = length (region_list d) then Some (Some EINVAL, s)
              else let s = set_data a (d\<lparr>region_list := rest\<rparr>) s in
                if data_vma d \<noteq> 0 \<and> PMEM_IS_SUBMAP d
                then pmem_unmap_pfn_range dev_id (data_vma d) (region_offset region) (region_len region) s
                else Some (None, s)
      })"

fun unmap_regions :: "nat \<Rightarrow> addr \<Rightarrow> pmem_region list \<Rightarrow> pmem_state \<Rightarrow> unit outcome" where
  "unmap_regions dev_id v [] s = Some ((), s)"
| "unmap_regions dev_id v (r # rs) s = do {
     (_, s) \<leftarrow> pmem_unmap_pfn_range dev_id v (region_offset r) (region_len r) s;
     unmap_regions dev_id v rs s
   }"

definition pmem_revoke :: "pmem_env \<Rightarrow> addr \<Rightarrow> addr \<Rightarrow> pmem_state \<Rightarrow> unit outcome" where
  "pmem_revoke e f a s =
     (let dev_id = get_id s f;
          s = set_data a ((get_data s a)\<lparr>master_file := 0\<rparr>) s
      in do {
        (l, s) \<leftarrow> pmem_lock_data_and_mm e a s;
        case l of Inl _ \<Rightarrow> Some ((), s)
        | Inr _ \<Rightarrow>
          let d = get_data s a in
          if data_vma d \<noteq> 0 then do {
            (_, s) \<leftarrow> unmap_regions dev_id (data_vma d) (region_list d) s;
            Some ((), set_data a (d\<lparr>region_list := []\<rparr>) s)
          }
          else Some ((), s)
      })"

fun revoke_loop :: "pmem_env \<Rightarrow> addr \<Rightarrow> addr list \<Rightarrow> pmem_state \<Rightarrow> unit outcome" where
  "revoke_loop e f [] s = Some ((), s)"
| "revoke_loop e f (b # bs) s = do {
     (_, s) \<leftarrow> (let sub_data = get_data s b in
       if PMEM_IS_SUBMAP sub_data \<and> f = master_file sub_data then pmem_revoke e f b s else Some ((), s));
     revoke_loop e f bs s
   }"

definition release_free :: "addr \<Rightarrow> pmem_state \<Rightarrow> pmem_state option" where
  "release_free f s =
     (let d = get_data s (data_of s f); dev_id = get_id s f in
      if \<not> has_flag PMEM_FLAGS_CONNECTED d \<and> has_allocation f s
      then map_option (\<lambda>i. set_pmem dev_id i s) (pmem_free (nat (data_index d)) (pmem s dev_id))
      else Some s)"

definition release_end :: "addr \<Rightarrow> pmem_state \<Rightarrow> pmem_state" where
  "release_end f s =
     (let a = data_of s f; d = get_data s a;
          s = (if has_flag PMEM_FLAGS_SUBMAP d \<and> data_task d \<noteq> 0 then put_task_struct (data_task d) s else s)
      in s\<lparr>filp := (filp s)(f := (filp s f)\<lparr>private_data := Priv_null\<rparr>), datas := kfree a (datas s)\<rparr>)"

definition pmem_release :: "pmem_env \<Rightarrow> addr \<Rightarrow> pmem_state \<Rightarrow> (errno option) outcome" where
  "pmem_release e f s =
     (let a = data_of s f; dev_id = get_id s f in do {
        (_, s) \<leftarrow> (if has_flag PMEM_FLAGS_MASTERMAP (get_data s a)
                    then revoke_loop e f (data_list (pmem s dev_id)) s else Some ((), s));
        s \<leftarrow> release_free f (set_pmem dev_id ((pmem s dev_id)\<lparr>data_list := remove1 a (data_list (pmem s dev_id))\<rparr>) s);
        Some (None, release_end f s)
      })"

subsection \<open>Control calls\<close>

definition pmem_get_size :: "addr \<Rightarrow> pmem_state \<Rightarrow> pmem_region" where
  "pmem_get_size f s =
     (if \<not> has_allocation f s then \<lparr>region_offset = 0, region_len = 0\<rparr>
      else let d = get_data s (data_of s f); dev_id = get_id s f in
        \<lparr>region_offset = pmem_start_addr dev_id d s, region_len = pmem_len dev_id d s\<rparr>)"

datatype pmem_cmd =
  PMEM_GET_PHYS bool
| PMEM_MAP "pmem_region option"
| PMEM_UNMAP "pmem_region option"
| PMEM_GET_SIZE bool
| PMEM_GET_TOTAL_SIZE bool
| PMEM_ALLOCATE u32
| PMEM_CONNECT nat
| PMEM_CACHE_FLUSH "pmem_region option"
| PMEM_other

definition answer :: "bool \<Rightarrow> pmem_region \<Rightarrow> pmem_state \<Rightarrow> (errno + pmem_region option) outcome" where
  "answer writable r s = Some (if writable then Inr (Some r) else Inl EFAULT, s)"

definition plain :: "errno option \<Rightarrow> errno + pmem_region option" where
  "plain r = (case r of None \<Rightarrow> Inr None | Some e \<Rightarrow> Inl e)"

definition pmem_ioctl :: "pmem_env \<Rightarrow> addr \<Rightarrow> pmem_cmd \<Rightarrow> pmem_state \<Rightarrow> (errno + pmem_region option) outcome" where
  "pmem_ioctl e f cmd s =
     (let dev_id = get_id s f in
      case cmd of
        PMEM_GET_PHYS w \<Rightarrow>
          answer w (if \<not> has_allocation f s then \<lparr>region_offset = 0, region_len = 0\<rparr>
                    else let d = get_data s (data_of s f) in
                      \<lparr>region_offset = pmem_start_addr dev_id d s, region_len = pmem_len dev_id d s\<rparr>) s
      | PMEM_MAP r \<Rightarrow>
          (case r of None \<Rightarrow> Some (Inl EFAULT, s)
           | Some r \<Rightarrow> map_option (apfst plain) (pmem_remap e r f PMEM_MAP_op s))
      | PMEM_UNMAP r \<Rightarrow>
          (case r of None \<Rightarrow> Some (Inl EFAULT, s)
           | Some r \<Rightarrow> map_option (apfst plain) (pmem_remap e r f PMEM_UNMAP_op s))
      | PMEM_GET_SIZE w \<Rightarrow> answer w (pmem_get_size f s) s
      | PMEM_GET_TOTAL_SIZE w \<Rightarrow> answer w \<lparr>region_offset = 0, region_len = pmem_size (pmem s dev_id)\<rparr> s
      | PMEM_ALLOCATE len \<Rightarrow>
          if has_allocation f s then Some (Inl EINVAL, s)
          else let (index, i) = pmem_allocate len (pmem s dev_id); a = data_of s f in
            Some (Inr None, set_data a ((get_data s a)\<lparr>data_index := index\<rparr>) (set_pmem dev_id i s))
      | PMEM_CONNECT fd \<Rightarrow> Some (apfst plain (pmem_connect e fd f s))
      | PMEM_CACHE_FLUSH r \<Rightarrow>
          (case r of None \<Rightarrow> Some (Inl EFAULT, s)
           | Some r \<Rightarrow> Some (Inr None, flush_pmem_file f (region_offset r) (region_len r) s))
      | PMEM_other \<Rightarrow> Some (Inl EINVAL, s))"

subsection \<open>Devices\<close>

record pmem_platform_data =
  pd_start :: u32
  pd_size :: u32
  pd_no_allocator :: bool
  pd_cached :: bool
  pd_buffered :: bool

record pmem_setup_env =
  register_ok :: bool
  kmalloc_memory :: "pmem_bitmap option"
  ioremap_addr :: u32
  garbage_page :: u32

definition pmem_setup :: "pmem_setup_env \<Rightarrow> pmem_platform_data \<Rightarrow> pmem_state \<Rightarrow> errno option \<times> pmem_state" where
  "pmem_setup e pdata s =
     (let dev_id = id_count s;
          i = (pmem s dev_id)\<lparr>no_allocator := pd_no_allocator pdata, cached := pd_cached pdata,
                buffered := pd_buffered pdata, pmem_base := pd_start pdata, pmem_size := pd_size pdata,
                data_list := [], dev_minor := dev_id\<rparr>;
          s = s\<lparr>id_count := id_count s + 1\<rparr> in
      if \<not> register_ok e then (Some EPERM, set_pmem dev_id i s)
      else
        let i = i\<lparr>num_entries := unat (pmem_size i div PMEM_MIN_ALLOC)\<rparr> in
        case kmalloc_memory e of None \<Rightarrow> (Some EPERM, set_pmem dev_id i s)
        | Some mem \<Rightarrow>
          let i = i\<lparr>bitmap := bitmap_init (num_entries i) mem\<rparr>;
              i = i\<lparr>pmem_vbase := ioremap_addr e\<rparr> in
          if pmem_vbase i = 0 then (Some EPERM, set_pmem dev_id i s)
          else
            let i = i\<lparr>garbage_pfn := garbage_page e\<rparr>;
                i = (if no_allocator i then i\<lparr>allocated := False\<rparr> else i)
            in (None, set_pmem dev_id i s))"

definition pmem_probe :: "pmem_setup_env \<Rightarrow> pmem_platform_data option \<Rightarrow> pmem_state \<Rightarrow> errno option \<times> pmem_state" where
  "pmem_probe e pdata s =
     (case pdata of None \<Rightarrow> (Some EPERM, s) | Some p \<Rightarrow> pmem_setup e p s)"

subsection \<open>What the page tables do not touch\<close>

definition core :: "pmem_state \<Rightarrow> (nat \<Rightarrow> pmem_info) \<times> (addr \<Rightarrow> pmem_file) \<times> pmem_data kheap" where
  "core s = (pmem s, filp s, datas s)"

lemma coreD: "core t = core s \<Longrightarrow> pmem t = pmem s \<and> filp t = filp s \<and> datas t = datas s"
  by (simp add: core_def)

lemma core_simps [simp]:
  "core (s\<lparr>ptes := p\<rparr>) = core s" "core (s\<lparr>nomem := n\<rparr>) = core s" "core (s\<lparr>task_refs := r\<rparr>) = core s"
  "core (s\<lparr>flushed := fl\<rparr>) = core s" "core (set_vma v w s) = core s" "core (set_pte v a pfn s) = core s"
  "core (zap_page_range v a k s) = core s" "core (put_task_struct j s) = core s"
  by (simp_all add: core_def set_vma_def set_pte_def zap_page_range_def put_task_struct_def Let_def)

lemma core_next_fails: "next_fails s = (b, t) \<Longrightarrow> core t = core s"
  by (auto simp: next_fails_def)

lemma core_vm_insert_pfn: "vm_insert_pfn v a pfn s = (r, t) \<Longrightarrow> core t = core s"
  by (auto simp: vm_insert_pfn_def Let_def dest: core_next_fails split: if_splits prod.splits)

lemma core_remap_pages: "remap_pages v a pfn n s = Some (r, t) \<Longrightarrow> core t = core s"
proof (induction v a pfn n s rule: remap_pages.induct)
  case (2 v a pfn n s)
  obtain b s1 where b: "next_fails s = (b, s1)" by (cases "next_fails s")
  then show ?case using 2 core_next_fails [OF b] by (auto simp: b split: if_splits)
qed simp

lemma core_io_remap: "io_remap_pfn_range v a pfn n s = Some (r, t) \<Longrightarrow> core t = core s"
  by (auto simp: io_remap_pfn_range_def Let_def dest!: core_remap_pages split: if_splits)

lemma core_garbage_loop: "garbage_loop i v a n s = (r, t) \<Longrightarrow> core t = core s"
proof (induction i v a n s rule: garbage_loop.induct)
  case (2 i v a n s)
  obtain b s1 where b: "vm_insert_pfn v a (garbage_pfn (pmem s i)) s = (b, s1)"
    by (cases "vm_insert_pfn v a (garbage_pfn (pmem s i)) s")
  then show ?case using 2 core_vm_insert_pfn [OF b] by (auto simp: b split: option.splits)
qed simp

lemma core_map_garbage: "pmem_map_garbage i v a n s = (r, t) \<Longrightarrow> core t = core s"
  by (auto simp: pmem_map_garbage_def Let_def dest!: core_garbage_loop)

lemma core_unmap: "pmem_unmap_pfn_range i v a n s = Some (r, t) \<Longrightarrow> core t = core s"
  by (auto simp: pmem_unmap_pfn_range_def Let_def split: if_splits prod.splits dest!: core_map_garbage)

lemma core_map: "pmem_map_pfn_range i v d a n s = Some (r, t) \<Longrightarrow> core t = core s"
  by (auto simp: pmem_map_pfn_range_def Let_def bind_eq_Some_conv split: if_splits dest!: core_io_remap)

lemma core_remap: "pmem_remap_pfn_range i v d a n s = Some (r, t) \<Longrightarrow> core t = core s"
  by (auto simp: pmem_remap_pfn_range_def split: if_splits dest!: core_map)

lemma core_remap_regions: "remap_regions i v d rs s = Some (r, t) \<Longrightarrow> core t = core s"
  by (induction rs arbitrary: s) (auto simp: bind_eq_Some_conv split: if_splits dest!: core_remap)

lemma core_unmap_regions: "unmap_regions i v rs s = Some (r, t) \<Longrightarrow> core t = core s"
  by (induction rs arbitrary: s) (auto simp: bind_eq_Some_conv dest!: core_unmap)

subsection \<open>Owners\<close>

lemma has_flag_bits:
  "has_flag PMEM_FLAGS_CONNECTED d \<longleftrightarrow> bit (data_flags d) 1"
  "has_flag PMEM_FLAGS_MASTERMAP d \<longleftrightarrow> bit (data_flags d) 2"
  "has_flag PMEM_FLAGS_SUBMAP d \<longleftrightarrow> bit (data_flags d) 3"
  "has_flag PMEM_FLAGS_UNSUBMAP d \<longleftrightarrow> bit (data_flags d) 4"
  using and_bit_iff [of 2 1 "data_flags d"] and_bit_iff [of 4 2 "data_flags d"]
    and_bit_iff [of 8 3 "data_flags d"] and_bit_iff [of 16 4 "data_flags d"]
  by (simp_all add: has_flag_def and.commute PMEM_FLAGS_CONNECTED_def PMEM_FLAGS_MASTERMAP_def
      PMEM_FLAGS_SUBMAP_def PMEM_FLAGS_UNSUBMAP_def)

lemma flag_bit_consts:
  "bit PMEM_FLAGS_CONNECTED i \<longleftrightarrow> i = 1" "bit PMEM_FLAGS_MASTERMAP i \<longleftrightarrow> i = 2"
  "bit PMEM_FLAGS_SUBMAP i \<longleftrightarrow> i = 3" "bit PMEM_FLAGS_UNSUBMAP i \<longleftrightarrow> i = 4"
  unfolding PMEM_FLAGS_CONNECTED_def PMEM_FLAGS_MASTERMAP_def PMEM_FLAGS_SUBMAP_def PMEM_FLAGS_UNSUBMAP_def
  by (rule word_bit_exp; simp)+

lemmas flag_simps = has_flag_bits flag_bit_consts bit_or_iff bit_and_iff bit_not_iff

definition file_data :: "pmem_state \<Rightarrow> addr \<Rightarrow> addr option" where
  "file_data s f = (case private_data (filp s f) of Priv_data a \<Rightarrow> Some a | _ \<Rightarrow> None)"

definition master_index :: "pmem_state \<Rightarrow> addr \<Rightarrow> nat option" where
  "master_index s f =
     (case file_data s f of None \<Rightarrow> None
      | Some a \<Rightarrow> let d = get_data s a in
          if \<not> has_flag PMEM_FLAGS_CONNECTED d \<and> 0 \<le> data_index d then Some (nat (data_index d)) else None)"

definition files_ok :: "pmem_state \<Rightarrow> bool" where
  "files_ok s \<longleftrightarrow> kheap_ok (datas s) \<and>
     (\<forall>f. private_data (filp s f) \<noteq> Priv_null \<longrightarrow>
        (\<exists>a. file_data s f = Some a \<and> a \<in> dom (kobj (datas s))) \<and> get_id s f < PMEM_MAX_DEVICES) \<and>
     (\<forall>f g a. file_data s f = Some a \<and> file_data s g = Some a \<longrightarrow> f = g) \<and>
     (\<forall>i<PMEM_MAX_DEVICES. distinct (data_list (pmem s i)) \<and>
        (\<forall>a. a \<in> set (data_list (pmem s i)) \<longleftrightarrow> (\<exists>f. file_data s f = Some a \<and> get_id s f = i)))"

definition device_ok :: "pmem_info \<Rightarrow> bool" where
  "device_ok i \<longleftrightarrow> no_allocator i \<or> pmem_ok i"

definition dev_masters :: "pmem_info \<Rightarrow> nat \<Rightarrow> bool" where
  "dev_masters p i \<longleftrightarrow> (if no_allocator p then allocated p else owned p i \<noteq> None)"

definition masters_ok :: "pmem_state \<Rightarrow> bool" where
  "masters_ok s \<longleftrightarrow>
     (\<forall>f i. master_index s f = Some i \<longrightarrow> dev_masters (pmem s (get_id s f)) i) \<and>
     (\<forall>f g i j. f \<noteq> g \<and> get_id s f = get_id s g \<and> master_index s f = Some i \<and> master_index s g = Some j \<longrightarrow>
        \<not> no_allocator (pmem s (get_id s f)) \<and> i \<noteq> j)"

definition pmem_wf :: "pmem_state \<Rightarrow> bool" where
  "pmem_wf s \<longleftrightarrow> files_ok s \<and> masters_ok s \<and> (\<forall>i<PMEM_MAX_DEVICES. device_ok (pmem s i))"

subsection \<open>Operations that keep all owners\<close>

definition keeps :: "pmem_state \<Rightarrow> pmem_state \<Rightarrow> bool" where
  "keeps s t \<longleftrightarrow> pmem t = pmem s \<and> filp t = filp s \<and> kheap_ok (datas t) \<and>
     dom (kobj (datas t)) = dom (kobj (datas s)) \<and>
     (\<forall>a. data_index (get_data t a) = data_index (get_data s a) \<and>
        has_flag PMEM_FLAGS_CONNECTED (get_data t a) = has_flag PMEM_FLAGS_CONNECTED (get_data s a))"

lemma get_data_core: "core t = core s \<Longrightarrow> get_data t = get_data s"
  by (auto simp: core_def get_data_def fun_eq_iff)

lemma keeps_core: "kheap_ok (datas s) \<Longrightarrow> core t = core s \<Longrightarrow> keeps s t"
  using get_data_core [of t s] coreD [of t s] by (simp add: keeps_def)

lemma keeps_trans: "keeps s t \<Longrightarrow> keeps t u \<Longrightarrow> keeps s u"
  by (simp add: keeps_def)

lemma keeps_heap: "keeps s t \<Longrightarrow> kheap_ok (datas t) \<and> dom (kobj (datas t)) = dom (kobj (datas s))"
  by (simp add: keeps_def)

lemma get_set_data [simp]: "get_data (set_data a d s) b = (if b = a then d else get_data s b)"
  by (simp add: get_data_def set_data_def)

lemma keeps_set_data:
  assumes "kheap_ok (datas s)" "a \<in> dom (kobj (datas s))" "data_index d = data_index (get_data s a)"
    and "has_flag PMEM_FLAGS_CONNECTED d = has_flag PMEM_FLAGS_CONNECTED (get_data s a)"
  shows "keeps s (set_data a d s)"
  unfolding keeps_def using assms by (auto simp: set_data_def get_data_def)

lemma keeps_then_core: "keeps s t \<Longrightarrow> core u = core t \<Longrightarrow> keeps s u"
  using keeps_trans keeps_core keeps_heap by blast

lemma keeps_set_data_core:
  assumes "kheap_ok (datas s)" "a \<in> dom (kobj (datas s))" "core t = core s"
    and "data_index d = data_index (get_data s a)"
    and "has_flag PMEM_FLAGS_CONNECTED d = has_flag PMEM_FLAGS_CONNECTED (get_data s a)"
  shows "keeps s (set_data a d t)"
proof -
  have "keeps t (set_data a d t)"
    by (rule keeps_set_data) (use assms coreD [OF assms(3)] get_data_core [OF assms(3)] in simp_all)
  then show ?thesis using keeps_trans keeps_core [OF assms(1,3)] by blast
qed

lemma keeps_lock:
  assumes "kheap_ok (datas s)" "a \<in> dom (kobj (datas s))" "pmem_lock_data_and_mm e a s = Some (l, t)"
  shows "keeps s t"
proof -
  let ?d = "get_data s a"
  have r: "keeps s s" by (rule keeps_core [OF assms(1) refl])
  have k: "keeps s (set_data a (?d\<lparr>data_task := 0, data_flags := data_flags ?d AND NOT PMEM_FLAGS_SUBMAP\<rparr>)
      (put_task_struct (data_task ?d) s))"
    by (rule keeps_set_data_core [OF assms(1,2)]) (simp_all add: flag_simps)
  show ?thesis using assms(3) r k by (auto simp: pmem_lock_data_and_mm_def Let_def split: if_splits)
qed

lemma keeps_remap:
  assumes ok: "kheap_ok (datas s)" and a: "data_of s f \<in> dom (kobj (datas s))"
    and r: "pmem_remap e rg f opn s = Some (r, t)"
  shows "keeps s t"
proof (cases "\<not> PMEM_IS_PAGE_ALIGNED (region_offset rg) \<or> \<not> PMEM_IS_PAGE_ALIGNED (region_len rg) \<or> region_len rg = 0")
  case True
  then show ?thesis using r keeps_core [OF ok refl] by (auto simp: pmem_remap_def Let_def split: if_splits)
next
  case False
  let ?a = "data_of s f" and ?i = "get_id s f"
  from r False obtain l s1 where l: "pmem_lock_data_and_mm e ?a s = Some (l, s1)"
    by (auto simp: pmem_remap_def Let_def bind_eq_Some_conv)
  have k1: "keeps s s1" by (rule keeps_lock [OF ok a l])
  note h = keeps_heap [OF k1]
  let ?d = "get_data s1 ?a"
  have sd: "keeps s (set_data ?a (?d\<lparr>region_list := rs\<rparr>) u)" if "core u = core s1" for u rs
  proof -
    have "keeps s1 (set_data ?a (?d\<lparr>region_list := rs\<rparr>) u)"
      by (rule keeps_set_data_core) (use h a that in \<open>simp_all add: has_flag_def\<close>)
    then show ?thesis using k1 keeps_trans by blast
  qed
  show ?thesis using r False l k1 sd
    by (auto simp: pmem_remap_def Let_def split: if_splits sum.splits prod.splits remap_op.splits
        dest!: core_remap core_unmap core_next_fails intro: keeps_then_core)
qed

lemma keeps_revoke:
  assumes ok: "kheap_ok (datas s)" and a: "a \<in> dom (kobj (datas s))" and r: "pmem_revoke e f a s = Some (r, t)"
  shows "keeps s t"
proof -
  let ?s = "set_data a ((get_data s a)\<lparr>master_file := 0\<rparr>) s"
  have k0: "keeps s ?s" by (rule keeps_set_data [OF ok a]) (simp_all add: has_flag_def)
  from r obtain l s1 where l: "pmem_lock_data_and_mm e a ?s = Some (l, s1)"
    by (auto simp: pmem_revoke_def Let_def bind_eq_Some_conv)
  have "keeps ?s s1" by (rule keeps_lock [OF _ _ l]) (use keeps_heap [OF k0] a in simp_all)
  then have k1: "keeps s s1" using k0 keeps_trans by blast
  note h = keeps_heap [OF k1]
  have sd: "keeps s (set_data a ((get_data s1 a)\<lparr>region_list := []\<rparr>) u)" if "core u = core s1" for u
  proof -
    have "keeps s1 (set_data a ((get_data s1 a)\<lparr>region_list := []\<rparr>) u)"
      by (rule keeps_set_data_core) (use h a that in \<open>simp_all add: has_flag_def\<close>)
    then show ?thesis using k1 keeps_trans by blast
  qed
  show ?thesis using r l k1 sd
    by (auto simp: pmem_revoke_def Let_def bind_eq_Some_conv split: if_splits sum.splits dest!: core_unmap_regions)
qed

lemma keeps_revoke_loop:
  "kheap_ok (datas s) \<Longrightarrow> set bs \<subseteq> dom (kobj (datas s)) \<Longrightarrow> revoke_loop e f bs s = Some (r, t) \<Longrightarrow> keeps s t"
proof (induction bs arbitrary: s)
  case (Cons b bs)
  from Cons.prems(3) obtain s1 where s1: "(let sub_data = get_data s b in
       if PMEM_IS_SUBMAP sub_data \<and> f = master_file sub_data then pmem_revoke e f b s else Some ((), s)) = Some ((), s1)"
    "revoke_loop e f bs s1 = Some (r, t)" by (auto simp: bind_eq_Some_conv)
  have k: "keeps s s1"
    using s1(1) keeps_revoke [OF Cons.prems(1), of b] Cons.prems(2) keeps_core [OF Cons.prems(1) refl]
    by (auto simp: Let_def split: if_splits)
  then show ?case using Cons.IH [OF _ _ s1(2)] keeps_heap [OF k] Cons.prems(2) keeps_trans by auto
qed (use keeps_core in auto)

lemma keeps_file_data: "keeps s t \<Longrightarrow> file_data t = file_data s \<and> get_id t = get_id s \<and> data_of t = data_of s"
  by (auto simp: keeps_def file_data_def get_id_def data_of_def fun_eq_iff)

lemma keeps_master: "keeps s t \<Longrightarrow> master_index t = master_index s"
  using keeps_file_data [of s t] by (auto simp: keeps_def master_index_def fun_eq_iff Let_def split: option.splits)

lemma keeps_wf:
  assumes "pmem_wf s" "keeps s t"
  shows "pmem_wf t"
proof -
  have e: "pmem t = pmem s" "filp t = filp s" using assms(2) by (auto simp: keeps_def)
  have f: "file_data t = file_data s" "get_id t = get_id s" "master_index t = master_index s"
    and h: "kheap_ok (datas t)" "dom (kobj (datas t)) = dom (kobj (datas s))"
    using keeps_file_data [OF assms(2)] keeps_master [OF assms(2)] keeps_heap [OF assms(2)] by simp_all
  have hs: "kheap_ok (datas s)" using assms(1) by (simp add: pmem_wf_def files_ok_def)
  have "files_ok t = files_ok s" unfolding files_ok_def e f h(2) by (simp only: h(1) hs)
  moreover have "masters_ok t = masters_ok s" unfolding masters_ok_def e f ..
  ultimately show ?thesis using assms(1) unfolding pmem_wf_def e by blast
qed

subsection \<open>Operations that change owners\<close>

lemma set_pmem_simps [simp]:
  "pmem (set_pmem i p s) = (pmem s)(i := p)" "filp (set_pmem i p s) = filp s" "datas (set_pmem i p s) = datas s"
  "get_data (set_pmem i p s) = get_data s" "file_data (set_pmem i p s) = file_data s"
  "get_id (set_pmem i p s) = get_id s" "data_of (set_pmem i p s) = data_of s"
  by (simp_all add: set_pmem_def get_data_def file_data_def get_id_def data_of_def fun_eq_iff)

lemma set_data_simps [simp]:
  "pmem (set_data a d s) = pmem s" "filp (set_data a d s) = filp s" "datas (set_data a d s) = kwrite a d (datas s)"
  "file_data (set_data a d s) = file_data s" "get_id (set_data a d s) = get_id s" "data_of (set_data a d s) = data_of s"
  by (simp_all add: set_data_def file_data_def get_id_def data_of_def fun_eq_iff)

lemma file_dataD: "file_data s f = Some a \<Longrightarrow> data_of s f = a \<and> private_data (filp s f) = Priv_data a"
  by (auto simp: file_data_def data_of_def split: file_private.splits)

lemma files_okD:
  assumes "files_ok s" "file_data s f = Some a"
  shows "a \<in> dom (kobj (datas s))" "get_id s f < PMEM_MAX_DEVICES" "kheap_ok (datas s)"
    and "file_data s g = Some a \<Longrightarrow> g = f"
proof -
  have "private_data (filp s f) \<noteq> Priv_null" using file_dataD [OF assms(2)] by simp
  then have "(\<exists>b. file_data s f = Some b \<and> b \<in> dom (kobj (datas s))) \<and> get_id s f < PMEM_MAX_DEVICES"
    using assms(1) unfolding files_ok_def by blast
  then show "a \<in> dom (kobj (datas s))" "get_id s f < PMEM_MAX_DEVICES" using assms(2) by auto
  show "kheap_ok (datas s)" using assms(1) by (simp add: files_ok_def)
  show "g = f" if "file_data s g = Some a" using assms that unfolding files_ok_def by blast
qed

lemma masters_okD:
  assumes "masters_ok s" "master_index s f = Some i"
  shows "dev_masters (pmem s (get_id s f)) i"
    and "master_index s g = Some j \<Longrightarrow> g \<noteq> f \<Longrightarrow> get_id s g = get_id s f \<Longrightarrow>
      \<not> no_allocator (pmem s (get_id s f)) \<and> j \<noteq> i"
  using assms unfolding masters_ok_def by metis+

lemma masters_okI:
  assumes "\<And>f i. master_index s f = Some i \<Longrightarrow> dev_masters (pmem s (get_id s f)) i"
    and "\<And>f g i j. f \<noteq> g \<Longrightarrow> get_id s f = get_id s g \<Longrightarrow> master_index s f = Some i \<Longrightarrow> master_index s g = Some j \<Longrightarrow>
      \<not> no_allocator (pmem s (get_id s f)) \<and> i \<noteq> j"
  shows "masters_ok s"
  using assms unfolding masters_ok_def by blast

lemma wf_update:
  assumes wf: "pmem_wf s" and f: "file_data s f = Some a" and dev: "i = get_id s f"
    and p: "device_ok p" "data_list p = data_list (pmem s i)" "no_allocator p = no_allocator (pmem s i)"
    and oth: "\<And>g j. g \<noteq> f \<Longrightarrow> get_id s g = i \<Longrightarrow> master_index s g = Some j \<Longrightarrow> dev_masters p j"
    and self: "\<not> has_flag PMEM_FLAGS_CONNECTED d \<Longrightarrow> 0 \<le> data_index d \<Longrightarrow> dev_masters p (nat (data_index d)) \<and>
      (\<forall>g j. g \<noteq> f \<longrightarrow> get_id s g = i \<longrightarrow> master_index s g = Some j \<longrightarrow> \<not> no_allocator p \<and> j \<noteq> nat (data_index d))"
  shows "pmem_wf (set_data a d (set_pmem i p s))" (is "pmem_wf ?t")
proof -
  have ok: "files_ok s" "masters_ok s" "\<And>j. j < PMEM_MAX_DEVICES \<Longrightarrow> device_ok (pmem s j)"
    using wf by (auto simp: pmem_wf_def)
  note fd = files_okD [OF ok(1) f]
  have dl: "data_list (pmem ?t j) = data_list (pmem s j)" for j using p(2) by simp
  have na: "no_allocator (pmem ?t j) = no_allocator (pmem s j)" for j using p(3) by simp
  have kh: "kheap_ok (datas ?t)" "dom (kobj (datas ?t)) = dom (kobj (datas s))" using fd(1,3) by auto
  have eqs: "file_data ?t = file_data s" "get_id ?t = get_id s" "filp ?t = filp s" by simp_all
  have "files_ok ?t = files_ok s" unfolding files_ok_def eqs dl kh(2) by (simp only: kh(1) fd(3))
  moreover have "device_ok (pmem ?t j)" if "j < PMEM_MAX_DEVICES" for j using ok(3) that p(1) by simp
  moreover have other: "master_index ?t g = master_index s g" if "g \<noteq> f" for g
    using that fd(4) by (auto simp: master_index_def split: option.splits)
  have me: "master_index ?t f = (if \<not> has_flag PMEM_FLAGS_CONNECTED d \<and> 0 \<le> data_index d then Some (nat (data_index d)) else None)"
    using f by (simp add: master_index_def Let_def)
  have "masters_ok ?t"
  proof (rule masters_okI)
    fix g j assume m: "master_index ?t g = Some j"
    show "dev_masters (pmem ?t (get_id ?t g)) j"
    proof (cases "g = f")
      case True
      then show ?thesis using m me self dev by (auto split: if_splits)
    next
      case False
      then have "master_index s g = Some j" using m other by simp
      then show ?thesis using masters_okD(1) [OF ok(2), of g j] oth False by (cases "get_id s g = i") auto
    qed
  next
    fix g h j k assume n: "g \<noteq> h" "get_id ?t g = get_id ?t h" "master_index ?t g = Some j" "master_index ?t h = Some k"
    consider "g = f" | "h = f" | "g \<noteq> f" "h \<noteq> f" by blast
    then show "\<not> no_allocator (pmem ?t (get_id ?t g)) \<and> j \<noteq> k"
    proof cases
      case 1
      then have "master_index s h = Some k" "j = nat (data_index d)" using n other me by (auto split: if_splits)
      then show ?thesis using self n me 1 dev by (auto split: if_splits)
    next
      case 2
      then have "master_index s g = Some j" "k = nat (data_index d)" using n other me by (auto split: if_splits)
      then show ?thesis using self n me 2 dev by (auto split: if_splits)
    next
      case 3
      then have "master_index s g = Some j" "master_index s h = Some k" using n other by auto
      then show ?thesis using masters_okD(2) [OF ok(2), of g j h k] n na by auto
    qed
  qed
  ultimately show ?thesis using ok(1) unfolding pmem_wf_def by blast
qed

lemma wf_allocate:
  assumes wf: "pmem_wf s" and f: "file_data s f = Some a" and i: "i = get_id s f"
    and al: "pmem_allocate len (pmem s i) = (r, p)"
  shows "pmem_wf (set_data a ((get_data s a)\<lparr>data_index := r\<rparr>) (set_pmem i p s))"
proof -
  have ok: "files_ok s" "masters_ok s" "device_ok (pmem s i)" using wf files_okD(2) f i by (auto simp: pmem_wf_def)
  have mast: "dev_masters (pmem s i) j" if "get_id s g = i" "master_index s g = Some j" for g j
    using masters_okD(1) [OF ok(2) that(2)] that(1) by simp
  show ?thesis
  proof (cases "no_allocator (pmem s i)")
    case True
    then have c: "p = pmem s i \<and> r = - 1 \<or> p = (pmem s i)\<lparr>allocated := True\<rparr> \<and> \<not> allocated (pmem s i)"
      using al by (auto simp: pmem_allocate_def Let_def split: if_splits)
    then show ?thesis
    proof
      assume "p = pmem s i \<and> r = - 1"
      then show ?thesis using mast ok(3) by (intro wf_update [OF wf f i]) auto
    next
      assume p: "p = (pmem s i)\<lparr>allocated := True\<rparr> \<and> \<not> allocated (pmem s i)"
      then have none: "master_index s g = None" if "get_id s g = i" for g
        using mast [OF that] True by (cases "master_index s g") (auto simp: dev_masters_def)
      show ?thesis by (rule wf_update [OF wf f i]) (use p none True in \<open>auto simp: device_ok_def dev_masters_def\<close>)
    qed
  next
    case False
    then have p: "pmem_ok (pmem s i)" using ok(3) by (simp add: device_ok_def)
    have fr: "p = (pmem s i)\<lparr>bitmap := bitmap p\<rparr>" by (rule pmem_allocate_frame [OF p al])
    have n: "\<not> no_allocator p" "data_list p = data_list (pmem s i)"
      using False arg_cong [OF fr, of no_allocator] arg_cong [OF fr, of data_list] by simp_all
    have keep: "dev_masters p j \<and> (0 \<le> r \<longrightarrow> j \<noteq> nat r)" if "get_id s g = i" "master_index s g = Some j" for g j
      using mast [OF that] palloc.alloc_keeps [OF p al] False n(1) by (fastforce simp: dev_masters_def)
    have new: "dev_masters p (nat r)" if "0 \<le> r" using palloc.alloc_new [OF p al that] n(1) by (auto simp: dev_masters_def)
    show ?thesis
    proof (rule wf_update [OF wf f i])
      show "device_ok p" using palloc.alloc_ok [OF p al] by (simp add: device_ok_def)
      show "dev_masters p j" if "get_id s g = i" "master_index s g = Some j" for g j using keep [OF that] by blast
      show "dev_masters p (nat (data_index ((get_data s a)\<lparr>data_index := r\<rparr>))) \<and>
          (\<forall>g j. g \<noteq> f \<longrightarrow> get_id s g = i \<longrightarrow> master_index s g = Some j \<longrightarrow>
            \<not> no_allocator p \<and> j \<noteq> nat (data_index ((get_data s a)\<lparr>data_index := r\<rparr>)))"
        if "0 \<le> data_index ((get_data s a)\<lparr>data_index := r\<rparr>)" using that new n(1) keep by simp
    qed (use n False in simp_all)
  qed
qed

lemma wf_connect:
  assumes wf: "pmem_wf s" and f: "file_data s f = Some a" and c: "pmem_connect e fd f s = (r, t)"
  shows "pmem_wf t"
proof -
  have ok: "masters_ok s" "device_ok (pmem s (get_id s f))" using wf files_okD(2) f by (auto simp: pmem_wf_def)
  have "t = s \<or> (\<exists>d. t = set_data a d s \<and> has_flag PMEM_FLAGS_CONNECTED d)"
    using c file_dataD [OF f] by (auto simp: pmem_connect_def Let_def flag_simps split: if_splits)
  then show ?thesis
  proof
    assume "\<exists>d. t = set_data a d s \<and> has_flag PMEM_FLAGS_CONNECTED d"
    then obtain d where d: "t = set_data a d s" "has_flag PMEM_FLAGS_CONNECTED d" by blast
    have "pmem_wf (set_data a d (set_pmem (get_id s f) (pmem s (get_id s f)) s))"
    proof (rule wf_update [OF wf f refl ok(2)])
      fix g j assume "get_id s g = get_id s f" "master_index s g = Some j"
      then show "dev_masters (pmem s (get_id s f)) j" using masters_okD(1) [OF ok(1), of g j] by simp
    qed (use d(2) in auto)
    then show ?thesis using d(1) by (simp add: set_pmem_def)
  qed (use wf in simp)
qed

lemma wf_heap: "pmem_wf s \<Longrightarrow> kheap_ok (datas s)"
  by (simp add: pmem_wf_def files_ok_def)

lemma wf_core: "pmem_wf s \<Longrightarrow> core t = core s \<Longrightarrow> pmem_wf t"
  by (rule keeps_wf [OF _ keeps_core [OF wf_heap]])

lemma wf_live:
  assumes "pmem_wf s" "file_data s f = Some a"
  shows "a \<in> dom (kobj (datas s)) \<and> data_of s f = a"
  using files_okD(1) [OF _ assms(2)] file_dataD [OF assms(2)] assms(1) by (simp add: pmem_wf_def)

lemma wf_remap:
  assumes "pmem_wf s" "file_data s f = Some a" "pmem_remap e rg f opn s = Some (r, t)"
  shows "pmem_wf t"
proof -
  have "data_of s f \<in> dom (kobj (datas s))" using wf_live [OF assms(1,2)] by simp
  then show ?thesis by (rule keeps_wf [OF assms(1) keeps_remap [OF wf_heap [OF assms(1)] _ assms(3)]])
qed

lemma wf_ioctl:
  assumes wf: "pmem_wf s" and f: "file_data s f = Some a" and r: "pmem_ioctl e f cmd s = Some (r, t)"
  shows "pmem_wf t"
proof (cases cmd)
  case (PMEM_ALLOCATE len)
  obtain k p where k: "pmem_allocate len (pmem s (get_id s f)) = (k, p)" by fastforce
  show ?thesis using r PMEM_ALLOCATE k wf wf_allocate [OF wf f refl k] wf_live [OF wf f]
    by (auto simp: pmem_ioctl_def Let_def split: if_splits)
next
  case (PMEM_CONNECT fd)
  obtain k s1 where k: "pmem_connect e fd f s = (k, s1)" by fastforce
  show ?thesis using r PMEM_CONNECT k wf_connect [OF wf f k] by (auto simp: pmem_ioctl_def Let_def)
next
  case (PMEM_CACHE_FLUSH rg)
  have "core (flush_pmem_file f x y s) = core s" for x y by (simp add: flush_pmem_file_def Let_def)
  then show ?thesis using r PMEM_CACHE_FLUSH wf wf_core by (auto simp: pmem_ioctl_def Let_def split: option.splits)
qed (use r wf wf_remap [OF wf f] in \<open>auto simp: pmem_ioctl_def answer_def Let_def split: option.splits\<close>)

lemma wf_mmap_allocate:
  assumes wf: "pmem_wf s" and f: "file_data s f = Some a"
  shows "pmem_wf (pmem_mmap_allocate (get_id s f) a len s)"
proof -
  obtain k p where k: "pmem_allocate len (pmem s (get_id s f)) = (k, p)" by fastforce
  show ?thesis using wf_allocate [OF wf f refl k] by (simp add: pmem_mmap_allocate_def k)
qed

lemma file_data_mmap_allocate [simp]:
  "file_data (pmem_mmap_allocate i a len s) = file_data s" "get_id (pmem_mmap_allocate i a len s) = get_id s"
  by (simp_all add: pmem_mmap_allocate_def Let_def split: prod.splits)

lemma wf_set_data:
  assumes wf: "pmem_wf s" and f: "file_data s f = Some a" and t: "core t = core s"
    and "data_index d = data_index (get_data s a)"
    and "has_flag PMEM_FLAGS_CONNECTED d = has_flag PMEM_FLAGS_CONNECTED (get_data s a)"
  shows "pmem_wf (set_data a d t)"
  by (rule keeps_wf [OF wf keeps_set_data_core [OF wf_heap [OF wf] conjunct1 [OF wf_live [OF wf f]] t assms(4,5)]])

lemma wf_mmap_connected:
  assumes wf: "pmem_wf s" and f: "file_data s f = Some a" and r: "mmap_connected e i v a n s = Some (r, t)"
  shows "pmem_wf t"
proof -
  let ?d = "get_data s a"
  obtain g s1 where g: "pmem_map_garbage i v 0 n s = (g, s1)" by fastforce
  have c1: "core s1 = core s" by (rule core_map_garbage [OF g])
  show ?thesis
  proof (cases g)
    case (Some x)
    then show ?thesis using r g wf_core [OF wf c1] by (simp add: mmap_connected_def Let_def)
  next
    case None
    then obtain k s2 where k: "remap_regions i v ?d (region_list ?d) s1 = Some (k, s2)"
      using r g by (auto simp: mmap_connected_def Let_def bind_eq_Some_conv)
    have c2: "core s2 = core s" using core_remap_regions [OF k] c1 by simp
    have "pmem_wf (set_data a (?d\<lparr>data_flags := data_flags ?d OR PMEM_FLAGS_SUBMAP, data_task := group_leader e, data_vma := v\<rparr>)
        (s2\<lparr>task_refs := (task_refs s2)(group_leader e := task_refs s2 (group_leader e) + 1)\<rparr>))"
      by (rule wf_set_data [OF wf f]) (simp_all add: c2 flag_simps)
    then show ?thesis using r g None k wf_core [OF wf c2]
      by (auto simp: mmap_connected_def Let_def split: if_splits)
  qed
qed

lemma wf_mmap_master:
  assumes wf: "pmem_wf s" and f: "file_data s f = Some a" and r: "mmap_master e i v a n s = Some (r, t)"
  shows "pmem_wf t"
proof -
  let ?d = "get_data s a"
  obtain k s1 where k: "pmem_map_pfn_range i v ?d 0 n s = Some (k, s1)"
    using r by (auto simp: mmap_master_def Let_def bind_eq_Some_conv)
  have c: "core s1 = core s" by (rule core_map [OF k])
  have "pmem_wf (set_data a (?d\<lparr>data_flags := data_flags ?d OR PMEM_FLAGS_MASTERMAP, data_pid := cur_pid e\<rparr>) s1)"
    by (rule wf_set_data [OF wf f c]) (simp_all add: flag_simps)
  then show ?thesis using r k wf_core [OF wf c] by (auto simp: mmap_master_def Let_def split: if_splits)
qed

lemma wf_set_vma: "pmem_wf s \<Longrightarrow> pmem_wf (set_vma v w s)"
  by (rule wf_core) simp_all

lemma wf_mmap_pages:
  assumes wf: "pmem_wf s" and f: "file_data s f = Some a" and r: "mmap_pages e f v a n s = Some (r, t)"
  shows "pmem_wf t"
proof -
  obtain x k u where u: "(if has_flag PMEM_FLAGS_CONNECTED (get_data s a) then mmap_connected e (get_id s f) v a n (set_vma v x s)
      else mmap_master e (get_id s f) v a n (set_vma v x s)) = Some (k, u)"
    "t = (if k \<noteq> None then u else set_vma v ((vmas u v)\<lparr>vm_ops := True\<rparr>) u)"
    using r unfolding mmap_pages_def Let_def bind_eq_Some_conv by auto
  have fd: "file_data (set_vma v x s) f = Some a" using f by (simp add: file_data_def set_vma_def)
  have "pmem_wf u"
    using u(1) wf_mmap_connected [OF wf_set_vma [OF wf] fd, of e "get_id s f" v n k u]
      wf_mmap_master [OF wf_set_vma [OF wf] fd, of e "get_id s f" v n k u] by (simp split: if_splits)
  then show ?thesis using u(2) wf_set_vma [of u v "(vmas u v)\<lparr>vm_ops := True\<rparr>"] by (cases k) simp_all
qed

lemma wf_mmap:
  assumes wf: "pmem_wf s" and f: "file_data s f = Some a" and r: "pmem_mmap e f v s = Some (r, t)"
  shows "pmem_wf t"
proof -
  let ?i = "get_id s f" and ?len = "vm_end (vmas s v) - vm_start (vmas s v)"
  define s1 where "s1 = (if data_index (get_data s a) = - 1 then pmem_mmap_allocate ?i a ?len s else s)"
  have w: "pmem_wf s1" and fd: "file_data s1 f = Some a"
    using wf wf_mmap_allocate [OF wf f] f by (simp_all add: s1_def)
  have a: "data_of s f = a" using wf_live [OF wf f] by blast
  show ?thesis using r [unfolded pmem_mmap_def Let_def a s1_def [symmetric]] wf w wf_mmap_pages [OF w fd]
    by (auto split: if_splits)
qed

lemma data_list_irrelevant [simp]:
  "owned (p\<lparr>data_list := l\<rparr>) = owned p" "pmem_ok (p\<lparr>data_list := l\<rparr>) = pmem_ok p"
  "device_ok (p\<lparr>data_list := l\<rparr>) = device_ok p" "dev_masters (p\<lparr>data_list := l\<rparr>) = dev_masters p"
  by (simp_all add: owned_def pmem_ok_def device_ok_def dev_masters_def fun_eq_iff Let_def)

lemma files_okI:
  assumes "kheap_ok (datas s)"
    and "\<And>f. private_data (filp s f) \<noteq> Priv_null \<Longrightarrow> \<exists>a. file_data s f = Some a"
    and "\<And>f a. file_data s f = Some a \<Longrightarrow> a \<in> dom (kobj (datas s)) \<and> get_id s f < PMEM_MAX_DEVICES"
    and "\<And>f g a. file_data s f = Some a \<Longrightarrow> file_data s g = Some a \<Longrightarrow> f = g"
    and "\<And>i. i < PMEM_MAX_DEVICES \<Longrightarrow> distinct (data_list (pmem s i))"
    and "\<And>i a. i < PMEM_MAX_DEVICES \<Longrightarrow>
      a \<in> set (data_list (pmem s i)) \<longleftrightarrow> (\<exists>f. file_data s f = Some a \<and> get_id s f = i)"
  shows "files_ok s"
  unfolding files_ok_def using assms by blast

lemma files_ok_list:
  assumes "files_ok s" "i < PMEM_MAX_DEVICES"
  shows "distinct (data_list (pmem s i))"
    and "a \<in> set (data_list (pmem s i)) \<longleftrightarrow> (\<exists>f. file_data s f = Some a \<and> get_id s f = i)"
  using assms unfolding files_ok_def by blast+

lemma files_ok_private:
  assumes "files_ok s" "private_data (filp s f) \<noteq> Priv_null"
  shows "\<exists>a. file_data s f = Some a"
  using assms unfolding files_ok_def by blast

definition misc_open :: "addr \<Rightarrow> nat \<Rightarrow> bool \<Rightarrow> pmem_state \<Rightarrow> errno option \<times> pmem_state" where
  "misc_open f i sync s =
     (let file = \<lparr>i_rdev = (MISC_MAJOR, i), f_sync = sync, private_data = Priv_dev i\<rparr>;
          (r, s) = pmem_open f (s\<lparr>filp := (filp s)(f := file)\<rparr>)
      in (r, if r = None then s else s\<lparr>filp := (filp s)(f := (filp s f)\<lparr>private_data := Priv_null\<rparr>)\<rparr>))"

lemma wf_new_file:
  assumes wf: "pmem_wf s" and n: "file_data s f = None" and i: "i < PMEM_MAX_DEVICES"
    and a: "kzalloc d (datas s) = (Some a, h)" and d: "data_index d < 0"
    and t: "pmem t = (pmem s)(i := (pmem s i)\<lparr>data_list := a # data_list (pmem s i)\<rparr>)" "datas t = h"
      "filp t = (filp s)(f := \<lparr>i_rdev = (m, i), f_sync = b, private_data = Priv_data a\<rparr>)"
  shows "pmem_wf t"
proof -
  have ok: "files_ok s" "masters_ok s" "\<And>j. j < PMEM_MAX_DEVICES \<Longrightarrow> device_ok (pmem s j)"
    using wf by (auto simp: pmem_wf_def)
  have h: "kheap_ok h" "kobj (datas s) a = None" "kobj h = (kobj (datas s))(a \<mapsto> d)"
    using slab.alloc_Some [OF wf_heap [OF wf] a] by auto
  have fd: "file_data t = (file_data s)(f \<mapsto> a)" by (auto simp: t file_data_def fun_eq_iff)
  have gi: "get_id t g = (if g = f then i else get_id s g)" for g by (simp add: t get_id_def)
  have dat: "get_data t b = (if b = a then d else get_data s b)" for b
    by (simp add: t get_data_def deref_def h(3))
  have fresh: "file_data s g \<noteq> Some a" for g using files_okD(1) [OF ok(1), of g a] h(2) by auto
  have mi: "master_index t g = master_index s g" for g
    unfolding master_index_def fd dat using n d fresh [of g] by (auto split: option.splits)
  have "files_ok t"
  proof (rule files_okI)
    show "kheap_ok (datas t)" using h by (simp add: t)
    show "\<exists>a. file_data t g = Some a" if "private_data (filp t g) \<noteq> Priv_null" for g
      using that files_ok_private [OF ok(1), of g] by (cases "g = f") (simp_all add: fd t)
    show "x \<in> dom (kobj (datas t)) \<and> get_id t g < PMEM_MAX_DEVICES" if "file_data t g = Some x" for g x
      using that files_okD(1,2) [OF ok(1), of g x] i by (cases "g = f") (auto simp: fd gi t h(3))
    show "g = k" if "file_data t g = Some x" "file_data t k = Some x" for g k x
      using that fresh files_okD(4) [OF ok(1), of k x g] by (auto simp: fd split: if_splits)
    show "distinct (data_list (pmem t j))" if "j < PMEM_MAX_DEVICES" for j
      using files_ok_list [OF ok(1) that] fresh by (auto simp: t)
    show "x \<in> set (data_list (pmem t j)) \<longleftrightarrow> (\<exists>g. file_data t g = Some x \<and> get_id t g = j)"
      if j: "j < PMEM_MAX_DEVICES" for j x
    proof -
      have "(\<exists>g. file_data t g = Some x \<and> get_id t g = j) \<longleftrightarrow>
          x = a \<and> j = i \<or> (\<exists>g. g \<noteq> f \<and> file_data s g = Some x \<and> get_id s g = j)" by (auto simp: fd gi)
      also have "\<dots> \<longleftrightarrow> x = a \<and> j = i \<or> (\<exists>g. file_data s g = Some x \<and> get_id s g = j)" using n by (metis option.distinct(1))
      finally show ?thesis using files_ok_list(2) [OF ok(1) j, of x] by (auto simp: t)
    qed
  qed
  moreover have none: "master_index s f = None" using n by (simp add: master_index_def)
  have pm: "dev_masters (pmem t j) = dev_masters (pmem s j)" "no_allocator (pmem t j) = no_allocator (pmem s j)" for j
    by (simp_all add: t)
  have "masters_ok t"
  proof (rule masters_okI)
    show "dev_masters (pmem t (get_id t g)) j" if "master_index t g = Some j" for g j
      using that none masters_okD(1) [OF ok(2), of g j] unfolding mi pm by (cases "g = f") (simp_all add: gi)
    show "\<not> no_allocator (pmem t (get_id t g)) \<and> j \<noteq> k"
      if "g \<noteq> l" "get_id t g = get_id t l" "master_index t g = Some j" "master_index t l = Some k" for g l j k
    proof -
      have "g \<noteq> f" "l \<noteq> f" using that(3,4) none unfolding mi by auto
      then show ?thesis using masters_okD(2) [OF ok(2), of g j l k] that unfolding mi pm by (auto simp: gi)
    qed
  qed
  moreover have "device_ok (pmem t j)" if "j < PMEM_MAX_DEVICES" for j using ok(3) [OF that] i ok(3) by (simp add: t)
  ultimately show ?thesis unfolding pmem_wf_def by blast
qed

lemma wf_closed_file:
  assumes wf: "pmem_wf s" and n: "file_data s f = None" and h: "kheap_ok h" "kobj h = kobj (datas s)"
    and t: "pmem t = pmem s" "datas t = h" "filp t = (filp s)(f := x\<lparr>private_data := Priv_null\<rparr>)"
  shows "pmem_wf t"
proof -
  have ok: "files_ok s" "masters_ok s" using wf by (auto simp: pmem_wf_def)
  have fd: "file_data t = file_data s" using n by (auto simp: file_data_def fun_eq_iff t)
  have gi: "g \<noteq> f \<Longrightarrow> get_id t g = get_id s g" for g by (simp add: get_id_def t)
  have gd: "get_data t = get_data s" by (simp add: get_data_def deref_def h(2) fun_eq_iff t)
  have mi: "master_index t = master_index s" unfolding master_index_def [abs_def] fd gd ..
  have nf: "file_data s g = Some y \<Longrightarrow> g \<noteq> f" "master_index s g = Some j \<Longrightarrow> g \<noteq> f" for g y j
    using n by (auto simp: master_index_def)
  have "files_ok t"
  proof (rule files_okI)
    show "\<exists>a. file_data t g = Some a" if "private_data (filp t g) \<noteq> Priv_null" for g
      using that files_ok_private [OF ok(1), of g] unfolding fd t(3) by (cases "g = f") simp_all
    show "y \<in> dom (kobj (datas t)) \<and> get_id t g < PMEM_MAX_DEVICES" if "file_data t g = Some y" for g y
      using that files_okD(1,2) [OF ok(1), of g y] nf(1) [of g y] gi [of g] h t(2) unfolding fd by simp
    show "g = k" if "file_data t g = Some y" "file_data t k = Some y" for g k y
      using that files_okD(4) [OF ok(1), of k y g] unfolding fd by simp
    show "y \<in> set (data_list (pmem t j)) \<longleftrightarrow> (\<exists>g. file_data t g = Some y \<and> get_id t g = j)"
      if "j < PMEM_MAX_DEVICES" for j y
      using files_ok_list(2) [OF ok(1) that, of y] nf(1) gi unfolding fd t(1) by metis
  qed (use h t files_ok_list(1) [OF ok(1)] in simp_all)
  moreover have "masters_ok t"
  proof (rule masters_okI)
    show "dev_masters (pmem t (get_id t g)) j" if "master_index t g = Some j" for g j
      using that masters_okD(1) [OF ok(2), of g j] gi nf(2) [of g j] unfolding mi t(1) by simp
    show "\<not> no_allocator (pmem t (get_id t g)) \<and> j \<noteq> k"
      if "g \<noteq> l" "get_id t g = get_id t l" "master_index t g = Some j" "master_index t l = Some k" for g l j k
      using masters_okD(2) [OF ok(2), of g j l k] that gi nf(2) [of g j] nf(2) [of l k] unfolding mi t(1) by auto
  qed
  ultimately show ?thesis using wf t(1) unfolding pmem_wf_def by simp
qed

lemma wf_drop_file:
  assumes wf: "pmem_wf s" and f: "file_data s f = Some a" and i: "i = get_id s f"
    and p: "device_ok p" "data_list p = remove1 a (data_list (pmem s i))" "no_allocator p = no_allocator (pmem s i)"
    and oth: "\<And>g j. g \<noteq> f \<Longrightarrow> get_id s g = i \<Longrightarrow> master_index s g = Some j \<Longrightarrow> dev_masters p j"
    and t: "pmem t = (pmem s)(i := p)" "datas t = kfree a (datas s)"
      "filp t = (filp s)(f := (filp s f)\<lparr>private_data := Priv_null\<rparr>)"
  shows "pmem_wf t"
proof -
  have ok: "files_ok s" "masters_ok s" "\<And>j. j < PMEM_MAX_DEVICES \<Longrightarrow> device_ok (pmem s j)"
    using wf by (auto simp: pmem_wf_def)
  have fd: "file_data t = (file_data s)(f := None)" by (auto simp: file_data_def fun_eq_iff t)
  have gi: "get_id t = get_id s" by (auto simp: get_id_def t fun_eq_iff)
  have dat: "b \<noteq> a \<Longrightarrow> get_data t b = get_data s b" for b by (simp add: get_data_def deref_kfree t)
  have uniq: "file_data s g = Some a \<Longrightarrow> g = f" for g by (rule files_okD(4) [OF ok(1) f])
  have mi: "master_index t g = (if g = f then None else master_index s g)" for g
  proof (cases "file_data s g")
    case (Some b)
    then have "g \<noteq> f \<Longrightarrow> b \<noteq> a" using uniq [of g] by auto
    then show ?thesis using Some dat [of b] by (cases "g = f") (simp_all add: master_index_def fd)
  qed (simp add: master_index_def fd)
  have na: "no_allocator (pmem t j) = no_allocator (pmem s j)" for j using p(3) by (simp add: t)
  have "files_ok t"
  proof (rule files_okI)
    show "kheap_ok (datas t)" using wf_heap [OF wf] by (simp add: t)
    show "\<exists>a. file_data t g = Some a" if "private_data (filp t g) \<noteq> Priv_null" for g
      using that files_ok_private [OF ok(1), of g] by (cases "g = f") (simp_all add: fd t)
    show "x \<in> dom (kobj (datas t)) \<and> get_id t g < PMEM_MAX_DEVICES" if "file_data t g = Some x" for g x
    proof -
      have g: "g \<noteq> f" "file_data s g = Some x" using that by (auto simp: fd split: if_splits)
      then have "x \<noteq> a" using uniq by blast
      then show ?thesis using files_okD(1,2) [OF ok(1) g(2)] by (auto simp: gi t)
    qed
    show "g = k" if "file_data t g = Some x" "file_data t k = Some x" for g k x
      using that files_okD(4) [OF ok(1), of k x g] by (auto simp: fd split: if_splits)
    show d: "distinct (data_list (pmem t j))" if "j < PMEM_MAX_DEVICES" for j
      using files_ok_list(1) [OF ok(1) that] p(2) by (auto simp: t)
    show "x \<in> set (data_list (pmem t j)) \<longleftrightarrow> (\<exists>g. file_data t g = Some x \<and> get_id t g = j)"
      if j: "j < PMEM_MAX_DEVICES" for j x
    proof -
      have "x \<in> set (data_list (pmem t j)) \<longleftrightarrow> x \<in> set (data_list (pmem s j)) \<and> (j = i \<longrightarrow> x \<noteq> a)"
        using files_ok_list(1) [OF ok(1) j] p(2) by (auto simp: t)
      also have "\<dots> \<longleftrightarrow> (\<exists>g. file_data s g = Some x \<and> get_id s g = j) \<and> (j = i \<longrightarrow> x \<noteq> a)"
        using files_ok_list(2) [OF ok(1) j, of x] by simp
      also have "\<dots> \<longleftrightarrow> (\<exists>g. g \<noteq> f \<and> file_data s g = Some x \<and> get_id s g = j)"
        using f uniq i by (metis option.inject)
      finally show ?thesis by (auto simp: fd gi)
    qed
  qed
  moreover have "masters_ok t"
  proof (rule masters_okI)
    show "dev_masters (pmem t (get_id t g)) j" if "master_index t g = Some j" for g j
    proof -
      have g: "g \<noteq> f" "master_index s g = Some j" using that mi by (auto split: if_splits)
      show ?thesis using oth [OF g(1) _ g(2)] masters_okD(1) [OF ok(2) g(2)] by (simp add: gi t)
    qed
    show "\<not> no_allocator (pmem t (get_id t g)) \<and> j \<noteq> k"
      if "g \<noteq> l" "get_id t g = get_id t l" "master_index t g = Some j" "master_index t l = Some k" for g l j k
      using masters_okD(2) [OF ok(2), of g j l k] that unfolding mi na gi by (auto split: if_splits)
  qed
  moreover have "device_ok (pmem t j)" if "j < PMEM_MAX_DEVICES" for j using ok(3) [OF that] p(1) by (simp add: t)
  ultimately show ?thesis unfolding pmem_wf_def by blast
qed

lemma wf_release:
  assumes wf: "pmem_wf s" and f: "file_data s f = Some a" and r: "pmem_release e f s = Some (r, t)"
  shows "pmem_wf t"
proof -
  let ?i = "get_id s f"
  have a: "data_of s f = a" "a \<in> dom (kobj (datas s))" using wf_live [OF wf f] by auto
  have ok: "files_ok s" using wf by (simp add: pmem_wf_def)
  obtain s1 where s1: "(if has_flag PMEM_FLAGS_MASTERMAP (get_data s a)
      then revoke_loop e f (data_list (pmem s ?i)) s else Some ((), s)) = Some ((), s1)"
    using r by (auto simp: pmem_release_def Let_def a bind_eq_Some_conv)
  have "set (data_list (pmem s ?i)) \<subseteq> dom (kobj (datas s))"
    using files_ok_list(2) [OF ok files_okD(2) [OF ok f]] files_okD(1) [OF ok] by blast
  then have k: "keeps s s1"
    using s1 keeps_revoke_loop [OF wf_heap [OF wf]] keeps_core [OF wf_heap [OF wf] refl] by (auto split: if_splits)
  have w1: "pmem_wf s1" by (rule keeps_wf [OF wf k])
  have e1: "file_data s1 f = Some a" "get_id s1 f = ?i" "data_of s1 f = a" "filp s1 = filp s" "pmem s1 = pmem s"
    using keeps_file_data [OF k] f a k by (auto simp: keeps_def)
  let ?d = "get_data s1 a" and ?p = "(pmem s ?i)\<lparr>data_list := remove1 a (data_list (pmem s ?i))\<rparr>"
  let ?s2 = "set_pmem ?i ?p s1"
  obtain s3 where s3: "release_free f ?s2 = Some s3" "t = release_end f s3"
    using r s1 e1 by (auto simp: pmem_release_def Let_def a bind_eq_Some_conv)
  have fr: "release_free f ?s2 = (if \<not> has_flag PMEM_FLAGS_CONNECTED ?d \<and> has_allocation f ?s2
      then map_option (\<lambda>i. set_pmem ?i i ?s2) (pmem_free (nat (data_index ?d)) ?p) else Some ?s2)"
    by (simp add: release_free_def e1 Let_def)
  have ok1: "masters_ok s1" "device_ok (pmem s ?i)" using w1 files_okD(2) [OF ok f] e1 by (auto simp: pmem_wf_def)
  have mast: "dev_masters (pmem s ?i) j" if "get_id s1 g = ?i" "master_index s1 g = Some j" for g j
    using masters_okD(1) [OF ok1(1) that(2)] that(1) e1 by simp
  have "\<exists>p. s3 = set_pmem ?i p s1 \<and> device_ok p \<and> data_list p = remove1 a (data_list (pmem s ?i)) \<and>
      no_allocator p = no_allocator (pmem s ?i) \<and>
      (\<forall>g j. g \<noteq> f \<longrightarrow> get_id s1 g = ?i \<longrightarrow> master_index s1 g = Some j \<longrightarrow> dev_masters p j)"
  proof (cases "\<not> has_flag PMEM_FLAGS_CONNECTED ?d \<and> has_allocation f ?s2")
    case True
    then have mi: "master_index s1 f = Some (nat (data_index ?d))"
      using e1 by (auto simp: master_index_def has_allocation_def Let_def split: if_splits)
    have oth: "\<not> no_allocator (pmem s ?i) \<and> j \<noteq> nat (data_index ?d)"
      if "g \<noteq> f" "get_id s1 g = ?i" "master_index s1 g = Some j" for g j
      using masters_okD(2) [OF ok1(1) mi that(3,1)] that(2) e1 by simp
    obtain p where p: "pmem_free (nat (data_index ?d)) ?p = Some p" "s3 = set_pmem ?i p s1"
      using s3(1) True unfolding fr by (auto simp: set_pmem_def)
    show ?thesis
    proof (cases "no_allocator (pmem s ?i)")
      case True
      then have "p = ?p\<lparr>allocated := False\<rparr>" using p(1) by (simp add: pmem_free_def)
      then show ?thesis using p(2) True oth by (intro exI [of _ p]) (auto simp: device_ok_def)
    next
      case False
      then have po: "pmem_ok ?p" using ok1(2) by (simp add: device_ok_def)
      obtain l where l: "owned ?p (nat (data_index ?d)) = Some l"
        using masters_okD(1) [OF ok1(1) mi] e1 False by (auto simp: dev_masters_def)
      have fp: "p = ?p\<lparr>bitmap := bitmap p\<rparr>" by (rule pmem_free_frame [OF po l p(1)])
      have n: "\<not> no_allocator p" "data_list p = remove1 a (data_list (pmem s ?i))"
        using False arg_cong [OF fp, of no_allocator] arg_cong [OF fp, of data_list] by simp_all
      have fk: "pmem_ok p" "\<And>j. j \<noteq> nat (data_index ?d) \<Longrightarrow> owned p j = owned (pmem s ?i) j"
        using palloc.free_keeps [OF po l p(1)] by simp_all
      have "dev_masters p j" if "g \<noteq> f" "get_id s1 g = ?i" "master_index s1 g = Some j" for g j
        using mast [OF that(2,3)] oth [OF that] fk(2) n(1) False by (simp add: dev_masters_def)
      then show ?thesis using p(2) n False fk(1) by (intro exI [of _ p]) (auto simp: device_ok_def)
    qed
  next
    case False
    then show ?thesis using s3(1) mast ok1(2) unfolding fr by (intro exI [of _ ?p]) auto
  qed
  then obtain p where p: "s3 = set_pmem ?i p s1" "device_ok p" "data_list p = remove1 a (data_list (pmem s1 ?i))"
    "no_allocator p = no_allocator (pmem s1 ?i)"
    "\<And>g j. g \<noteq> f \<Longrightarrow> get_id s1 g = ?i \<Longrightarrow> master_index s1 g = Some j \<Longrightarrow> dev_masters p j"
    unfolding e1(5) by blast
  have t: "pmem t = (pmem s1)(?i := p)" "datas t = kfree a (datas s1)"
      "filp t = (filp s1)(f := (filp s1 f)\<lparr>private_data := Priv_null\<rparr>)"
    using s3(2) p(1) e1(3) by (simp_all add: release_end_def Let_def put_task_struct_def)
  show ?thesis by (rule wf_drop_file [OF w1 e1(1) e1(2) [symmetric] p(2-4) _ t]) (rule p(5))
qed

subsection \<open>Histories of the driver\<close>

inductive pmem_step :: "pmem_state \<Rightarrow> pmem_state \<Rightarrow> bool" where
  step_open: "file_data s f = None \<Longrightarrow> i < PMEM_MAX_DEVICES \<Longrightarrow> misc_open f i sync s = (r, t) \<Longrightarrow> pmem_step s t"
| step_release: "file_data s f = Some a \<Longrightarrow> pmem_release e f s = Some (r, t) \<Longrightarrow> pmem_step s t"
| step_ioctl: "file_data s f = Some a \<Longrightarrow> pmem_ioctl e f cmd s = Some (r', t) \<Longrightarrow> pmem_step s t"
| step_mmap: "file_data s f = Some a \<Longrightarrow> pmem_mmap e f v s = Some (r, t) \<Longrightarrow> pmem_step s t"
| step_vma_open: "pmem_vma_open v s = Some (r, t) \<Longrightarrow> pmem_step s t"
| step_vma_close: "pmem_step s (pmem_vma_close v s)"
| step_memory: "core t = core s \<Longrightarrow> pmem_step s t"

definition pmem_initial :: "pmem_state \<Rightarrow> bool" where
  "pmem_initial s \<longleftrightarrow> (\<forall>f. private_data (filp s f) = Priv_null) \<and> kheap_ok (datas s) \<and> kobj (datas s) = Map.empty \<and>
     (\<forall>i<PMEM_MAX_DEVICES. data_list (pmem s i) = [] \<and> device_ok (pmem s i))"

inductive pmem_reachable :: "pmem_state \<Rightarrow> bool" where
  reach_initial: "pmem_initial s \<Longrightarrow> pmem_reachable s"
| reach_step: "pmem_reachable s \<Longrightarrow> pmem_step s t \<Longrightarrow> pmem_reachable t"

lemma wf_initial: "pmem_initial s \<Longrightarrow> pmem_wf s"
proof -
  assume i: "pmem_initial s"
  then have n: "file_data s f = None" "master_index s f = None" for f
    by (simp_all add: pmem_initial_def file_data_def master_index_def)
  have "files_ok s" by (rule files_okI) (use i n in \<open>auto simp: pmem_initial_def\<close>)
  moreover have "masters_ok s" by (rule masters_okI) (use n in auto)
  ultimately show ?thesis using i by (simp add: pmem_wf_def pmem_initial_def)
qed

lemma wf_misc_open:
  assumes wf: "pmem_wf s" and n: "file_data s f = None" and i: "i < PMEM_MAX_DEVICES" and r: "misc_open f i b s = (r, t)"
  shows "pmem_wf t"
proof -
  let ?d = "\<lparr>data_index = - 1, data_flags = 0, data_vma = 0, data_task = 0, data_pid = 0,
                         master_fd = 0, master_file = 0, region_list = []\<rparr>"
  let ?s = "s\<lparr>filp := (filp s)(f := \<lparr>i_rdev = (MISC_MAJOR, i), f_sync = b, private_data = Priv_dev i\<rparr>)\<rparr>"
  obtain y h where a: "kzalloc ?d (datas s) = (y, h)" by fastforce
  show ?thesis
  proof (cases y)
    case None
    then have h: "kheap_ok h" "kobj h = kobj (datas s)" using slab.alloc_None [OF wf_heap [OF wf]] a by auto
    have t: "pmem t = pmem s" "datas t = h"
      "filp t = (filp s)(f := \<lparr>i_rdev = (MISC_MAJOR, i), f_sync = b, private_data = Priv_dev i\<rparr>\<lparr>private_data := Priv_null\<rparr>)"
      using r a None by (auto simp: misc_open_def pmem_open_def get_id_def Let_def)
    show ?thesis by (rule wf_closed_file [OF wf n h t])
  next
    case (Some x)
    have t: "pmem t = (pmem s)(i := (pmem s i)\<lparr>data_list := x # data_list (pmem s i)\<rparr>)" "datas t = h"
      "filp t = (filp s)(f := \<lparr>i_rdev = (MISC_MAJOR, i), f_sync = b, private_data = Priv_data x\<rparr>)"
      using r a Some by (auto simp: misc_open_def pmem_open_def get_id_def Let_def)
    show ?thesis by (rule wf_new_file [OF wf n i a [unfolded Some] _ t]) simp
  qed
qed

lemma core_vma_open: "pmem_vma_open v s = Some (r, t) \<Longrightarrow> core t = core s"
  by (auto simp: pmem_vma_open_def Let_def split: if_splits dest: core_unmap)

lemma wf_vma_close:
  assumes wf: "pmem_wf s"
  shows "pmem_wf (pmem_vma_close v s)"
proof -
  let ?f = "vm_file (vmas s v)" and ?a = "data_of s (vm_file (vmas s v))"
  let ?d = "(get_data s ?a)\<lparr>data_vma := 0\<rparr>"
  show ?thesis
  proof (cases "is_pmem_file ?f s \<and> has_allocation ?f s \<and> data_vma (get_data s ?a) = v")
    case True
    then have "private_data (filp s ?f) \<noteq> Priv_null" by (auto simp: has_allocation_def)
    then obtain a where a: "file_data s ?f = Some a" using wf files_ok_private unfolding pmem_wf_def by blast
    then have aa: "?a = a" using file_dataD by blast
    have "pmem_wf (set_data a (if has_flag PMEM_FLAGS_CONNECTED ?d \<and> has_flag PMEM_FLAGS_SUBMAP ?d
                    then ?d\<lparr>data_flags := data_flags ?d OR PMEM_FLAGS_UNSUBMAP\<rparr> else ?d) s)"
      by (rule wf_set_data [OF wf a refl]) (simp_all add: aa flag_simps)
    then show ?thesis using True unfolding pmem_vma_close_def Let_def aa by (simp split del: if_split)
  qed (use wf in \<open>auto simp: pmem_vma_close_def Let_def\<close>)
qed

lemma wf_step: "pmem_step s t \<Longrightarrow> pmem_wf s \<Longrightarrow> pmem_wf t"
proof (induction rule: pmem_step.induct)
  case (step_vma_open v s r t)
  then show ?case using wf_core [OF _ core_vma_open] by blast
qed (rule wf_misc_open wf_release wf_ioctl wf_mmap wf_vma_close wf_core; assumption)+

lemma wf_reachable: "pmem_reachable s \<Longrightarrow> pmem_wf s"
  by (induction rule: pmem_reachable.induct) (blast intro: wf_initial wf_step)+

lemma setup_device_ok:
  assumes "pmem_setup e pdata s = (None, t)" "kmalloc_memory e = Some mem"
    and "foreign_ok mem (unat (pd_size pdata div PMEM_MIN_ALLOC))"
  shows "device_ok (pmem t (id_count s)) \<and> data_list (pmem t (id_count s)) = [] \<and> dev_minor (pmem t (id_count s)) = id_count s"
proof -
  let ?i = "pmem t (id_count s)" and ?n = "unat (pd_size pdata div PMEM_MIN_ALLOC)"
  have "num_entries ?i = ?n" "bitmap ?i = bitmap_init ?n mem" "data_list ?i = []" "dev_minor ?i = id_count s"
    using assms(1,2) by (auto simp: pmem_setup_def Let_def split: if_splits)
  moreover have "?n \<le> 2 ^ 20"
  proof -
    have "unat (pd_size pdata) < 2 ^ 32" using unsigned_less [of "pd_size pdata", where 'a = nat] by simp
    then show ?thesis by (simp add: PMEM_MIN_ALLOC_def unat_div)
  qed
  ultimately show ?thesis using bitmap_init_ok [of ?i mem] assms(3) by (cases "no_allocator ?i") (simp_all add: device_ok_def)
qed

subsection \<open>Effects on page tables\<close>

definition vma_garbage :: "pmem_state \<Rightarrow> nat \<Rightarrow> addr \<Rightarrow> bool" where
  "vma_garbage s i v \<longleftrightarrow> (\<forall>p x. ptes s v p = Some x \<longrightarrow> x = garbage_pfn (pmem s i))"

definition in_region :: "u32 \<Rightarrow> pmem_region \<Rightarrow> u32 \<Rightarrow> bool" where
  "in_region start r p \<longleftrightarrow> start + region_offset r \<le> p \<and> p < start + region_offset r + region_len r"

definition region_ok :: "vma \<Rightarrow> pmem_region \<Rightarrow> bool" where
  "region_ok w r \<longleftrightarrow> PMEM_IS_PAGE_ALIGNED (region_len r) \<and> 0 < region_len r \<and>
     unat (vm_start w) + unat (region_offset r) + unat (region_len r) \<le> unat (vm_end w)"

definition submap_only :: "pmem_state \<Rightarrow> nat \<Rightarrow> addr \<Rightarrow> pmem_region list \<Rightarrow> bool" where
  "submap_only s i v rs \<longleftrightarrow>
     (\<forall>p x. ptes s v p = Some x \<longrightarrow> x = garbage_pfn (pmem s i) \<or> (\<exists>r\<in>set rs. in_region (vm_start (vmas s v)) r p))"

definition only_vma :: "addr \<Rightarrow> pmem_state \<Rightarrow> pmem_state \<Rightarrow> bool" where
  "only_vma v s t \<longleftrightarrow> core t = core s \<and> (\<forall>u. u \<noteq> v \<longrightarrow> ptes t u = ptes s u) \<and>
     (\<forall>u. vm_start (vmas t u) = vm_start (vmas s u) \<and> vm_end (vmas t u) = vm_end (vmas s u))"

lemma only_vma_trans: "only_vma v s t \<Longrightarrow> only_vma v t u \<Longrightarrow> only_vma v s u"
  by (simp add: only_vma_def)

lemma only_vmaD:
  "only_vma v s t \<Longrightarrow> pmem t = pmem s \<and> vm_start (vmas t u) = vm_start (vmas s u) \<and> vm_end (vmas t u) = vm_end (vmas s u)"
  using coreD [of t s] by (simp add: only_vma_def)

lemma only_vma_zap: "only_vma v s (zap_page_range v a n s)"
  by (simp add: only_vma_def) (simp add: zap_page_range_def Let_def)

lemma vm_insert_effect:
  assumes "vm_insert_pfn v a pfn s = (r, t)"
  shows "only_vma v s t" "ptes t v p = Some x \<Longrightarrow> ptes s v p = Some x \<or> x = pfn"
    and "r \<noteq> None \<Longrightarrow> ptes t = ptes s"
  using assms
  by (auto simp: vm_insert_pfn_def Let_def next_fails_def only_vma_def set_pte_def core_def split: if_splits)

lemma garbage_loop_effect:
  "garbage_loop i v a n s = (r, t) \<Longrightarrow>
   only_vma v s t \<and> (\<forall>p x. ptes t v p = Some x \<longrightarrow> ptes s v p = Some x \<or> x = garbage_pfn (pmem s i))"
proof (induction i v a n s rule: garbage_loop.induct)
  case (2 i v a n s)
  obtain b s1 where b: "vm_insert_pfn v a (garbage_pfn (pmem s i)) s = (b, s1)"
    by (cases "vm_insert_pfn v a (garbage_pfn (pmem s i)) s")
  note e = vm_insert_effect [OF b]
  have g: "pmem s1 = pmem s" using only_vmaD [OF e(1)] by simp
  show ?case
  proof (cases b)
    case None
    then have l: "garbage_loop i v (a + PAGE_SIZE) n s1 = (r, t)" using 2(2) b by simp
    have "only_vma v s1 t \<and> (\<forall>p x. ptes t v p = Some x \<longrightarrow> ptes s1 v p = Some x \<or> x = garbage_pfn (pmem s1 i))"
      using 2(1) [OF b [symmetric] None l] by blast
    then show ?thesis using e(1,2) g only_vma_trans by metis
  next
    case (Some y)
    then have "t = s1" using 2(2) b by simp
    then show ?thesis using e(1,2) by blast
  qed
qed (simp add: only_vma_def)

lemma map_garbage_effect:
  assumes "pmem_map_garbage i v off n s = (r, t)"
  shows "only_vma v s t \<and> (\<forall>p x. ptes t v p = Some x \<longrightarrow> ptes s v p = Some x \<or> x = garbage_pfn (pmem s i))"
proof -
  let ?w = "vmas s v"
  let ?s = "set_vma v (?w\<lparr>vm_flags := vm_flags ?w OR (VM_IO OR VM_RESERVED OR VM_PFNMAP OR VM_SHARED OR VM_WRITE)\<rparr>) s"
  have l: "garbage_loop i v (vm_start ?w + off) (unat (drop_bit 12 n)) ?s = (r, t)"
    using assms by (simp add: pmem_map_garbage_def Let_def)
  have o: "only_vma v s ?s" "ptes ?s = ptes s" "pmem ?s = pmem s" by (simp_all add: only_vma_def) (simp_all add: set_vma_def)
  show ?thesis using garbage_loop_effect [OF l] only_vma_trans [OF o(1)] unfolding o(2,3) by blast
qed

lemma region_bounds:
  assumes "region_ok w r"
  shows "unat (vm_start w + region_offset r) = unat (vm_start w) + unat (region_offset r)"
    and "unat (vm_start w + region_offset r + region_len r) = unat (vm_start w) + unat (region_offset r) + unat (region_len r)"
proof -
  have b: "unat (vm_start w) + unat (region_offset r) + unat (region_len r) < 2 ^ 32"
    using assms unsigned_less [of "vm_end w", where 'a = nat] unfolding region_ok_def by simp
  then show s: "unat (vm_start w + region_offset r) = unat (vm_start w) + unat (region_offset r)"
    by (simp add: unat_word_ariths)
  then show "unat (vm_start w + region_offset r + region_len r) = unat (vm_start w) + unat (region_offset r) + unat (region_len r)"
    using b unat_word_ariths(1) [of "vm_start w + region_offset r" "region_len r"] by simp
qed

lemma unmap_effect:
  assumes ok: "region_ok (vmas s v) r"
  obtains t where "pmem_unmap_pfn_range i v (region_offset r) (region_len r) s = Some (None, t)" "only_vma v s t"
    and "\<And>p x. ptes t v p = Some x \<Longrightarrow> x = garbage_pfn (pmem s i) \<or>
      ptes s v p = Some x \<and> \<not> in_region (vm_start (vmas s v)) r p"
proof -
  let ?w = "vmas s v" and ?o = "region_offset r" and ?n = "region_len r"
  let ?z = "zap_page_range v (vm_start ?w + ?o) ?n s"
  obtain g t where t: "pmem_map_garbage i v ?o ?n ?z = (g, t)" by fastforce
  have z: "only_vma v s ?z" by (rule only_vma_zap)
  have pm: "pmem ?z = pmem s" using only_vmaD [OF z] by simp
  note b = region_bounds [OF ok]
  have "0 < unat ?n" using ok by (simp add: region_ok_def word_less_nat_alt)
  then have "vm_start ?w < vm_start ?w + ?o + ?n" "vm_start ?w \<le> vm_start ?w + ?o" "vm_start ?w + ?o + ?n \<le> vm_end ?w"
    using ok unfolding word_less_nat_alt word_le_nat_alt b region_ok_def by linarith+
  then have lt: "vm_start ?w < vm_start ?w + ?o + ?n" "max (vm_start ?w) (vm_start ?w + ?o) = vm_start ?w + ?o"
    "min (vm_end ?w) (vm_start ?w + ?o + ?n) = vm_start ?w + ?o + ?n"
    by (simp_all add: max_absorb2 min_absorb2)
  have zap: "ptes ?z v p = (if in_region (vm_start ?w) r p then None else ptes s v p)" for p
    using lt by (simp add: zap_page_range_def Let_def in_region_def)
  have "pmem_unmap_pfn_range i v ?o ?n s = Some (None, t)"
    using ok t by (simp add: pmem_unmap_pfn_range_def region_ok_def Let_def)
  moreover have "only_vma v s t" using map_garbage_effect [OF t] only_vma_trans [OF z] by blast
  moreover have "x = garbage_pfn (pmem s i) \<or> ptes s v p = Some x \<and> \<not> in_region (vm_start ?w) r p"
    if "ptes t v p = Some x" for p x
  proof -
    have "ptes ?z v p = Some x \<or> x = garbage_pfn (pmem s i)" using map_garbage_effect [OF t] that pm by metis
    then show ?thesis unfolding zap by (auto split: if_splits)
  qed
  ultimately show ?thesis using that by blast
qed

lemma unmap_regions_effect:
  "\<forall>r\<in>set rs. region_ok (vmas s v) r \<Longrightarrow> submap_only s i v rs \<Longrightarrow>
   \<exists>t. unmap_regions i v rs s = Some ((), t) \<and> only_vma v s t \<and> vma_garbage t i v"
proof (induction rs arbitrary: s)
  case Nil
  then show ?case by (auto simp: submap_only_def vma_garbage_def only_vma_def)
next
  case (Cons r rs)
  then have "region_ok (vmas s v) r" by simp
  then obtain t where t: "pmem_unmap_pfn_range i v (region_offset r) (region_len r) s = Some (None, t)" "only_vma v s t"
    and e: "\<And>p x. ptes t v p = Some x \<Longrightarrow> x = garbage_pfn (pmem s i) \<or>
      ptes s v p = Some x \<and> \<not> in_region (vm_start (vmas s v)) r p" by (rule unmap_effect) blast
  have pm: "pmem t = pmem s" "vm_start (vmas t v) = vm_start (vmas s v)" "vm_end (vmas t v) = vm_end (vmas s v)"
    using only_vmaD [OF t(2)] by simp_all
  have "\<forall>r\<in>set rs. region_ok (vmas t v) r" using Cons.prems(1) pm by (auto simp: region_ok_def)
  moreover have "submap_only t i v rs"
    unfolding submap_only_def pm using e Cons.prems(2) by (fastforce simp: submap_only_def)
  ultimately obtain u where "unmap_regions i v rs t = Some ((), u)" "only_vma v t u" "vma_garbage u i v"
    using Cons.IH by blast
  then show ?case using t only_vma_trans [OF t(2)] by auto
qed

definition client :: "pmem_state \<Rightarrow> addr \<Rightarrow> addr \<Rightarrow> bool" where
  "client s f b \<longleftrightarrow> PMEM_IS_SUBMAP (get_data s b) \<and> f = master_file (get_data s b)"

definition client_ok :: "pmem_env \<Rightarrow> nat \<Rightarrow> pmem_state \<Rightarrow> addr \<Rightarrow> bool" where
  "client_ok e i s b \<longleftrightarrow>
     (let d = get_data s b; v = data_vma d in
      task_mm e (data_task d) \<noteq> 0 \<and> v \<noteq> 0 \<and> (\<forall>r\<in>set (region_list d). region_ok (vmas s v) r) \<and>
      submap_only s i v (region_list d))"

lemma revoke_effect:
  assumes c: "client s f b" "client_ok e i s b" and i: "i = get_id s f"
  defines "v \<equiv> data_vma (get_data s b)"
  shows "\<exists>t. pmem_revoke e f b s = Some ((), t) \<and> pmem t = pmem s \<and> filp t = filp s \<and>
    (\<forall>b'. b' \<noteq> b \<longrightarrow> get_data t b' = get_data s b') \<and> (\<forall>u. u \<noteq> v \<longrightarrow> ptes t u = ptes s u) \<and>
    (\<forall>u. vm_start (vmas t u) = vm_start (vmas s u) \<and> vm_end (vmas t u) = vm_end (vmas s u)) \<and> vma_garbage t i v"
proof -
  let ?d = "(get_data s b)\<lparr>master_file := 0\<rparr>"
  let ?s = "set_data b ?d s"
  have d: "task_mm e (data_task ?d) \<noteq> 0" "v \<noteq> 0" "\<forall>r\<in>set (region_list ?d). region_ok (vmas ?s v) r"
    "submap_only ?s i v (region_list ?d)" "PMEM_IS_SUBMAP ?d"
    using c by (simp_all add: client_ok_def client_def v_def Let_def set_data_def submap_only_def PMEM_IS_SUBMAP_def has_flag_def)
  obtain u where u: "unmap_regions i v (region_list ?d) ?s = Some ((), u)" "only_vma v ?s u" "vma_garbage u i v"
    using unmap_regions_effect [OF d(3,4)] by blast
  have "\<not> has_flag PMEM_FLAGS_UNSUBMAP ?d" using d(5) by (simp add: PMEM_IS_SUBMAP_def)
  then have "pmem_lock_data_and_mm e b ?s = Some (Inr (task_mm e (data_task ?d)), ?s)"
    using d(1,5) by (simp add: pmem_lock_data_and_mm_def Let_def)
  then have r: "pmem_revoke e f b s = Some ((), set_data b (?d\<lparr>region_list := []\<rparr>) u)"
    using d(2) u(1) i by (simp add: pmem_revoke_def Let_def v_def)
  have o: "core u = core ?s" using u(2) by (simp add: only_vma_def)
  let ?t = "set_data b (?d\<lparr>region_list := []\<rparr>) u"
  have "pmem ?t = pmem s" "filp ?t = filp s" using coreD [OF o] by simp_all
  moreover have "\<forall>b'. b' \<noteq> b \<longrightarrow> get_data ?t b' = get_data s b'" using get_data_core [OF o] by simp
  moreover have "ptes ?t = ptes u" "vmas ?t = vmas u" "ptes ?s = ptes s" "vmas ?s = vmas s" by (simp_all add: set_data_def)
  ultimately show ?thesis using r u(2,3) by (intro exI [of _ ?t]) (simp add: only_vma_def vma_garbage_def coreD [OF o])
qed

lemma client_ok_frame:
  assumes "client_ok e i s b" "pmem t = pmem s" "get_data t b = get_data s b"
    and "ptes t (data_vma (get_data s b)) = ptes s (data_vma (get_data s b))"
    and "\<forall>u. vm_start (vmas t u) = vm_start (vmas s u) \<and> vm_end (vmas t u) = vm_end (vmas s u)"
  shows "client_ok e i t b"
  using assms by (simp add: client_ok_def Let_def submap_only_def region_ok_def)

lemma revoke_loop_effect:
  "distinct bs \<Longrightarrow> \<forall>b\<in>set bs. client s f b \<longrightarrow> client_ok e i s b \<Longrightarrow>
   inj_on (\<lambda>b. data_vma (get_data s b)) {b \<in> set bs. client s f b} \<Longrightarrow> i = get_id s f \<Longrightarrow>
   \<exists>t. revoke_loop e f bs s = Some ((), t) \<and> pmem t = pmem s \<and>
     (\<forall>b\<in>set bs. client s f b \<longrightarrow> vma_garbage t i (data_vma (get_data s b))) \<and>
     (\<forall>u. u \<notin> (\<lambda>b. data_vma (get_data s b)) ` {b \<in> set bs. client s f b} \<longrightarrow> ptes t u = ptes s u)"
proof (induction bs arbitrary: s)
  case (Cons b bs)
  show ?case
  proof (cases "client s f b")
    case False
    then obtain t where t: "revoke_loop e f bs s = Some ((), t)" "pmem t = pmem s"
      "\<forall>b\<in>set bs. client s f b \<longrightarrow> vma_garbage t i (data_vma (get_data s b))"
      "\<forall>u. u \<notin> (\<lambda>b. data_vma (get_data s b)) ` {b \<in> set bs. client s f b} \<longrightarrow> ptes t u = ptes s u"
      using Cons.IH [of s] Cons.prems by (auto simp: inj_on_def)
    have "revoke_loop e f (b # bs) s = Some ((), t)" using t(1) False by (auto simp: client_def Let_def)
    moreover have "{x \<in> set (b # bs). client s f x} = {x \<in> set bs. client s f x}" using False by auto
    ultimately show ?thesis using t False by auto
  next
    case True
    let ?v = "data_vma (get_data s b)"
    have "client_ok e i s b" using Cons.prems(2) True by simp
    then obtain s1 where s1: "pmem_revoke e f b s = Some ((), s1)" "pmem s1 = pmem s" "filp s1 = filp s"
      "\<forall>b'. b' \<noteq> b \<longrightarrow> get_data s1 b' = get_data s b'" "\<forall>u. u \<noteq> ?v \<longrightarrow> ptes s1 u = ptes s u"
      "\<forall>u. vm_start (vmas s1 u) = vm_start (vmas s u) \<and> vm_end (vmas s1 u) = vm_end (vmas s u)" "vma_garbage s1 i ?v"
      using revoke_effect [OF True _ Cons.prems(4)] by blast
    have b: "b \<notin> set bs" using Cons.prems(1) by simp
    then have gd: "x \<in> set bs \<Longrightarrow> get_data s1 x = get_data s x" for x using s1(4) by auto
    then have cl: "x \<in> set bs \<Longrightarrow> client s1 f x = client s f x" for x by (simp add: client_def)
    have vx: "data_vma (get_data s x) \<noteq> ?v" if "x \<in> set bs" "client s f x" for x
      using Cons.prems(3) True that b unfolding inj_on_def by auto
    have "client_ok e i s1 x" if "x \<in> set bs" "client s1 f x" for x
    proof (rule client_ok_frame [of e i s])
      show "client_ok e i s x" using Cons.prems(2) cl that by simp
      show "ptes s1 (data_vma (get_data s x)) = ptes s (data_vma (get_data s x))" using vx cl that s1(5) by simp
    qed (use gd that s1 in auto)
    moreover have cs: "{x \<in> set bs. client s1 f x} = {x \<in> set bs. client s f x}" using cl by auto
    have im: "(\<lambda>b. data_vma (get_data s1 b)) ` {x \<in> set bs. client s1 f x} =
        (\<lambda>b. data_vma (get_data s b)) ` {x \<in> set bs. client s f x}" unfolding cs using gd by (intro image_cong) auto
    have "inj_on (\<lambda>b. data_vma (get_data s b)) {x \<in> set bs. client s f x}"
      by (rule inj_on_subset [OF Cons.prems(3)]) auto
    then have "inj_on (\<lambda>b. data_vma (get_data s1 b)) {x \<in> set bs. client s1 f x}"
      unfolding cs using gd by (auto simp: inj_on_def)
    moreover have "i = get_id s1 f" using Cons.prems(4) s1(3) by (simp add: get_id_def)
    ultimately obtain t where t: "revoke_loop e f bs s1 = Some ((), t)" "pmem t = pmem s1"
      "\<forall>x\<in>set bs. client s1 f x \<longrightarrow> vma_garbage t i (data_vma (get_data s1 x))"
      "\<forall>u. u \<notin> (\<lambda>b. data_vma (get_data s b)) ` {x \<in> set bs. client s f x} \<longrightarrow> ptes t u = ptes s1 u"
      using Cons.IH [of s1] Cons.prems(1) unfolding im by auto
    have "revoke_loop e f (b # bs) s = Some ((), t)" using t(1) s1(1) True by (simp add: client_def Let_def)
    moreover have "ptes t ?v = ptes s1 ?v" using t(4) vx by force
    then have "vma_garbage t i ?v" using s1(2,7) t(2) by (simp add: vma_garbage_def)
    moreover have "vma_garbage t i (data_vma (get_data s x))" if "x \<in> set bs" "client s f x" for x
      using t(3) gd cl that by auto
    moreover have "ptes t u = ptes s u"
      if "u \<notin> (\<lambda>b. data_vma (get_data s b)) ` {x \<in> set (b # bs). client s f x}" for u
    proof -
      have "u \<noteq> ?v" "u \<notin> (\<lambda>b. data_vma (get_data s b)) ` {x \<in> set bs. client s f x}" using that True by auto
      then show ?thesis using t(4) s1(5) by simp
    qed
    ultimately show ?thesis using t(2) s1(2) by (intro exI [of _ t]) auto
  qed
qed simp

lemma release_free_total:
  assumes wf: "pmem_wf s" and f: "file_data s f = Some a" and i: "i = get_id s f"
  shows "\<exists>t. release_free f (set_pmem i ((pmem s i)\<lparr>data_list := l\<rparr>) s) = Some t \<and> ptes t = ptes s"
proof -
  let ?p = "(pmem s i)\<lparr>data_list := l\<rparr>" and ?d = "get_data s a"
  have a: "data_of s f = a" using wf_live [OF wf f] by blast
  have "\<exists>p. pmem_free (nat (data_index ?d)) ?p = Some p"
    if c: "\<not> has_flag PMEM_FLAGS_CONNECTED ?d" "0 \<le> data_index ?d"
  proof (cases "no_allocator (pmem s i)")
    case False
    have ok: "masters_ok s" "device_ok (pmem s i)" using wf files_okD(2) f i by (auto simp: pmem_wf_def)
    then have po: "pmem_ok ?p" using False by (simp add: device_ok_def)
    have m: "master_index s f = Some (nat (data_index ?d))" using f c by (simp add: master_index_def Let_def)
    obtain k where "owned ?p (nat (data_index ?d)) = Some k"
      using masters_okD(1) [OF ok(1) m] i False by (auto simp: dev_masters_def)
    then show ?thesis using palloc.free_own [OF po] by blast
  qed (simp add: pmem_free_def)
  note p = this
  have pt: "ptes (set_pmem j q u) = ptes u" for j q u by (simp add: set_pmem_def)
  let ?s = "set_pmem i ?p s"
  have e: "release_free f ?s = (if \<not> has_flag PMEM_FLAGS_CONNECTED ?d \<and> has_allocation f ?s
      then map_option (\<lambda>q. set_pmem i q ?s) (pmem_free (nat (data_index ?d)) ?p) else Some ?s)"
    by (simp add: release_free_def a i Let_def)
  have "has_allocation f ?s \<Longrightarrow> 0 \<le> data_index ?d" by (auto simp: has_allocation_def a split: if_splits)
  then show ?thesis using p unfolding e
    by (cases "\<not> has_flag PMEM_FLAGS_CONNECTED ?d \<and> has_allocation f ?s") (auto simp: pt)
qed

subsection \<open>Properties\<close>

definition file_pages :: "pmem_state \<Rightarrow> addr \<Rightarrow> nat set" where
  "file_pages s f =
     (case master_index s f of None \<Rightarrow> {}
      | Some i \<Rightarrow> {i..<i + 2 ^ PMEM_ORDER (bitmap (pmem s (get_id s f))) i})"


subsection \<open>What a connected file sees\<close>

lemma aligned_take_bit: "PMEM_IS_PAGE_ALIGNED x \<longleftrightarrow> take_bit 12 x = 0"
proof -
  have "(0xFFF::u32) = mask 12" by (simp add: mask_eq_exp_minus_1)
  then show ?thesis by (simp add: PMEM_IS_PAGE_ALIGNED_def take_bit_eq_mask)
qed

lemma aligned_round: "PMEM_IS_PAGE_ALIGNED x \<Longrightarrow> x + 0xFFF AND NOT 0xFFF = x"
proof -
  assume a: "PMEM_IS_PAGE_ALIGNED x"
  then have z: "x AND 0xFFF = 0" by (simp add: PMEM_IS_PAGE_ALIGNED_def)
  then have "x + 0xFFF = x OR 0xFFF" by (rule disjunctive_add_eq_or)
  then have "x + 0xFFF AND NOT 0xFFF = x AND NOT 0xFFF" by (simp only: bit.conj_disj_distrib2 bit.conj_cancel_right or.right_neutral)
  also have "\<dots> = (x AND 0xFFF) OR (x AND NOT 0xFFF)" by (simp only: z or.left_neutral)
  also have "\<dots> = x AND (0xFFF OR NOT 0xFFF)" by (simp only: bit.conj_disj_distrib)
  also have "\<dots> = x" by (simp only: bit.disj_cancel_right bit.conj_one_right)
  finally show ?thesis .
qed

lemma remap_pages_effect:
  "remap_pages v a pfn n s = Some (r, t) \<Longrightarrow>
   only_vma v s t \<and> (\<forall>p x. ptes t v p = Some x \<longrightarrow> ptes s v p = Some x \<or> (\<exists>k<n. p = a + of_nat k * PAGE_SIZE))"
proof (induction n arbitrary: a pfn s)
  case 0
  then show ?case by (simp add: only_vma_def)
next
  case (Suc n)
  let ?s = "s\<lparr>nomem := tl (nomem s)\<rparr>"
  have o: "only_vma v s ?s" "only_vma v ?s (set_pte v a pfn ?s)" by (simp_all add: only_vma_def core_def set_pte_def)
  show ?case
  proof (cases "nomem s \<noteq> [] \<and> hd (nomem s)")
    case True
    then have "t = ?s" using Suc.prems by (auto simp: next_fails_def)
    then show ?thesis using o by simp
  next
    case False
    then have r: "remap_pages v (a + PAGE_SIZE) (pfn + 1) n (set_pte v a pfn ?s) = Some (r, t)"
      using Suc.prems by (auto simp: next_fails_def split: if_splits)
    have "\<exists>k<Suc n. p = a + of_nat k * PAGE_SIZE" if "ptes t v p = Some x" "ptes s v p \<noteq> Some x" for p x
    proof -
      from that(1) consider "ptes (set_pte v a pfn ?s) v p = Some x" | k where "k < n" "p = a + PAGE_SIZE + of_nat k * PAGE_SIZE"
        using Suc.IH [OF r] by blast
      then show ?thesis
      proof cases
        case 1
        then have "p = a" using that(2) by (auto simp: set_pte_def split: if_splits)
        then show ?thesis by (intro exI [of _ 0]) simp
      next
        case 2
        then show ?thesis by (intro exI [of _ "Suc k"]) (simp add: algebra_simps)
      qed
    qed
    then show ?thesis using Suc.IH [OF r] only_vma_trans o by blast
  qed
qed

lemma region_pages:
  assumes ok: "region_ok w r" and k: "k < unat (region_len r) div 4096"
  shows "in_region (vm_start w) r (vm_start w + region_offset r + of_nat k * PAGE_SIZE)"
proof -
  note b = region_bounds [OF ok]
  have "unat (region_len r) div 4096 * 4096 \<le> unat (region_len r)" by simp
  then have l: "k * 4096 < unat (region_len r)" using k by linarith
  then have "k * 4096 < 2 ^ 32" using unsigned_less [of "region_len r", where 'a = nat] by simp
  then have u: "unat (of_nat k * PAGE_SIZE) = k * 4096" by (simp add: PAGE_SIZE_def unat_word_ariths unat_of_nat)
  have "unat (vm_start w + region_offset r) + k * 4096 < 2 ^ 32"
    using b l unsigned_less [of "vm_start w + region_offset r + region_len r", where 'a = nat] by simp
  then have "unat (vm_start w + region_offset r + of_nat k * PAGE_SIZE) = unat (vm_start w + region_offset r) + k * 4096"
    using u by (simp add: unat_word_ariths)
  then show ?thesis using b l unfolding in_region_def word_less_nat_alt word_le_nat_alt by simp
qed

lemma only_vma_set_vma:
  "vm_start w = vm_start (vmas s v) \<Longrightarrow> vm_end w = vm_end (vmas s v) \<Longrightarrow> only_vma v s (set_vma v w s)"
  by (simp add: only_vma_def) (simp add: set_vma_def)

lemma ptes_set_vma [simp]: "ptes (set_vma v w s) = ptes s"
  by (simp add: set_vma_def)

lemma io_remap_effect:
  assumes al: "PMEM_IS_PAGE_ALIGNED n" and r: "io_remap_pfn_range v a pfn n s = Some (r, t)"
  shows "only_vma v s t \<and>
    (\<forall>p x. ptes t v p = Some x \<longrightarrow> ptes s v p = Some x \<or> (\<exists>k < unat n div 4096. p = a + of_nat k * PAGE_SIZE))"
proof (cases "t = s")
  case True
  then show ?thesis by (simp add: only_vma_def)
next
  case False
  let ?w = "vmas s v"
  define x where "x = (if a = vm_start ?w \<and> a + n = vm_end ?w
    then ?w\<lparr>vm_pgoff := pfn, vm_flags := vm_flags ?w OR VM_PFN_AT_MMAP\<rparr> else ?w)"
  define w where "w = x\<lparr>vm_flags := vm_flags x OR (VM_IO OR VM_RESERVED OR VM_PFNMAP)\<rparr>"
  have "remap_pages v a pfn (unat n div 4096) (set_vma v w s) = Some (r, t)"
    using r False unfolding io_remap_pfn_range_def Let_def aligned_round [OF al] x_def [symmetric] w_def [symmetric]
    by (simp split: if_splits)
  moreover have "vm_start w = vm_start ?w" "vm_end w = vm_end ?w" by (simp_all add: w_def x_def)
  ultimately have w: "vm_start w = vm_start ?w" "vm_end w = vm_end ?w"
    "remap_pages v a pfn (unat n div 4096) (set_vma v w s) = Some (r, t)" by simp_all
  note e = remap_pages_effect [OF w(3)]
  show ?thesis using e only_vma_trans [OF only_vma_set_vma [OF w(1,2)]] by simp
qed

lemma remap_region_effect:
  assumes ok: "region_ok (vmas s v) r" and r: "pmem_remap_pfn_range i v d (region_offset r) (region_len r) s = Some (e, t)"
  shows "only_vma v s t \<and>
    (\<forall>p x. ptes t v p = Some x \<longrightarrow> ptes s v p = Some x \<or> in_region (vm_start (vmas s v)) r p)"
proof -
  let ?z = "zap_page_range v (vm_start (vmas s v) + region_offset r) (region_len r) s"
  have z: "only_vma v s ?z" by (rule only_vma_zap)
  have zp: "ptes ?z v p = Some x \<Longrightarrow> ptes s v p = Some x" for p x
    by (auto simp: zap_page_range_def Let_def split: if_splits)
  have zv: "vm_start (vmas ?z v) = vm_start (vmas s v)" using only_vmaD [OF z] by simp
  have al: "PMEM_IS_PAGE_ALIGNED (region_len r)" using ok by (simp add: region_ok_def)
  obtain k pfn where "io_remap_pfn_range v (vm_start (vmas s v) + region_offset r) pfn (region_len r) ?z = Some (k, t)"
    using r by (auto simp: pmem_remap_pfn_range_def pmem_map_pfn_range_def Let_def bind_eq_Some_conv zv split: if_splits)
  note e = io_remap_effect [OF al this]
  have "ptes s v p = Some x \<or> in_region (vm_start (vmas s v)) r p" if "ptes t v p = Some x" for p x
    using e that zp region_pages [OF ok] by blast
  then show ?thesis using e only_vma_trans [OF z] by blast
qed

lemma remap_regions_effect:
  "\<forall>r\<in>set rs. region_ok (vmas s v) r \<Longrightarrow> remap_regions i v d rs s = Some (e, t) \<Longrightarrow>
   only_vma v s t \<and> (\<forall>p x. ptes t v p = Some x \<longrightarrow>
     ptes s v p = Some x \<or> (\<exists>r\<in>set rs. in_region (vm_start (vmas s v)) r p))"
proof (induction rs arbitrary: s)
  case Nil
  then show ?case by (simp add: only_vma_def)
next
  case (Cons r rs)
  then obtain k s1 where k: "pmem_remap_pfn_range i v d (region_offset r) (region_len r) s = Some (k, s1)"
    "k \<noteq> None \<and> t = s1 \<or> remap_regions i v d rs s1 = Some (e, t)"
    by (auto simp: bind_eq_Some_conv split: if_splits)
  have e1: "only_vma v s s1" "\<And>p x. ptes s1 v p = Some x \<Longrightarrow> ptes s v p = Some x \<or> in_region (vm_start (vmas s v)) r p"
    using remap_region_effect [OF _ k(1)] Cons.prems(1) by auto
  have v: "vm_start (vmas s1 v) = vm_start (vmas s v)" "vm_end (vmas s1 v) = vm_end (vmas s v)"
    using only_vmaD [OF e1(1)] by auto
  from k(2) show ?case
  proof
    assume "k \<noteq> None \<and> t = s1"
    then show ?thesis using e1 by auto
  next
    assume l: "remap_regions i v d rs s1 = Some (e, t)"
    have "\<forall>r\<in>set rs. region_ok (vmas s1 v) r" using Cons.prems(1) v by (simp add: region_ok_def)
    then have "only_vma v s1 t" "\<And>p x. ptes t v p = Some x \<Longrightarrow>
        ptes s1 v p = Some x \<or> (\<exists>r\<in>set rs. in_region (vm_start (vmas s v)) r p)"
      using Cons.IH [OF _ l] v by auto
    then show ?thesis using e1 only_vma_trans [OF e1(1)] by fastforce
  qed
qed

lemma mmap_connected_view:
  assumes e: "ptes s v = Map.empty" and ok: "\<forall>r\<in>set (region_list (get_data s a)). region_ok (vmas s v) r"
    and r: "mmap_connected env i v a n s = Some (None, t)"
  shows "submap_only t i v (region_list (get_data s a)) \<and>
    get_data t a = (get_data s a)\<lparr>data_flags := data_flags (get_data s a) OR PMEM_FLAGS_SUBMAP,
      data_task := group_leader env, data_vma := v\<rparr> \<and>
    (\<forall>u. vm_start (vmas t u) = vm_start (vmas s u) \<and> vm_end (vmas t u) = vm_end (vmas s u))"
proof -
  let ?d = "get_data s a"
  obtain s1 where g: "pmem_map_garbage i v 0 n s = (None, s1)"
    using r by (auto simp: mmap_connected_def Let_def split: prod.splits option.splits)
  obtain s2 where k: "remap_regions i v ?d (region_list ?d) s1 = Some (None, s2)"
    and t: "t = set_data a (?d\<lparr>data_flags := data_flags ?d OR PMEM_FLAGS_SUBMAP, data_task := group_leader env, data_vma := v\<rparr>)
        (s2\<lparr>task_refs := (task_refs s2)(group_leader env := task_refs s2 (group_leader env) + 1)\<rparr>)"
    using r g by (auto simp: mmap_connected_def Let_def bind_eq_Some_conv split: if_splits)
  have e1: "only_vma v s s1" "\<And>p x. ptes s1 v p = Some x \<Longrightarrow> x = garbage_pfn (pmem s i)"
    using map_garbage_effect [OF g] e by auto
  have v1: "vm_start (vmas s1 v) = vm_start (vmas s v)" "vm_end (vmas s1 v) = vm_end (vmas s v)" "pmem s1 = pmem s"
    using only_vmaD [OF e1(1), of v] by auto
  then have "\<forall>r\<in>set (region_list ?d). region_ok (vmas s1 v) r" using ok by (simp add: region_ok_def)
  note e2 = remap_regions_effect [OF this k]
  have o: "only_vma v s s2" using e2 only_vma_trans [OF e1(1)] by blast
  have tv: "ptes t = ptes s2" "vmas t = vmas s2" "pmem t = pmem s2" by (simp_all add: t set_data_def)
  have "submap_only t i v (region_list ?d)"
    unfolding submap_only_def tv using e1(2) e2 v1(1) only_vmaD [OF o, of v] by metis
  then show ?thesis using only_vmaD [OF o] by (simp add: t) (simp add: set_data_def)
qed

lemma pmem_mmap_view:
  assumes f: "file_data s f = Some a" and c: "has_flag PMEM_FLAGS_CONNECTED (get_data s a)" "data_index (get_data s a) \<noteq> - 1"
    and e: "ptes s v = Map.empty" and ok: "\<forall>r\<in>set (region_list (get_data s a)). region_ok (vmas s v) r"
    and r: "pmem_mmap env f v s = Some (None, t)"
  shows "submap_only t (get_id s f) v (region_list (get_data t a)) \<and> data_vma (get_data t a) = v \<and>
    data_task (get_data t a) = group_leader env \<and> PMEM_IS_SUBMAP (get_data t a) \<and>
    master_file (get_data t a) = master_file (get_data s a) \<and> region_list (get_data t a) = region_list (get_data s a) \<and>
    (\<forall>u. vm_start (vmas t u) = vm_start (vmas s u) \<and> vm_end (vmas t u) = vm_end (vmas s u))"
proof -
  let ?n = "vm_end (vmas s v) - vm_start (vmas s v)" and ?d = "get_data s a"
  have a: "data_of s f = a" using file_dataD [OF f] by blast
  have p: "mmap_pages env f v a ?n s = Some (None, t)" and nu: "\<not> has_flag PMEM_FLAGS_UNSUBMAP ?d"
    using r c(2) unfolding pmem_mmap_def Let_def a by (auto split: if_splits)
  define w where "w = (vmas s v)\<lparr>vm_pgoff := drop_bit 12 (pmem_start_addr (get_id s f) ?d s),
    vm_page_prot := phys_mem_access_prot f (vm_page_prot (vmas s v)) s\<rparr>"
  have w: "vm_start w = vm_start (vmas s v)" "vm_end w = vm_end (vmas s v)" by (simp_all add: w_def)
  obtain u where u: "mmap_connected env (get_id s f) v a ?n (set_vma v w s) = Some (None, u)"
    and t: "t = set_vma v ((vmas u v)\<lparr>vm_ops := True\<rparr>) u"
    using p c(1) unfolding mmap_pages_def Let_def w_def [symmetric] by (auto simp: bind_eq_Some_conv)
  let ?s = "set_vma v w s"
  have s: "get_data ?s = get_data s" by (simp add: get_data_def set_vma_def fun_eq_iff)
  have "\<forall>r\<in>set (region_list (get_data ?s a)). region_ok (vmas ?s v) r"
    using ok w unfolding s by (simp add: region_ok_def set_vma_def)
  note m = mmap_connected_view [OF _ this u, unfolded s ptes_set_vma, OF e]
  have tv: "get_data t = get_data u" "ptes t = ptes u" "pmem t = pmem u" by (simp_all add: t get_data_def set_vma_def fun_eq_iff)
  have vv: "vm_start (vmas t x) = vm_start (vmas s x) \<and> vm_end (vmas t x) = vm_end (vmas s x)" for x
    using m w by (simp add: t set_vma_def)
  have "submap_only t (get_id s f) v (region_list ?d)"
  proof -
    have ts: "vm_start (vmas t v) = vm_start (vmas u v)" by (simp add: t set_vma_def)
    show ?thesis using m unfolding submap_only_def tv ts by blast
  qed
  then show ?thesis using m vv nu unfolding tv by (simp add: PMEM_IS_SUBMAP_def flag_simps)
qed


text \<open>C34: \<open>pmem_vma_open\<close>, which runs when a fork copies an area, leaves the copy with all of its pages. It is
  meant to replace them by the garbage page, but computes the length as \<open>vm_start - vm_end\<close>: for a page aligned,
  mapped area no longer than its start address the zap covers an empty range, inserting the first garbage page
  fails because the page is present, and the page table of the copy is unchanged.\<close>

theorem pmem_vma_open_keeps_access:
  assumes "has_allocation (vm_file w) s" "w = vmas s v"
    and "PMEM_IS_PAGE_ALIGNED (vm_end w - vm_start w)" "vm_start w < vm_end w" "vm_end w - vm_start w \<le> vm_start w"
    and "ptes s v (vm_start w) \<noteq> None"
  shows "\<exists>t. pmem_vma_open v s = Some (None, t) \<and> ptes t v = ptes s v"
proof -
  let ?n = "vm_start w - vm_end w" and ?i = "get_id s (vm_file w)"
  have neg: "?n = - (vm_end w - vm_start w)" by simp
  have "take_bit 12 (vm_end w - vm_start w) = 0" using assms(3) by (simp only: aligned_take_bit)
  then have "take_bit 12 ?n = 0" unfolding neg take_bit_eq_0_iff dvd_minus_iff .
  then have al: "PMEM_IS_PAGE_ALIGNED ?n" by (simp only: aligned_take_bit)
  have "drop_bit 12 ?n \<noteq> 0"
  proof
    assume "drop_bit 12 ?n = 0"
    then have "?n = 0" using bits_ident [of 12 ?n] \<open>take_bit 12 ?n = 0\<close> by simp
    then show False using assms(4) by simp
  qed
  then obtain m where m: "unat (drop_bit 12 ?n) = Suc m" by (cases "unat (drop_bit 12 ?n)") (auto simp: unat_eq_zero)
  have "\<not> vm_start w < vm_start w + ?n"
    using word_sub_le [OF assms(5)] unfolding neg by (simp only: add_uminus_conv_diff not_less)
  then have z: "zap_page_range v (vm_start w) ?n s = s" using assms(2) by (simp add: zap_page_range_def Let_def)
  define s1 where "s1 = set_vma v (w\<lparr>vm_flags := vm_flags w OR (VM_IO OR VM_RESERVED OR VM_PFNMAP OR VM_SHARED OR VM_WRITE)\<rparr>) s"
  obtain r t where i: "vm_insert_pfn v (vm_start w) (garbage_pfn (pmem s1 ?i)) s1 = (r, t)" by fastforce
  have r: "r \<noteq> None" using i assms(2,4,6)
    by (auto simp: vm_insert_pfn_def Let_def next_fails_def s1_def set_vma_def split: if_splits)
  have "ptes t = ptes s" using vm_insert_effect(3) [OF i r] by (simp add: s1_def)
  moreover have "pmem_map_garbage ?i v 0 ?n s = (Some EAGAIN, t)"
    using r i m assms(2) by (auto simp: pmem_map_garbage_def Let_def s1_def)
  ultimately show ?thesis using assms(1,2) al z by (auto simp: pmem_vma_open_def pmem_unmap_pfn_range_def Let_def)
qed

definition sample_vma :: "u32 \<Rightarrow> addr \<Rightarrow> vma" where
  "sample_vma start f = \<lparr>vm_start = start, vm_end = start + 0x2000, vm_pgoff = 0, vm_flags = 0, vm_page_prot = 0,
     vm_file = f, vm_ops = False\<rparr>"

definition sample_env :: pmem_env where
  "sample_env = \<lparr>fget = (\<lambda>fd. fd), group_leader = 7, cur_pid = 42, task_mm = (\<lambda>t. t)\<rparr>"

definition sample_boot :: pmem_state where
  "sample_boot = \<lparr>pmem = (\<lambda>i. sample_pmem\<lparr>dev_minor := i, no_allocator := (i = 0)\<rparr>), id_count = 10,
     filp = (\<lambda>f. \<lparr>i_rdev = (0, 0), f_sync = False, private_data = Priv_null\<rparr>),
     datas = \<lparr>kobj = Map.empty, knext = 1, kfail = []\<rparr>,
     vmas = (\<lambda>v. sample_vma (if v = 1 then 0x40000000 else 0x41000000) v), ptes = (\<lambda>v. Map.empty),
     task_refs = (\<lambda>t. 0), nomem = [], flushed = []\<rparr>"

definition sample_open :: "nat \<Rightarrow> pmem_state" where
  "sample_open i = snd (misc_open 2 i False (snd (misc_open 1 i False sample_boot)))"

definition sample_two :: pmem_state where
  "sample_two = snd (the (pmem_ioctl sample_env 2 (PMEM_ALLOCATE 8192)
     (snd (the (pmem_ioctl sample_env 1 (PMEM_ALLOCATE 8192) (sample_open 1))))))"

lemma sample_boot_initial: "pmem_initial sample_boot"
proof -
  have n: "\<not> no_allocator sample_pmem" "data_list sample_pmem = []" by (simp_all add: sample_pmem_def)
  have "pmem_ok (sample_pmem\<lparr>dev_minor := i, no_allocator := False\<rparr>)" for i
    using sample_pmem_ok n by (simp add: pmem_ok_def Let_def)
  then have "device_ok (sample_pmem\<lparr>dev_minor := i, no_allocator := (i = 0)\<rparr>)" for i
    by (cases "i = 0") (simp_all add: device_ok_def)
  then show ?thesis using n by (simp add: pmem_initial_def sample_boot_def kheap_ok_def)
qed

lemma reachable_open:
  assumes "pmem_reachable s" "file_data s f = None" "i < PMEM_MAX_DEVICES"
  shows "pmem_reachable (snd (misc_open f i b s))"
  by (rule reach_step [OF assms(1) step_open [OF assms(2,3)]]) (rule prod.collapse [symmetric])

lemma sample_open_reachable: "i < PMEM_MAX_DEVICES \<Longrightarrow> pmem_reachable (sample_open i)"
proof -
  assume i: "i < PMEM_MAX_DEVICES"
  have "pmem_reachable (snd (misc_open 1 i False sample_boot))"
    by (rule reachable_open [OF reach_initial [OF sample_boot_initial] _ i]) code_simp
  moreover have "file_data (snd (misc_open 1 i False sample_boot)) 2 = None"
    by (simp add: misc_open_def pmem_open_def file_data_def get_id_def sample_boot_def kzalloc_def set_pmem_def)
  ultimately show ?thesis unfolding sample_open_def using i by (rule reachable_open)
qed

lemma reachable_ioctl:
  assumes "pmem_reachable s" "file_data s f \<noteq> None" "pmem_ioctl e f cmd s \<noteq> None"
  shows "pmem_reachable (snd (the (pmem_ioctl e f cmd s)))"
proof -
  obtain a where a: "file_data s f = Some a" using assms(2) by auto
  obtain r t where t: "pmem_ioctl e f cmd s = Some (r, t)" using assms(3) by auto
  then show ?thesis using reach_step [OF assms(1) step_ioctl [OF a t]] by simp
qed

lemma pmem_allocate_ioctl_total: "pmem_ioctl e f (PMEM_ALLOCATE n) s \<noteq> None"
  by (simp add: pmem_ioctl_def Let_def split: prod.splits)

lemma sample_two_reachable: "pmem_reachable sample_two"
proof -
  have "file_data (sample_open 1) 1 \<noteq> None" by code_simp
  then have "pmem_reachable (snd (the (pmem_ioctl sample_env 1 (PMEM_ALLOCATE 8192) (sample_open 1))))"
    by (rule reachable_ioctl [OF sample_open_reachable _ pmem_allocate_ioctl_total, rotated]) (simp add: PMEM_MAX_DEVICES_def)
  moreover have "file_data (snd (the (pmem_ioctl sample_env 1 (PMEM_ALLOCATE 8192) (sample_open 1)))) 2 \<noteq> None" by code_simp
  ultimately show ?thesis unfolding sample_two_def by (rule reachable_ioctl [OF _ _ pmem_allocate_ioctl_total])
qed


definition sample_region :: pmem_region where
  "sample_region = \<lparr>region_offset = 0, region_len = 0x1000\<rparr>"

definition sample_granted :: pmem_state where
  "sample_granted =
     snd (the (pmem_ioctl sample_env 2 (PMEM_MAP (Some sample_region))
      (snd (the (pmem_ioctl sample_env 2 (PMEM_CONNECT 1)
       (snd (the (pmem_mmap sample_env 1 1 (sample_open 0)))))))))"

definition sample_client :: pmem_state where
  "sample_client = snd (the (pmem_mmap sample_env 2 2 sample_granted))"

lemma reachable_mmap:
  assumes "pmem_reachable s" "file_data s f = Some a" "map_option fst (pmem_mmap e f v s) = Some r"
  shows "pmem_reachable (snd (the (pmem_mmap e f v s)))"
proof -
  obtain t where t: "pmem_mmap e f v s = Some (r, t)" using assms(3) by auto
  then show ?thesis using reach_step [OF assms(1) step_mmap [OF assms(2) t]] by simp
qed

lemma reachable_ioctl':
  assumes "pmem_reachable s" "file_data s f = Some a" "map_option fst (pmem_ioctl e f cmd s) = Some r"
  shows "pmem_reachable (snd (the (pmem_ioctl e f cmd s)))"
  by (rule reachable_ioctl [OF assms(1)]) (use assms(2,3) in auto)

lemma sample_granted_reachable: "pmem_reachable sample_granted"
proof -
  let ?a = "snd (the (pmem_mmap sample_env 1 1 (sample_open 0)))"
  let ?b = "snd (the (pmem_ioctl sample_env 2 (PMEM_CONNECT 1) ?a))"
  have fo: "file_data (sample_open 0) 1 = Some 1" by code_simp
  have mo: "map_option fst (pmem_mmap sample_env 1 1 (sample_open 0)) = Some None" by code_simp
  have ra: "pmem_reachable ?a" by (rule reachable_mmap [OF sample_open_reachable fo mo]) (simp add: PMEM_MAX_DEVICES_def)
  have fa: "file_data ?a 2 = Some 2" by code_simp
  have ca: "map_option fst (pmem_ioctl sample_env 2 (PMEM_CONNECT 1) ?a) = Some (Inr None)" by code_simp
  have rb: "pmem_reachable ?b" by (rule reachable_ioctl' [OF ra fa ca])
  have fb: "file_data ?b 2 = Some 2" by code_simp
  have mb: "map_option fst (pmem_ioctl sample_env 2 (PMEM_MAP (Some sample_region)) ?b) = Some (Inr None)" by code_simp
  show ?thesis unfolding sample_granted_def by (rule reachable_ioctl' [OF rb fb mb])
qed

lemma sample_granted_ptes: "ptes sample_granted 2 = Map.empty"
proof
  show "ptes sample_granted 2 p = None" for p by code_simp
qed

lemma sample_granted_data:
  "file_data sample_granted 2 = Some 2" "has_flag PMEM_FLAGS_CONNECTED (get_data sample_granted 2)"
  "data_index (get_data sample_granted 2) \<noteq> - 1" "region_list (get_data sample_granted 2) = [sample_region]"
  "get_id sample_granted 2 = 0" "vm_start (vmas sample_granted 2) = 0x41000000"
  "vm_end (vmas sample_granted 2) = 0x41002000" "master_file (get_data sample_granted 2) = 1"
  by code_simp+

lemma sample_granted_mmap: "pmem_mmap sample_env 2 2 sample_granted = Some (None, sample_client)"
proof -
  have "map_option fst (pmem_mmap sample_env 2 2 sample_granted) = Some None" by code_simp
  then show ?thesis by (auto simp: sample_client_def)
qed

lemma sample_client_reachable: "pmem_reachable sample_client"
  using reach_step [OF sample_granted_reachable step_mmap [OF sample_granted_data(1) sample_granted_mmap]] .

lemma sample_region_ok: "vm_start w = 0x41000000 \<Longrightarrow> vm_end w = 0x41002000 \<Longrightarrow> region_ok w sample_region"
  by (simp add: region_ok_def sample_region_def PMEM_IS_PAGE_ALIGNED_def)

lemmas sample_client_view =
  pmem_mmap_view [OF sample_granted_data(1-3) sample_granted_ptes _ sample_granted_mmap, unfolded sample_granted_data(4,5,8)]

lemma sample_client_data:
  "file_data sample_client 1 = Some 1" "has_flag PMEM_FLAGS_MASTERMAP (get_data sample_client 1)"
  "get_id sample_client 1 = 0" "data_list (pmem sample_client 0) = [2, 1]" "\<not> client sample_client 1 1"
  "ptes sample_client 2 0x41000000 \<noteq> Some (garbage_pfn (pmem sample_client 0))"
  by code_simp+

lemma sample_client_facts:
  "client sample_client 1 2" "client_ok sample_env 0 sample_client 2" "data_vma (get_data sample_client 2) = 2"
  "vm_start (vmas sample_client 2) = 0x41000000" "vm_end (vmas sample_client 2) = 0x41002000"
proof -
  have ok: "\<forall>r\<in>set [sample_region]. region_ok (vmas sample_granted 2) r"
    using sample_region_ok [OF sample_granted_data(6,7)] by simp
  note v = sample_client_view [OF ok]
  show c: "client sample_client 1 2" "data_vma (get_data sample_client 2) = 2"
    "vm_start (vmas sample_client 2) = 0x41000000" "vm_end (vmas sample_client 2) = 0x41002000"
    using v sample_granted_data(6,7) by (simp_all add: client_def)
  show "client_ok sample_env 0 sample_client 2"
    using v sample_region_ok [OF c(3,4)] unfolding client_ok_def Let_def c(2) by (auto simp: sample_env_def)
qed


theorem pmem_vma_open_keeps_access_witness:
  "ptes sample_client 2 0x41000000 \<noteq> Some (garbage_pfn (pmem sample_client 0)) \<and>
   (\<exists>t. pmem_vma_open 2 sample_client = Some (None, t) \<and> ptes t 2 0x41000000 = ptes sample_client 2 0x41000000)"
proof -
  have h: "has_allocation (vm_file (vmas sample_client 2)) sample_client" "ptes sample_client 2 0x41000000 \<noteq> None"
    by code_simp+
  have "PMEM_IS_PAGE_ALIGNED (vm_end (vmas sample_client 2) - vm_start (vmas sample_client 2))"
    "vm_start (vmas sample_client 2) < vm_end (vmas sample_client 2)"
    "vm_end (vmas sample_client 2) - vm_start (vmas sample_client 2) \<le> vm_start (vmas sample_client 2)"
    using sample_client_facts(4,5) by (simp_all add: PMEM_IS_PAGE_ALIGNED_def)
  from pmem_vma_open_keeps_access [OF h(1) refl this]
  show ?thesis using h(2) sample_client_data(6) sample_client_facts(4) by auto
qed

end
