(* ===== verification/Kernel_RBTree.thy ===== *)
theory Kernel_RBTree
  imports Kernel_Prelude "HOL-Library.Monad_Syntax"
begin

text \<open>
  The red-black trees of \<open>lib/rbtree.c\<close> and \<open>include/linux/rbtree.h\<close>, at the level of the pointers and of the word that packs
  the parent of a node and its colour.  A heap holds the nodes, by their addresses, and the root.  Loops are partial
  functions in the option monad; \<open>None\<close> is a loop that does not end or a NULL pointer that is followed.

  A tree is read off the heap by \<open>rbtree\<close>: every node points to its children and to its parent and has its colour.  The loops work on a
  node in the middle of the tree, which a list of frames (the way up to the root) describes; rotations and
  recolourings are proved once in such a context.  The locale \<open>ordered_nodes\<close> is the contract for clients, which find the gap for a
  new node by a search of their own.
\<close>

unbundle bit_operations_syntax

subsection \<open>Nodes\<close>

record rb_node =
  rb_parent_color :: nat
  rb_right :: addr
  rb_left :: addr

record rb_heap =
  rb_nodes :: "addr \<Rightarrow> rb_node"
  rb_root :: addr

definition RB_RED :: nat where "RB_RED = 0"
definition RB_BLACK :: nat where "RB_BLACK = 1"

definition upd_node :: "addr \<Rightarrow> (rb_node \<Rightarrow> rb_node) \<Rightarrow> rb_heap \<Rightarrow> rb_heap" where
  "upd_node p f h = h\<lparr>rb_nodes := (rb_nodes h)(p := f (rb_nodes h p))\<rparr>"

definition lft :: "rb_heap \<Rightarrow> addr \<Rightarrow> addr" where "lft h p = rb_left (rb_nodes h p)"
definition rgt :: "rb_heap \<Rightarrow> addr \<Rightarrow> addr" where "rgt h p = rb_right (rb_nodes h p)"

definition set_left :: "addr \<Rightarrow> addr \<Rightarrow> rb_heap \<Rightarrow> rb_heap" where
  "set_left p q = upd_node p (\<lambda>n. n\<lparr>rb_left := q\<rparr>)"

definition set_right :: "addr \<Rightarrow> addr \<Rightarrow> rb_heap \<Rightarrow> rb_heap" where
  "set_right p q = upd_node p (\<lambda>n. n\<lparr>rb_right := q\<rparr>)"

definition set_root :: "addr \<Rightarrow> rb_heap \<Rightarrow> rb_heap" where
  "set_root p h = h\<lparr>rb_root := p\<rparr>"

text \<open>\<open>x & ~3\<close> and \<open>x & ~1\<close> are written as differences, since a natural number has no complement.\<close>

definition rb_parent :: "rb_heap \<Rightarrow> addr \<Rightarrow> addr" where
  "rb_parent h p = (let x = rb_parent_color (rb_nodes h p) in x - (x AND 3))"

definition rb_color :: "rb_heap \<Rightarrow> addr \<Rightarrow> nat" where
  "rb_color h p = rb_parent_color (rb_nodes h p) AND 1"

definition rb_is_red :: "rb_heap \<Rightarrow> addr \<Rightarrow> bool" where
  "rb_is_red h p \<longleftrightarrow> rb_color h p = 0"

definition rb_is_black :: "rb_heap \<Rightarrow> addr \<Rightarrow> bool" where
  "rb_is_black h p \<longleftrightarrow> rb_color h p \<noteq> 0"

definition rb_set_red :: "addr \<Rightarrow> rb_heap \<Rightarrow> rb_heap" where
  "rb_set_red p = upd_node p (\<lambda>n. let x = rb_parent_color n in n\<lparr>rb_parent_color := x - (x AND 1)\<rparr>)"

definition rb_set_black :: "addr \<Rightarrow> rb_heap \<Rightarrow> rb_heap" where
  "rb_set_black p = upd_node p (\<lambda>n. n\<lparr>rb_parent_color := rb_parent_color n OR 1\<rparr>)"

definition rb_set_parent :: "addr \<Rightarrow> addr \<Rightarrow> rb_heap \<Rightarrow> rb_heap" where
  "rb_set_parent p q = upd_node p (\<lambda>n. n\<lparr>rb_parent_color := (rb_parent_color n AND 3) OR q\<rparr>)"

definition rb_set_color :: "addr \<Rightarrow> nat \<Rightarrow> rb_heap \<Rightarrow> rb_heap" where
  "rb_set_color p c = upd_node p (\<lambda>n. let x = rb_parent_color n in n\<lparr>rb_parent_color := (x - (x AND 1)) OR c\<rparr>)"

definition RB_EMPTY_NODE :: "rb_heap \<Rightarrow> addr \<Rightarrow> bool" where
  "RB_EMPTY_NODE h p \<longleftrightarrow> rb_parent h p = p"

definition RB_CLEAR_NODE :: "addr \<Rightarrow> rb_heap \<Rightarrow> rb_heap" where
  "RB_CLEAR_NODE p = rb_set_parent p p"

text \<open>The address of the link that will point to a new node.\<close>

datatype rb_link = Link_root | Link_left addr | Link_right addr

fun set_link :: "rb_link \<Rightarrow> addr \<Rightarrow> rb_heap \<Rightarrow> rb_heap" where
  "set_link Link_root p = set_root p"
| "set_link (Link_left q) p = set_left q p"
| "set_link (Link_right q) p = set_right q p"

definition rb_link_node :: "addr \<Rightarrow> addr \<Rightarrow> rb_link \<Rightarrow> rb_heap \<Rightarrow> rb_heap" where
  "rb_link_node node parent link h =
     set_link link node (upd_node node (\<lambda>n. n\<lparr>rb_parent_color := parent, rb_left := 0, rb_right := 0\<rparr>) h)"

subsection \<open>Rotations\<close>

definition rb_rotate_left :: "addr \<Rightarrow> rb_heap \<Rightarrow> rb_heap option" where
  "rb_rotate_left node h =
     (let right = rgt h node; parent = rb_parent h node in
      if node = 0 \<or> right = 0 then None
      else
        let h = set_right node (lft h right) h;
            h = (if rgt h node \<noteq> 0 then rb_set_parent (lft h right) node h else h);
            h = set_left right node h;
            h = rb_set_parent right parent h;
            h = (if parent \<noteq> 0
                 then if node = lft h parent then set_left parent right h else set_right parent right h
                 else set_root right h)
        in Some (rb_set_parent node right h))"

definition rb_rotate_right :: "addr \<Rightarrow> rb_heap \<Rightarrow> rb_heap option" where
  "rb_rotate_right node h =
     (let left = lft h node; parent = rb_parent h node in
      if node = 0 \<or> left = 0 then None
      else
        let h = set_left node (rgt h left) h;
            h = (if lft h node \<noteq> 0 then rb_set_parent (rgt h left) node h else h);
            h = set_right left node h;
            h = rb_set_parent left parent h;
            h = (if parent \<noteq> 0
                 then if node = rgt h parent then set_right parent left h else set_left parent left h
                 else set_root left h)
        in Some (rb_set_parent node left h))"

subsection \<open>Insertion\<close>

partial_function (option) rb_insert_loop :: "addr \<Rightarrow> rb_heap \<Rightarrow> rb_heap option" where
  "rb_insert_loop node h =
     (let parent = rb_parent h node in
      if parent \<noteq> 0 \<and> rb_is_red h parent then
        let gparent = rb_parent h parent in
        if gparent = 0 then None
        else if parent = lft h gparent then
          let uncle = rgt h gparent in
          if uncle \<noteq> 0 \<and> rb_is_red h uncle
          then rb_insert_loop gparent (rb_set_red gparent (rb_set_black parent (rb_set_black uncle h)))
          else do {
            (parent, node, h) \<leftarrow>
              (if rgt h parent = node then do { h \<leftarrow> rb_rotate_left parent h; Some (node, parent, h) }
               else Some (parent, node, h));
            h \<leftarrow> rb_rotate_right gparent (rb_set_red gparent (rb_set_black parent h));
            rb_insert_loop node h
          }
        else
          let uncle = lft h gparent in
          if uncle \<noteq> 0 \<and> rb_is_red h uncle
          then rb_insert_loop gparent (rb_set_red gparent (rb_set_black parent (rb_set_black uncle h)))
          else do {
            (parent, node, h) \<leftarrow>
              (if lft h parent = node then do { h \<leftarrow> rb_rotate_right parent h; Some (node, parent, h) }
               else Some (parent, node, h));
            h \<leftarrow> rb_rotate_left gparent (rb_set_red gparent (rb_set_black parent h));
            rb_insert_loop node h
          }
      else Some h)"

declare rb_insert_loop.simps [code]

definition rb_insert_color :: "addr \<Rightarrow> rb_heap \<Rightarrow> rb_heap option" where
  "rb_insert_color node h = do {
     h \<leftarrow> rb_insert_loop node h;
     if rb_root h = 0 then None else Some (rb_set_black (rb_root h) h)
   }"

subsection \<open>Removal\<close>

text \<open>One round of the loop, the node being the left child, and its mirror image: the next node and parent, or \<open>None\<close> in the
  first component when the loop is left by \<open>break\<close>.\<close>

definition no_red_child :: "rb_heap \<Rightarrow> addr \<Rightarrow> bool" where
  "no_red_child h other \<longleftrightarrow>
     (lft h other = 0 \<or> rb_is_black h (lft h other)) \<and> (rgt h other = 0 \<or> rb_is_black h (rgt h other))"

definition erase_left_black :: "addr \<Rightarrow> addr \<Rightarrow> rb_heap \<Rightarrow> ((addr \<times> addr) option \<times> rb_heap) option" where
  "erase_left_black parent other h =
     (if other = 0 then None
      else if no_red_child h other
      then let h = rb_set_red other h in Some (Some (parent, rb_parent h parent), h)
      else do {
        (other, h) \<leftarrow>
          (if rgt h other = 0 \<or> rb_is_black h (rgt h other) then
             if lft h other = 0 then None
             else do {
               h \<leftarrow> rb_rotate_right other (rb_set_red other (rb_set_black (lft h other) h));
               Some (rgt h parent, h)
             }
           else Some (other, h));
        if other = 0 \<or> rgt h other = 0 then None
        else do {
          h \<leftarrow> rb_rotate_left parent
                 (rb_set_black (rgt h other) (rb_set_black parent (rb_set_color other (rb_color h parent) h)));
          Some (None, h)
        }
      })"

definition erase_left :: "addr \<Rightarrow> rb_heap \<Rightarrow> ((addr \<times> addr) option \<times> rb_heap) option" where
  "erase_left parent h =
     (let other = rgt h parent in
      if other = 0 then None
      else if rb_is_red h other then do {
        h \<leftarrow> rb_rotate_left parent (rb_set_red parent (rb_set_black other h));
        erase_left_black parent (rgt h parent) h
      }
      else erase_left_black parent other h)"

definition erase_right_black :: "addr \<Rightarrow> addr \<Rightarrow> rb_heap \<Rightarrow> ((addr \<times> addr) option \<times> rb_heap) option" where
  "erase_right_black parent other h =
     (if other = 0 then None
      else if no_red_child h other
      then let h = rb_set_red other h in Some (Some (parent, rb_parent h parent), h)
      else do {
        (other, h) \<leftarrow>
          (if lft h other = 0 \<or> rb_is_black h (lft h other) then
             if rgt h other = 0 then None
             else do {
               h \<leftarrow> rb_rotate_left other (rb_set_red other (rb_set_black (rgt h other) h));
               Some (lft h parent, h)
             }
           else Some (other, h));
        if other = 0 \<or> lft h other = 0 then None
        else do {
          h \<leftarrow> rb_rotate_right parent
                 (rb_set_black (lft h other) (rb_set_black parent (rb_set_color other (rb_color h parent) h)));
          Some (None, h)
        }
      })"

definition erase_right :: "addr \<Rightarrow> rb_heap \<Rightarrow> ((addr \<times> addr) option \<times> rb_heap) option" where
  "erase_right parent h =
     (let other = lft h parent in
      if other = 0 then None
      else if rb_is_red h other then do {
        h \<leftarrow> rb_rotate_right parent (rb_set_red parent (rb_set_black other h));
        erase_right_black parent (lft h parent) h
      }
      else erase_right_black parent other h)"

partial_function (option) rb_erase_color :: "addr \<Rightarrow> addr \<Rightarrow> rb_heap \<Rightarrow> rb_heap option" where
  "rb_erase_color node parent h =
     (if (node = 0 \<or> rb_is_black h node) \<and> node \<noteq> rb_root h then
        if parent = 0 then None
        else do {
          (next, h) \<leftarrow> (if lft h parent = node then erase_left parent h else erase_right parent h);
          (case next of
             Some np \<Rightarrow> rb_erase_color (fst np) (snd np) h
           | None \<Rightarrow> Some (if rb_root h \<noteq> 0 then rb_set_black (rb_root h) h else h))
        }
      else Some (if node \<noteq> 0 then rb_set_black node h else h))"

declare rb_erase_color.simps [code]

text \<open>Down the left or the right children to the last one.\<close>

partial_function (option) leftmost :: "rb_heap \<Rightarrow> addr \<Rightarrow> addr option" where
  "leftmost h n = (if lft h n \<noteq> 0 then leftmost h (lft h n) else Some n)"

partial_function (option) rightmost :: "rb_heap \<Rightarrow> addr \<Rightarrow> addr option" where
  "rightmost h n = (if rgt h n \<noteq> 0 then rightmost h (rgt h n) else Some n)"

declare leftmost.simps [code] rightmost.simps [code]

text \<open>Let the link to \<open>old\<close>, from its parent or the root, point to \<open>new\<close>.\<close>

definition replace_child :: "addr \<Rightarrow> addr \<Rightarrow> addr \<Rightarrow> rb_heap \<Rightarrow> rb_heap" where
  "replace_child parent old new h =
     (if parent \<noteq> 0 then if lft h parent = old then set_left parent new h else set_right parent new h
      else set_root new h)"

text \<open>The node \<open>old\<close> has two children, and its successor \<open>node\<close> takes its place: the child, the parent and the colour of
  the place that \<open>node\<close> leaves.\<close>

definition erase_relink :: "addr \<Rightarrow> addr \<Rightarrow> rb_heap \<Rightarrow> addr \<times> addr \<times> nat \<times> rb_heap" where
  "erase_relink old node h =
     (let h = replace_child (rb_parent h old) old node h;
          child = rgt h node; parent = rb_parent h node; color = rb_color h node;
          (parent, h) =
            (if parent = old then (node, h)
             else let h = (if child \<noteq> 0 then rb_set_parent child parent h else h);
                      h = set_left parent child h;
                      h = set_right node (rgt h old) h
                  in (parent, rb_set_parent (rgt h old) node h));
          h = upd_node node (\<lambda>n. n\<lparr>rb_parent_color := rb_parent_color (rb_nodes h old), rb_left := lft h old\<rparr>) h
      in (child, parent, color, rb_set_parent (lft h old) node h))"

definition rb_erase :: "addr \<Rightarrow> rb_heap \<Rightarrow> rb_heap option" where
  "rb_erase node h =
     (if node = 0 then None
      else if lft h node \<noteq> 0 \<and> rgt h node \<noteq> 0
      then do {
        succ \<leftarrow> leftmost h (rgt h node);
        let (child, parent, color, h) = erase_relink node succ h in
        if color = RB_BLACK then rb_erase_color child parent h else Some h
      }
      else
        let child = (if lft h node = 0 then rgt h node else lft h node);
            parent = rb_parent h node; color = rb_color h node;
            h = (if child \<noteq> 0 then rb_set_parent child parent h else h);
            h = replace_child parent node child h
        in if color = RB_BLACK then rb_erase_color child parent h else Some h)"

subsection \<open>Traversal\<close>

definition rb_first :: "rb_heap \<Rightarrow> addr option" where
  "rb_first h = (let n = rb_root h in if n = 0 then Some 0 else leftmost h n)"

definition rb_last :: "rb_heap \<Rightarrow> addr option" where
  "rb_last h = (let n = rb_root h in if n = 0 then Some 0 else rightmost h n)"

partial_function (option) climb_right :: "rb_heap \<Rightarrow> addr \<Rightarrow> addr option" where
  "climb_right h node =
     (let parent = rb_parent h node in
      if parent \<noteq> 0 \<and> node = rgt h parent then climb_right h parent else Some parent)"

partial_function (option) climb_left :: "rb_heap \<Rightarrow> addr \<Rightarrow> addr option" where
  "climb_left h node =
     (let parent = rb_parent h node in
      if parent \<noteq> 0 \<and> node = lft h parent then climb_left h parent else Some parent)"

declare climb_right.simps [code] climb_left.simps [code]

definition rb_next :: "addr \<Rightarrow> rb_heap \<Rightarrow> addr option" where
  "rb_next node h =
     (if rb_parent h node = node then Some 0
      else if rgt h node \<noteq> 0 then leftmost h (rgt h node)
      else climb_right h node)"

definition rb_prev :: "addr \<Rightarrow> rb_heap \<Rightarrow> addr option" where
  "rb_prev node h =
     (if rb_parent h node = node then Some 0
      else if lft h node \<noteq> 0 then rightmost h (lft h node)
      else climb_left h node)"

definition rb_replace_node :: "addr \<Rightarrow> addr \<Rightarrow> rb_heap \<Rightarrow> rb_heap" where
  "rb_replace_node victim new h =
     (let h = replace_child (rb_parent h victim) victim new h;
          h = (if lft h victim \<noteq> 0 then rb_set_parent (lft h victim) new h else h);
          h = (if rgt h victim \<noteq> 0 then rb_set_parent (rgt h victim) new h else h)
      in upd_node new (\<lambda>_. rb_nodes h victim) h)"

subsection \<open>Trees in the heap\<close>

text \<open>A tree of nodes: left subtree, address, whether it is black, right subtree.\<close>

datatype rtree = Lf | Nd rtree addr bool rtree

fun root_of :: "rtree \<Rightarrow> addr" where
  "root_of Lf = 0"
| "root_of (Nd l a c r) = a"

fun inorder :: "rtree \<Rightarrow> addr list" where
  "inorder Lf = []"
| "inorder (Nd l a c r) = inorder l @ a # inorder r"

fun tree_at :: "rb_heap \<Rightarrow> addr \<Rightarrow> rtree \<Rightarrow> bool" where
  "tree_at h p Lf \<longleftrightarrow> True"
| "tree_at h p (Nd l a c r) \<longleftrightarrow>
     a \<noteq> 0 \<and> 4 dvd a \<and> rb_parent h a = p \<and> rb_is_black h a = c \<and> lft h a = root_of l \<and> rgt h a = root_of r \<and>
     tree_at h a l \<and> tree_at h a r"

definition rbtree :: "rb_heap \<Rightarrow> rtree \<Rightarrow> bool" where
  "rbtree h t \<longleftrightarrow> rb_root h = root_of t \<and> tree_at h 0 t \<and> distinct (inorder t)"

text \<open>The packed word: a parent that is a multiple of 4 and two bits that parent updates keep.\<close>

lemma and_three: "x AND 3 = x mod 4" for x :: nat
  using take_bit_eq_mask [of 2 x] by (simp add: take_bit_eq_mod mask_eq_exp_minus_1)

lemma or_parent: "4 dvd q \<Longrightarrow> (x AND 3) OR q = x mod 4 + q" for x q :: nat
proof -
  assume q: "4 dvd q"
  have "(x mod 4) AND q = 0"
  proof (rule bit_eqI)
    fix n
    show "bit ((x mod 4) AND q) n = bit (0::nat) n"
    proof (cases "n < 2")
      case True
      have "take_bit 2 q = 0" using q by (simp add: take_bit_eq_0_iff)
      then have "\<not> bit q n" using True bit_take_bit_iff [of 2 q n] by simp
      then show ?thesis by (simp add: bit_simps)
    next
      case False
      have "x mod 4 = take_bit 2 x" by (simp add: take_bit_eq_mod)
      then show ?thesis using False by (simp add: bit_simps)
    qed
  qed
  then show ?thesis by (simp add: and_three disjunctive_add_eq_or)
qed

lemma parent_mod: "rb_parent h p = 4 * (rb_parent_color (rb_nodes h p) div 4)"
  by (simp add: rb_parent_def Let_def and_three minus_mod_eq_mult_div)

lemma black_mod: "rb_is_black h p \<longleftrightarrow> odd (rb_parent_color (rb_nodes h p))"
  by (simp add: rb_is_black_def rb_color_def and_one_eq odd_iff_mod_2_eq_one)

lemma is_red_iff: "rb_is_red h p \<longleftrightarrow> \<not> rb_is_black h p"
  by (simp add: rb_is_red_def rb_is_black_def)

lemma color_black: "rb_color h p = (if rb_is_black h p then 1 else 0)"
  by (simp add: rb_is_black_def rb_color_def and_one_eq)

text \<open>What each primitive does to the five views of the heap.\<close>

lemma views_left [simp]:
  "lft (set_left p q h) = (lft h)(p := q)" "rgt (set_left p q h) = rgt h" "rb_parent (set_left p q h) = rb_parent h"
  "rb_is_black (set_left p q h) = rb_is_black h" "rb_root (set_left p q h) = rb_root h"
  by (auto simp: fun_eq_iff set_left_def upd_node_def lft_def rgt_def rb_parent_def rb_is_black_def rb_color_def)

lemma views_right [simp]:
  "lft (set_right p q h) = lft h" "rgt (set_right p q h) = (rgt h)(p := q)" "rb_parent (set_right p q h) = rb_parent h"
  "rb_is_black (set_right p q h) = rb_is_black h" "rb_root (set_right p q h) = rb_root h"
  by (auto simp: fun_eq_iff set_right_def upd_node_def lft_def rgt_def rb_parent_def rb_is_black_def rb_color_def)

lemma views_root [simp]:
  "lft (set_root q h) = lft h" "rgt (set_root q h) = rgt h" "rb_parent (set_root q h) = rb_parent h"
  "rb_is_black (set_root q h) = rb_is_black h" "rb_root (set_root q h) = q"
  by (auto simp: fun_eq_iff set_root_def lft_def rgt_def rb_parent_def rb_is_black_def rb_color_def)

lemma views_parent [simp]:
  "lft (rb_set_parent p q h) = lft h" "rgt (rb_set_parent p q h) = rgt h"
  "4 dvd q \<Longrightarrow> rb_parent (rb_set_parent p q h) = (rb_parent h)(p := q)"
  "4 dvd q \<Longrightarrow> rb_is_black (rb_set_parent p q h) = rb_is_black h" "rb_root (rb_set_parent p q h) = rb_root h"
proof -
  show "lft (rb_set_parent p q h) = lft h" "rgt (rb_set_parent p q h) = rgt h" "rb_root (rb_set_parent p q h) = rb_root h"
    by (auto simp: fun_eq_iff rb_set_parent_def upd_node_def lft_def rgt_def)
  assume q: "4 dvd q"
  then show "rb_parent (rb_set_parent p q h) = (rb_parent h)(p := q)"
    by (auto simp: fun_eq_iff parent_mod rb_set_parent_def upd_node_def or_parent elim!: dvdE)
  have "even q" using q dvd_trans [of 2 4 q] by simp
  moreover have "odd (x mod 4) = odd x" for x :: nat by presburger
  ultimately show "rb_is_black (rb_set_parent p q h) = rb_is_black h"
    using q by (auto simp: fun_eq_iff black_mod rb_set_parent_def upd_node_def or_parent)
qed

lemma or_one: "x OR Suc 0 = (if even x then Suc x else x)" for x :: nat
  by (simp add: or_Suc_0_eq)

lemma views_black [simp]:
  "lft (rb_set_black p h) = lft h" "rgt (rb_set_black p h) = rgt h" "rb_parent (rb_set_black p h) = rb_parent h"
  "rb_is_black (rb_set_black p h) = (rb_is_black h)(p := True)" "rb_root (rb_set_black p h) = rb_root h"
proof -
  have "even x \<Longrightarrow> Suc x div 4 = x div 4" for x :: nat by presburger
  then show "rb_parent (rb_set_black p h) = rb_parent h"
    by (auto simp: fun_eq_iff parent_mod rb_set_black_def upd_node_def or_one)
qed (auto simp: fun_eq_iff rb_set_black_def upd_node_def lft_def rgt_def black_mod or_one)

lemma views_red [simp]:
  "lft (rb_set_red p h) = lft h" "rgt (rb_set_red p h) = rgt h" "rb_parent (rb_set_red p h) = rb_parent h"
  "rb_is_black (rb_set_red p h) = (rb_is_black h)(p := False)" "rb_root (rb_set_red p h) = rb_root h"
proof -
  have "(x - x mod 2) div 4 = x div 4" "even (x - x mod 2)" for x :: nat by presburger+
  then show "rb_parent (rb_set_red p h) = rb_parent h" "rb_is_black (rb_set_red p h) = (rb_is_black h)(p := False)"
    by (auto simp: fun_eq_iff parent_mod black_mod rb_set_red_def upd_node_def Let_def)
qed (auto simp: fun_eq_iff rb_set_red_def upd_node_def lft_def rgt_def Let_def)

lemma views_color [simp]:
  "lft (rb_set_color p c h) = lft h" "rgt (rb_set_color p c h) = rgt h" "rb_root (rb_set_color p c h) = rb_root h"
  "rb_parent (rb_set_color p (rb_color h' q) h) = rb_parent h"
  "rb_is_black (rb_set_color p (rb_color h' q) h) = (rb_is_black h)(p := rb_is_black h' q)"
proof -
  show "lft (rb_set_color p c h) = lft h" "rgt (rb_set_color p c h) = rgt h" "rb_root (rb_set_color p c h) = rb_root h"
    by (auto simp: fun_eq_iff rb_set_color_def upd_node_def lft_def rgt_def Let_def)
  have "rb_set_color p 0 h = rb_set_red p h" by (simp add: rb_set_color_def rb_set_red_def)
  moreover have "rb_set_color p 1 h = rb_set_black p (rb_set_red p h)"
    by (simp add: rb_set_color_def rb_set_black_def rb_set_red_def upd_node_def Let_def)
  ultimately show "rb_parent (rb_set_color p (rb_color h' q) h) = rb_parent h"
    "rb_is_black (rb_set_color p (rb_color h' q) h) = (rb_is_black h)(p := rb_is_black h' q)"
    by (auto simp: color_black)
qed

subsection \<open>Contexts\<close>

text \<open>A node of a tree is reached through frames, the innermost first: its parent with the other subtree, and so on up
  to the root.\<close>

datatype frame = FL addr bool rtree | FR rtree addr bool

fun frame_addr :: "frame \<Rightarrow> addr" where
  "frame_addr (FL a c r) = a"
| "frame_addr (FR l a c) = a"

fun frame_black :: "frame \<Rightarrow> bool" where
  "frame_black (FL a c r) = c"
| "frame_black (FR l a c) = c"

fun plug :: "frame list \<Rightarrow> rtree \<Rightarrow> rtree" where
  "plug [] t = t"
| "plug (FL a c r # fs) t = plug fs (Nd t a c r)"
| "plug (FR l a c # fs) t = plug fs (Nd l a c t)"

fun ctx_par :: "frame list \<Rightarrow> addr" where
  "ctx_par [] = 0"
| "ctx_par (f # fs) = frame_addr f"

fun ctx_nodes :: "frame list \<Rightarrow> addr list" where
  "ctx_nodes [] = []"
| "ctx_nodes (FL a c r # fs) = a # inorder r @ ctx_nodes fs"
| "ctx_nodes (FR l a c # fs) = a # inorder l @ ctx_nodes fs"

fun ctx_at :: "rb_heap \<Rightarrow> addr \<Rightarrow> frame list \<Rightarrow> bool" where
  "ctx_at h p [] \<longleftrightarrow> rb_root h = p"
| "ctx_at h p (FL a c r # fs) \<longleftrightarrow>
     a \<noteq> 0 \<and> 4 dvd a \<and> rb_parent h a = ctx_par fs \<and> rb_is_black h a = c \<and> lft h a = p \<and> rgt h a = root_of r \<and>
     tree_at h a r \<and> ctx_at h a fs"
| "ctx_at h p (FR l a c # fs) \<longleftrightarrow>
     a \<noteq> 0 \<and> 4 dvd a \<and> rb_parent h a = ctx_par fs \<and> rb_is_black h a = c \<and> lft h a = root_of l \<and> rgt h a = p \<and>
     tree_at h a l \<and> ctx_at h a fs"

lemma set_plug: "set (inorder (plug fs t)) = set (inorder t) \<union> set (ctx_nodes fs)"
  by (induction fs t rule: plug.induct) auto

lemma distinct_plug: "distinct (inorder (plug fs t)) \<longleftrightarrow> distinct (inorder t @ ctx_nodes fs)"
  by (induction fs t rule: plug.induct) auto

lemma plug_at:
  "rb_root h = root_of (plug fs t) \<and> tree_at h 0 (plug fs t) \<longleftrightarrow> ctx_at h (root_of t) fs \<and> tree_at h (ctx_par fs) t"
  by (induction fs t rule: plug.induct) auto

lemma rbtree_plug:
  "rbtree h (plug fs t) \<longleftrightarrow> ctx_at h (root_of t) fs \<and> tree_at h (ctx_par fs) t \<and> distinct (inorder t @ ctx_nodes fs)"
  using plug_at [of h fs t] distinct_plug [of fs t] unfolding rbtree_def by auto

lemma tree_at_cong:
  "(\<And>a. a \<in> set (inorder t) \<Longrightarrow> lft h' a = lft h a \<and> rgt h' a = rgt h a \<and> rb_parent h' a = rb_parent h a \<and>
      rb_is_black h' a = rb_is_black h a) \<Longrightarrow> tree_at h' p t = tree_at h p t"
  by (induction t arbitrary: p) auto

lemma ctx_at_cong:
  "(\<And>a. a \<in> set (ctx_nodes fs) \<Longrightarrow> lft h' a = lft h a \<and> rgt h' a = rgt h a \<and> rb_parent h' a = rb_parent h a \<and>
      rb_is_black h' a = rb_is_black h a) \<Longrightarrow> rb_root h' = rb_root h \<Longrightarrow> ctx_at h' p fs = ctx_at h p fs"
proof (induction fs arbitrary: p)
  case (Cons f fs)
  show ?case
  proof (cases f)
    case (FL a c r)
    then show ?thesis using Cons.prems Cons.IH tree_at_cong [of r h' h] by simp
  next
    case (FR l a c)
    then show ?thesis using Cons.prems Cons.IH tree_at_cong [of l h' h] by simp
  qed
qed simp

lemma views_upd:
  "q \<noteq> p \<Longrightarrow> lft (upd_node p f h) q = lft h q" "q \<noteq> p \<Longrightarrow> rgt (upd_node p f h) q = rgt h q"
  "q \<noteq> p \<Longrightarrow> rb_parent (upd_node p f h) q = rb_parent h q" "q \<noteq> p \<Longrightarrow> rb_is_black (upd_node p f h) q = rb_is_black h q"
  "rb_root (upd_node p f h) = rb_root h"
  by (simp_all add: upd_node_def lft_def rgt_def rb_parent_def rb_is_black_def rb_color_def)

lemma tree_at_upd_node: "p \<notin> set (inorder t) \<Longrightarrow> tree_at (upd_node p f h) q t = tree_at h q t"
  by (rule tree_at_cong) (metis views_upd)

lemma ctx_at_upd_node: "p \<notin> set (ctx_nodes fs) \<Longrightarrow> ctx_at (upd_node p f h) q fs = ctx_at h q fs"
  by (rule ctx_at_cong) (metis views_upd)+

lemma tree_at_frame [simp]:
  "p \<notin> set (inorder t) \<Longrightarrow> tree_at (set_left p q h) a t = tree_at h a t"
  "p \<notin> set (inorder t) \<Longrightarrow> tree_at (set_right p q h) a t = tree_at h a t"
  "p \<notin> set (inorder t) \<Longrightarrow> tree_at (rb_set_parent p q h) a t = tree_at h a t"
  "p \<notin> set (inorder t) \<Longrightarrow> tree_at (rb_set_black p h) a t = tree_at h a t"
  "p \<notin> set (inorder t) \<Longrightarrow> tree_at (rb_set_red p h) a t = tree_at h a t"
  "p \<notin> set (inorder t) \<Longrightarrow> tree_at (rb_set_color p c h) a t = tree_at h a t"
  "tree_at (set_root q h) a t = tree_at h a t"
  by (simp_all add: set_left_def set_right_def rb_set_parent_def rb_set_black_def rb_set_red_def rb_set_color_def tree_at_upd_node)
    (rule tree_at_cong, simp)

lemma ctx_at_frame [simp]:
  "p \<notin> set (ctx_nodes fs) \<Longrightarrow> ctx_at (set_left p q h) a fs = ctx_at h a fs"
  "p \<notin> set (ctx_nodes fs) \<Longrightarrow> ctx_at (set_right p q h) a fs = ctx_at h a fs"
  "p \<notin> set (ctx_nodes fs) \<Longrightarrow> ctx_at (rb_set_parent p q h) a fs = ctx_at h a fs"
  "p \<notin> set (ctx_nodes fs) \<Longrightarrow> ctx_at (rb_set_black p h) a fs = ctx_at h a fs"
  "p \<notin> set (ctx_nodes fs) \<Longrightarrow> ctx_at (rb_set_red p h) a fs = ctx_at h a fs"
  "p \<notin> set (ctx_nodes fs) \<Longrightarrow> ctx_at (rb_set_color p c h) a fs = ctx_at h a fs"
  by (simp_all add: set_left_def set_right_def rb_set_parent_def rb_set_black_def rb_set_red_def rb_set_color_def ctx_at_upd_node)

lemma root_of_in: "t \<noteq> Lf \<Longrightarrow> root_of t \<in> set (inorder t)"
  by (cases t) auto

lemma root_of_neq [simp]: "x \<notin> set (inorder t) \<Longrightarrow> x \<noteq> 0 \<Longrightarrow> root_of t \<noteq> x" "x \<notin> set (inorder t) \<Longrightarrow> x \<noteq> 0 \<Longrightarrow> x \<noteq> root_of t"
  by (cases t; auto)+

lemma tree_at_root: "tree_at h p t \<Longrightarrow> t \<noteq> Lf \<Longrightarrow> root_of t \<noteq> 0 \<and> rb_parent h (root_of t) = p"
  by (cases t) auto

lemma root_of_0: "tree_at h p t \<Longrightarrow> root_of t = 0 \<longleftrightarrow> t = Lf"
  by (cases t) auto

lemma ctx_par_dvd: "ctx_at h p fs \<Longrightarrow> 4 dvd ctx_par fs"
  by (cases fs rule: ctx_par.cases; cases "hd fs") auto

lemma rb_parent_dvd [simp]: "4 dvd rb_parent h p"
  by (simp add: parent_mod)

text \<open>A rotation in a context.\<close>

lemma rotate_left:
  assumes "rbtree h (plug fs (Nd a x c (Nd b y d e)))"
  shows "\<exists>h'. rb_rotate_left x h = Some h' \<and> rbtree h' (plug fs (Nd (Nd a x c b) y d e))"
proof (cases fs)
  case Nil
  then show ?thesis using assms unfolding rbtree_plug
    by (cases b) (auto simp: rb_rotate_left_def Let_def)
next
  case (Cons f gs)
  then show ?thesis using assms unfolding rbtree_plug
    by (cases b; cases f) (auto simp: rb_rotate_left_def Let_def)
qed

lemma rotate_right:
  assumes "rbtree h (plug fs (Nd (Nd a x c b) y d e))"
  shows "\<exists>h'. rb_rotate_right y h = Some h' \<and> rbtree h' (plug fs (Nd a x c (Nd b y d e)))"
proof (cases fs)
  case Nil
  then show ?thesis using assms unfolding rbtree_plug
    by (cases b) (auto simp: rb_rotate_right_def Let_def)
next
  case (Cons f gs)
  then show ?thesis using assms unfolding rbtree_plug
    by (cases b; cases f) (auto simp: rb_rotate_right_def Let_def)
qed

subsection \<open>The red-black invariant\<close>

fun root_black :: "rtree \<Rightarrow> bool" where
  "root_black Lf = True"
| "root_black (Nd l a c r) = c"

fun bh :: "rtree \<Rightarrow> nat" where
  "bh Lf = 0"
| "bh (Nd l a c r) = bh l + (if c then 1 else 0)"

fun invc :: "rtree \<Rightarrow> bool" where
  "invc Lf = True"
| "invc (Nd l a c r) \<longleftrightarrow> (\<not> c \<longrightarrow> root_black l \<and> root_black r) \<and> invc l \<and> invc r"

fun invh :: "rtree \<Rightarrow> bool" where
  "invh Lf = True"
| "invh (Nd l a c r) \<longleftrightarrow> bh l = bh r \<and> invh l \<and> invh r"

definition red_black :: "rtree \<Rightarrow> bool" where
  "red_black t \<longleftrightarrow> invc t \<and> invh t \<and> root_black t"

text \<open>The invariant of a context: what the frames require of a subtree of black height \<open>n\<close>. A red subtree also needs a black
  parent.\<close>

fun ctx_black :: "frame list \<Rightarrow> bool" where
  "ctx_black [] = False"
| "ctx_black (f # fs) = frame_black f"

fun ctx_ok :: "frame list \<Rightarrow> nat \<Rightarrow> bool" where
  "ctx_ok [] n = True"
| "ctx_ok (FL a c r # fs) n \<longleftrightarrow> bh r = n \<and> invc r \<and> invh r \<and> (\<not> c \<longrightarrow> root_black r \<and> ctx_black fs) \<and>
     ctx_ok fs (if c then Suc n else n)"
| "ctx_ok (FR l a c # fs) n \<longleftrightarrow> bh l = n \<and> invc l \<and> invh l \<and> (\<not> c \<longrightarrow> root_black l \<and> ctx_black fs) \<and>
     ctx_ok fs (if c then Suc n else n)"

lemma red_black_plug:
  "red_black (plug fs t) \<longleftrightarrow> invc t \<and> invh t \<and> (\<not> root_black t \<longrightarrow> ctx_black fs) \<and> ctx_ok fs (bh t)"
  by (induction fs t rule: plug.induct) (auto simp: red_black_def)

fun ctx_pre :: "frame list \<Rightarrow> addr list" where
  "ctx_pre [] = []"
| "ctx_pre (FL a c r # fs) = ctx_pre fs"
| "ctx_pre (FR l a c # fs) = ctx_pre fs @ inorder l @ [a]"

fun ctx_post :: "frame list \<Rightarrow> addr list" where
  "ctx_post [] = []"
| "ctx_post (FL a c r # fs) = a # inorder r @ ctx_post fs"
| "ctx_post (FR l a c # fs) = ctx_post fs"

lemma inorder_plug: "inorder (plug fs t) = ctx_pre fs @ inorder t @ ctx_post fs"
  by (induction fs t rule: plug.induct) auto

subsection \<open>Insertion\<close>

lemma insert_loop_exit:
  assumes "rbtree h (plug fs (Nd l n c r))" "fs = [] \<or> ctx_black fs"
  shows "rb_insert_loop n h = Some h"
proof (cases fs)
  case Nil
  then show ?thesis using assms(1) unfolding rbtree_plug by (subst rb_insert_loop.simps) simp
next
  case (Cons f gs)
  then show ?thesis using assms unfolding rbtree_plug
    by (cases f; subst rb_insert_loop.simps) (simp_all add: is_red_iff)
qed

text \<open>The three outcomes of a round, for a red parent on the left of its own parent: recolouring, a single rotation and a double
  rotation.\<close>

lemma recolor_left:
  assumes "rbtree h (plug fs (Nd (Nd a p False b) g True (Nd d u False e)))" "n = root_of a \<or> n = root_of b" "n \<noteq> 0"
  shows "\<exists>h'. rb_insert_loop n h = rb_insert_loop g h' \<and>
    rbtree h' (plug fs (Nd (Nd a p True b) g False (Nd d u True e)))"
proof -
  let ?h = "rb_set_red g (rb_set_black p (rb_set_black u h))"
  have "rb_parent h n = p" using assms unfolding rbtree_plug by (cases a; cases b) auto
  then have "rb_insert_loop n h = rb_insert_loop g ?h"
    using assms(1) unfolding rbtree_plug by (subst rb_insert_loop.simps) (simp add: is_red_iff Let_def)
  moreover have "rbtree ?h (plug fs (Nd (Nd a p True b) g False (Nd d u True e)))"
    using assms(1) unfolding rbtree_plug by auto
  ultimately show ?thesis by blast
qed

lemma recolor_right:
  assumes "rbtree h (plug fs (Nd (Nd d u False e) g True (Nd a p False b)))" "n = root_of a \<or> n = root_of b" "n \<noteq> 0"
  shows "\<exists>h'. rb_insert_loop n h = rb_insert_loop g h' \<and>
    rbtree h' (plug fs (Nd (Nd d u True e) g False (Nd a p True b)))"
proof -
  let ?h = "rb_set_red g (rb_set_black p (rb_set_black u h))"
  have "rb_parent h n = p" using assms unfolding rbtree_plug by (cases a; cases b) auto
  moreover have "p \<noteq> u" using assms unfolding rbtree_plug by auto
  ultimately have "rb_insert_loop n h = rb_insert_loop g ?h"
    using assms(1) unfolding rbtree_plug by (subst rb_insert_loop.simps) (simp add: is_red_iff Let_def)
  moreover have "rbtree ?h (plug fs (Nd (Nd d u True e) g False (Nd a p True b)))"
    using assms(1) unfolding rbtree_plug by auto
  ultimately show ?thesis by blast
qed

lemma single_left:
  assumes t: "rbtree h (plug fs (Nd (Nd (Nd a n False b) p False s) g True u))" and u: "root_black u"
  shows "\<exists>h'. rb_insert_loop n h = Some h' \<and> rbtree h' (plug fs (Nd (Nd a n False b) p True (Nd s g False u)))"
proof -
  let ?h = "rb_set_red g (rb_set_black p h)"
  have "rbtree ?h (plug fs (Nd (Nd (Nd a n False b) p True s) g False u))" using t unfolding rbtree_plug by auto
  from rotate_right [OF this] obtain h' where h': "rb_rotate_right g ?h = Some h'"
    "rbtree h' (plug fs (Nd (Nd a n False b) p True (Nd s g False u)))" by blast
  have uc: "root_of u = 0 \<or> rb_is_black h (root_of u)" using t u unfolding rbtree_plug by (cases u) auto
  have "rb_insert_loop n h = rb_insert_loop n h'"
    using t uc h'(1) unfolding rbtree_plug
    by (subst rb_insert_loop.simps) (auto simp: is_red_iff Let_def)
  also have "\<dots> = Some h'" by (rule insert_loop_exit [of _ "FL p True (Nd s g False u) # fs"]) (use h'(2) in simp_all)
  finally show ?thesis using h'(2) by blast
qed

lemma single_right:
  assumes t: "rbtree h (plug fs (Nd u g True (Nd s p False (Nd a n False b))))" and u: "root_black u"
  shows "\<exists>h'. rb_insert_loop n h = Some h' \<and> rbtree h' (plug fs (Nd (Nd u g False s) p True (Nd a n False b)))"
proof -
  let ?h = "rb_set_red g (rb_set_black p h)"
  have "rbtree ?h (plug fs (Nd u g False (Nd s p True (Nd a n False b))))" using t unfolding rbtree_plug by auto
  from rotate_left [OF this] obtain h' where h': "rb_rotate_left g ?h = Some h'"
    "rbtree h' (plug fs (Nd (Nd u g False s) p True (Nd a n False b)))" by blast
  have uc: "root_of u = 0 \<or> rb_is_black h (root_of u)" "p \<noteq> root_of u"
    using t u unfolding rbtree_plug by (cases u; auto)+
  have "rb_insert_loop n h = rb_insert_loop n h'"
    using t uc h'(1) unfolding rbtree_plug
    by (subst rb_insert_loop.simps) (auto simp: is_red_iff Let_def)
  also have "\<dots> = Some h'" by (rule insert_loop_exit [of _ "FR (Nd u g False s) p True # fs"]) (use h'(2) in simp_all)
  finally show ?thesis using h'(2) by blast
qed

lemma double_left:
  assumes t: "rbtree h (plug fs (Nd (Nd s p False (Nd a n False b)) g True u))" and u: "root_black u"
  shows "\<exists>h'. rb_insert_loop n h = Some h' \<and> rbtree h' (plug fs (Nd (Nd s p False a) n True (Nd b g False u)))"
proof -
  obtain h1 where h1: "rb_rotate_left p h = Some h1" "rbtree h1 (plug fs (Nd (Nd (Nd s p False a) n False b) g True u))"
    using rotate_left [of h "FL g True u # fs" s p False a n False b] t by auto
  let ?h = "rb_set_red g (rb_set_black n h1)"
  have "rbtree ?h (plug fs (Nd (Nd (Nd s p False a) n True b) g False u))" using h1(2) unfolding rbtree_plug by auto
  from rotate_right [OF this] obtain h' where h': "rb_rotate_right g ?h = Some h'"
    "rbtree h' (plug fs (Nd (Nd s p False a) n True (Nd b g False u)))" by blast
  have uc: "root_of u = 0 \<or> rb_is_black h (root_of u)" using t u unfolding rbtree_plug by (cases u) auto
  have "rb_insert_loop n h = rb_insert_loop p h'"
    using t uc h1(1) h'(1) unfolding rbtree_plug
    by (subst rb_insert_loop.simps) (auto simp: is_red_iff Let_def)
  also have "\<dots> = Some h'" by (rule insert_loop_exit [of _ "FL n True (Nd b g False u) # fs"]) (use h'(2) in simp_all)
  finally show ?thesis using h'(2) by blast
qed

lemma double_right:
  assumes t: "rbtree h (plug fs (Nd u g True (Nd (Nd a n False b) p False s)))" and u: "root_black u"
  shows "\<exists>h'. rb_insert_loop n h = Some h' \<and> rbtree h' (plug fs (Nd (Nd u g False a) n True (Nd b p False s)))"
proof -
  obtain h1 where h1: "rb_rotate_right p h = Some h1" "rbtree h1 (plug fs (Nd u g True (Nd a n False (Nd b p False s))))"
    using rotate_right [of h "FR u g True # fs" a n False b p False s] t by auto
  let ?h = "rb_set_red g (rb_set_black n h1)"
  have "rbtree ?h (plug fs (Nd u g False (Nd a n True (Nd b p False s))))" using h1(2) unfolding rbtree_plug by auto
  from rotate_left [OF this] obtain h' where h': "rb_rotate_left g ?h = Some h'"
    "rbtree h' (plug fs (Nd (Nd u g False a) n True (Nd b p False s)))" by blast
  have uc: "root_of u = 0 \<or> rb_is_black h (root_of u)" "p \<noteq> root_of u"
    using t u unfolding rbtree_plug by (cases u; auto)+
  have "rb_insert_loop n h = rb_insert_loop p h'"
    using t uc h1(1) h'(1) unfolding rbtree_plug
    by (subst rb_insert_loop.simps) (auto simp: is_red_iff Let_def)
  also have "\<dots> = Some h'" by (rule insert_loop_exit [of _ "FR (Nd u g False a) n True # fs"]) (use h'(2) in simp_all)
  finally show ?thesis using h'(2) by blast
qed

text \<open>A red frame has a black frame above it.\<close>

lemma red_frame:
  assumes "ctx_ok (f # fs) n" "\<not> frame_black f"
  obtains g gs where "fs = g # gs" "frame_black g"
  using assms by (cases f; cases fs) auto

text \<open>A round at the red node \<open>n\<close> ends the loop with a subtree that has a black root, or goes on with a red node two levels
  further up.\<close>

definition round_ends :: "rb_heap \<Rightarrow> addr \<Rightarrow> frame list \<Rightarrow> addr list \<Rightarrow> bool" where
  "round_ends h n gs xs \<longleftrightarrow>
     (\<exists>h' s. rb_insert_loop n h = Some h' \<and> rbtree h' (plug gs s) \<and> inorder s = xs \<and> invc s \<and> invh s \<and>
        root_black s \<and> ctx_ok gs (bh s))"

definition round_goes_on :: "rb_heap \<Rightarrow> addr \<Rightarrow> frame list \<Rightarrow> addr list \<Rightarrow> bool" where
  "round_goes_on h n gs xs \<longleftrightarrow>
     (\<exists>h' l x r. rb_insert_loop n h = rb_insert_loop x h' \<and> rbtree h' (plug gs (Nd l x False r)) \<and>
        inorder (Nd l x False r) = xs \<and> invc (Nd l x False r) \<and> invh (Nd l x False r) \<and> ctx_ok gs (bh l))"

lemma round_endsI:
  "\<exists>h'. rb_insert_loop n h = Some h' \<and> rbtree h' (plug gs s) \<Longrightarrow> inorder s = xs \<Longrightarrow> invc s \<and> invh s \<and> root_black s \<Longrightarrow>
   ctx_ok gs (bh s) \<Longrightarrow> round_ends h n gs xs"
  unfolding round_ends_def by blast

lemma round_goes_onI:
  "\<exists>h'. rb_insert_loop n h = rb_insert_loop x h' \<and> rbtree h' (plug gs (Nd l x False r)) \<Longrightarrow> inorder (Nd l x False r) = xs \<Longrightarrow>
   invc (Nd l x False r) \<and> invh (Nd l x False r) \<Longrightarrow> ctx_ok gs (bh l) \<Longrightarrow> round_goes_on h n gs xs"
  unfolding round_goes_on_def by blast

lemma insert_round:
  assumes t: "rbtree h (plug (f # g # gs) (Nd l n False r))" and i: "invc (Nd l n False r)" "invh (Nd l n False r)"
    and ok: "ctx_ok (f # g # gs) (bh l)" and fg: "\<not> frame_black f" "frame_black g"
  shows "round_ends h n gs (inorder (plug [f, g] (Nd l n False r))) \<or> round_goes_on h n gs (inorder (plug [f, g] (Nd l n False r)))"
proof -
  let ?t = "Nd l n False r"
  have n: "n \<noteq> 0" using t unfolding rbtree_plug by simp
  show ?thesis
  proof (cases f; cases g)
    fix p c s q d u assume c: "f = FL p c s" "g = FL q d u"
    show ?thesis
    proof (cases u rule: root_black.cases)
      case (2 v w b x)
      with c show ?thesis using t i ok fg n recolor_left [of h gs ?t p s q v w x n] single_left [of h gs l n r p s q u]
        by (cases b) (auto intro: round_endsI round_goes_onI)
    qed (use c t i ok fg single_left [of h gs l n r p s q u] in \<open>auto intro: round_endsI\<close>)
  next
    fix p c s q d u assume c: "f = FL p c s" "g = FR u q d"
    show ?thesis
    proof (cases u rule: root_black.cases)
      case (2 v w b x)
      with c show ?thesis using t i ok fg n recolor_right [of h gs v w x q ?t p s n] double_right [of h gs u q l n r p s]
        by (cases b) (auto intro: round_endsI round_goes_onI)
    qed (use c t i ok fg double_right [of h gs u q l n r p s] in \<open>auto intro: round_endsI\<close>)
  next
    fix p c s q d u assume c: "f = FR s p c" "g = FL q d u"
    show ?thesis
    proof (cases u rule: root_black.cases)
      case (2 v w b x)
      with c show ?thesis using t i ok fg n recolor_left [of h gs s p ?t q v w x n] double_left [of h gs s p l n r q u]
        by (cases b) (auto intro: round_endsI round_goes_onI)
    qed (use c t i ok fg double_left [of h gs s p l n r q u] in \<open>auto intro: round_endsI\<close>)
  next
    fix p c s q d u assume c: "f = FR s p c" "g = FR u q d"
    show ?thesis
    proof (cases u rule: root_black.cases)
      case (2 v w b x)
      with c show ?thesis using t i ok fg n recolor_right [of h gs v w x q s p ?t n] single_right [of h gs u q s p l n r]
        by (cases b) (auto intro: round_endsI round_goes_onI)
    qed (use c t i ok fg single_right [of h gs u q s p l n r] in \<open>auto intro: round_endsI\<close>)
  qed
qed

lemma insert_loop:
  "rbtree h (plug fs (Nd l n False r)) \<Longrightarrow> invc (Nd l n False r) \<Longrightarrow> invh (Nd l n False r) \<Longrightarrow> ctx_ok fs (bh l) \<Longrightarrow>
   \<exists>h' t'. rb_insert_loop n h = Some h' \<and> rbtree h' t' \<and> inorder t' = inorder (plug fs (Nd l n False r)) \<and> invc t' \<and> invh t'"
proof (induction "length fs" arbitrary: fs h l n r rule: less_induct)
  case less
  let ?t = "Nd l n False r"
  show ?case
  proof (cases "fs = [] \<or> ctx_black fs")
    case True
    have "invc (plug fs ?t) \<and> invh (plug fs ?t)"
      using True less.prems(2-4) red_black_plug [of fs ?t] by (auto simp: red_black_def)
    then show ?thesis using insert_loop_exit [OF less.prems(1) True] less.prems(1) by blast
  next
    case False
    then obtain f g gs where f: "fs = f # g # gs" "\<not> frame_black f" "frame_black g"
      using red_frame less.prems(4) by (cases fs) (auto, blast)
    have io: "inorder (plug fs ?t) = ctx_pre gs @ inorder (plug [f, g] ?t) @ ctx_post gs"
      by (cases f; cases g) (simp_all add: f(1) inorder_plug)
    consider "round_ends h n gs (inorder (plug [f, g] ?t))" | "round_goes_on h n gs (inorder (plug [f, g] ?t))"
      using insert_round [OF less.prems(1) [unfolded f(1)] less.prems(2,3) less.prems(4) [unfolded f(1)] f(2,3)] by blast
    then show ?thesis
    proof cases
      case 1
      then obtain h' s where s: "rb_insert_loop n h = Some h'" "rbtree h' (plug gs s)" "inorder s = inorder (plug [f, g] ?t)"
        "invc s" "invh s" "root_black s" "ctx_ok gs (bh s)" unfolding round_ends_def by blast
      then have "invc (plug gs s) \<and> invh (plug gs s)" using red_black_plug [of gs s] by (simp add: red_black_def)
      then show ?thesis using s(1-3) io inorder_plug [of gs s] by metis
    next
      case 2
      then obtain h' l' x r' where s: "rb_insert_loop n h = rb_insert_loop x h'" "rbtree h' (plug gs (Nd l' x False r'))"
        "inorder (Nd l' x False r') = inorder (plug [f, g] ?t)" "invc (Nd l' x False r')" "invh (Nd l' x False r')"
        "ctx_ok gs (bh l')" unfolding round_goes_on_def by blast
      then show ?thesis using less.hyps [OF _ s(2,4,5,6)] io inorder_plug [of gs "Nd l' x False r'"] f(1) by simp
    qed
  qed
qed

fun paint_black :: "rtree \<Rightarrow> rtree" where
  "paint_black Lf = Lf"
| "paint_black (Nd l a c r) = Nd l a True r"

lemma paint_black_simps [simp]:
  "root_of (paint_black t) = root_of t" "inorder (paint_black t) = inorder t" "root_black (paint_black t)"
  "invh (paint_black t) = invh t" "invc t \<Longrightarrow> invc (paint_black t)" "root_black t \<Longrightarrow> paint_black t = t"
  by (cases t; simp)+

lemma set_black_plug:
  "rbtree h (plug fs t) \<Longrightarrow> t \<noteq> Lf \<Longrightarrow> rbtree (rb_set_black (root_of t) h) (plug fs (paint_black t))"
  unfolding rbtree_plug by (cases t) auto

lemma set_black_root:
  assumes "rbtree h t" "t \<noteq> Lf"
  shows "rbtree (rb_set_black (rb_root h) h) (paint_black t)"
  using set_black_plug [of h "[]" t] assms by (auto simp: rbtree_def)

fun ctx_link :: "frame list \<Rightarrow> rb_link" where
  "ctx_link [] = Link_root"
| "ctx_link (FL a c r # fs) = Link_left a"
| "ctx_link (FR l a c # fs) = Link_right a"

lemma link_node:
  assumes "rbtree h (plug fs Lf)" "n \<noteq> 0" "4 dvd n" "n \<notin> set (inorder (plug fs Lf))"
  shows "rbtree (rb_link_node n (ctx_par fs) (ctx_link fs) h) (plug fs (Nd Lf n False Lf))"
proof -
  let ?h = "upd_node n (\<lambda>x. x\<lparr>rb_parent_color := ctx_par fs, rb_left := 0, rb_right := 0\<rparr>) h"
  have d: "4 dvd ctx_par fs" using assms(1) ctx_par_dvd [of h _ fs] unfolding rbtree_plug by auto
  have "lft ?h n = 0" "rgt ?h n = 0" by (simp_all add: lft_def rgt_def upd_node_def)
  moreover have "rb_parent ?h n = ctx_par fs" "\<not> rb_is_black ?h n"
    using d dvd_trans [of 2 4 "ctx_par fs"] by (auto simp: parent_mod black_mod upd_node_def)
  moreover have "ctx_at ?h 0 fs" using assms ctx_at_upd_node [of n fs] unfolding rbtree_plug set_plug by simp
  ultimately show ?thesis using assms unfolding rbtree_plug set_plug rb_link_node_def
    by (cases fs rule: ctx_link.cases) auto
qed

lemma rb_insert_ok:
  assumes "rbtree h (plug fs Lf)" "red_black (plug fs Lf)" "n \<noteq> 0" "4 dvd n" "n \<notin> set (inorder (plug fs Lf))"
  shows "\<exists>h' t. rb_insert_color n (rb_link_node n (ctx_par fs) (ctx_link fs) h) = Some h' \<and>
    rbtree h' t \<and> red_black t \<and> inorder t = ctx_pre fs @ n # ctx_post fs"
proof -
  let ?h = "rb_link_node n (ctx_par fs) (ctx_link fs) h"
  obtain h' t where t: "rb_insert_loop n ?h = Some h'" "rbtree h' t" "inorder t = inorder (plug fs (Nd Lf n False Lf))"
    "invc t" "invh t"
    using insert_loop [OF link_node [OF assms(1,3-5)]] assms(2) unfolding red_black_plug by auto
  have "t \<noteq> Lf" using t(3) by (auto simp: inorder_plug)
  then have "rb_root h' \<noteq> 0" "rbtree (rb_set_black (rb_root h') h') (paint_black t)"
    using t(2) root_of_0 set_black_root by (auto simp: rbtree_def)
  then show ?thesis using t by (auto simp: rb_insert_color_def red_black_def inorder_plug)
qed

subsection \<open>Removal\<close>

text \<open>A black sibling without a red child becomes red, and the deficit moves up.\<close>

lemma root_color: "tree_at h p t \<Longrightarrow> root_black t \<longleftrightarrow> root_of t = 0 \<or> rb_is_black h (root_of t)"
  by (cases t) auto

lemma left_black_up:
  assumes "rbtree h (plug fs (Nd t p c (Nd a s True b)))" "root_black a" "root_black b"
  shows "\<exists>h'. erase_left_black p s h = Some (Some (p, ctx_par fs), h') \<and> rbtree h' (plug fs (Nd t p c (Nd a s False b)))"
proof -
  have "no_red_child h s" using assms root_color [of h s] unfolding rbtree_plug by (auto simp: no_red_child_def)
  moreover have "rbtree (rb_set_red s h) (plug fs (Nd t p c (Nd a s False b)))" using assms(1) unfolding rbtree_plug by auto
  ultimately show ?thesis using assms(1) unfolding rbtree_plug erase_left_black_def by auto
qed

lemma right_black_up:
  assumes "rbtree h (plug fs (Nd (Nd a s True b) p c t))" "root_black a" "root_black b"
  shows "\<exists>h'. erase_right_black p s h = Some (Some (p, ctx_par fs), h') \<and> rbtree h' (plug fs (Nd (Nd a s False b) p c t))"
proof -
  have "no_red_child h s" using assms root_color [of h s] unfolding rbtree_plug by (auto simp: no_red_child_def)
  moreover have "rbtree (rb_set_red s h) (plug fs (Nd (Nd a s False b) p c t))" using assms(1) unfolding rbtree_plug by auto
  ultimately show ?thesis using assms(1) unfolding rbtree_plug erase_right_black_def by auto
qed

text \<open>The outer child of the sibling is red: one rotation.\<close>

lemma left_black_outer:
  assumes t: "rbtree h (plug fs (Nd t p c (Nd a s True (Nd b y False d))))"
  shows "\<exists>h'. erase_left_black p s h = Some (None, h') \<and> rbtree h' (plug fs (Nd (Nd t p True a) s c (Nd b y True d)))"
proof -
  let ?h = "rb_set_black y (rb_set_black p (rb_set_color s (rb_color h p) h))"
  have "rbtree ?h (plug fs (Nd t p True (Nd a s c (Nd b y True d))))" using t unfolding rbtree_plug by auto
  from rotate_left [OF this] show ?thesis
    using t unfolding rbtree_plug by (auto simp: erase_left_black_def no_red_child_def)
qed

lemma right_black_outer:
  assumes t: "rbtree h (plug fs (Nd (Nd (Nd b y False d) s True a) p c t))"
  shows "\<exists>h'. erase_right_black p s h = Some (None, h') \<and> rbtree h' (plug fs (Nd (Nd b y True d) s c (Nd a p True t)))"
proof -
  let ?h = "rb_set_black y (rb_set_black p (rb_set_color s (rb_color h p) h))"
  have "rbtree ?h (plug fs (Nd (Nd (Nd b y True d) s c a) p True t))" using t unfolding rbtree_plug by auto
  from rotate_right [OF this] show ?thesis
    using t unfolding rbtree_plug by (auto simp: erase_right_black_def no_red_child_def)
qed

text \<open>Only the inner child is red: two rotations.\<close>

lemma left_black_inner:
  assumes t: "rbtree h (plug fs (Nd t p c (Nd (Nd a x False b) s True d)))" and d: "root_black d"
  shows "\<exists>h'. erase_left_black p s h = Some (None, h') \<and> rbtree h' (plug fs (Nd (Nd t p True a) x c (Nd b s True d)))"
proof -
  let ?h = "rb_set_red s (rb_set_black x h)"
  have "rbtree ?h (plug (FR t p c # fs) (Nd (Nd a x True b) s False d))" using t unfolding plug.simps rbtree_plug by auto
  from rotate_right [OF this] obtain h1 where h1: "rb_rotate_right s ?h = Some h1"
    "rbtree h1 (plug fs (Nd t p c (Nd a x True (Nd b s False d))))" by auto
  let ?h1 = "rb_set_black s (rb_set_black p (rb_set_color x (rb_color h1 p) h1))"
  have "rbtree ?h1 (plug fs (Nd t p True (Nd a x c (Nd b s True d))))" using h1(2) unfolding rbtree_plug by auto
  from rotate_left [OF this] obtain h2 where h2: "rb_rotate_left p ?h1 = Some h2"
    "rbtree h2 (plug fs (Nd (Nd t p True a) x c (Nd b s True d)))" by blast
  have "root_of d = 0 \<or> rb_is_black h (root_of d)" "\<not> no_red_child h s"
    using t d root_color [of h s d] unfolding rbtree_plug by (auto simp: no_red_child_def)
  moreover have "rgt h1 p = x" "x \<noteq> 0" "rgt h1 x = s" "s \<noteq> 0" using h1(2) unfolding rbtree_plug by auto
  moreover have "lft h s = x" "rgt h s = root_of d" using t unfolding rbtree_plug by auto
  ultimately have "erase_left_black p s h = Some (None, h2)"
    using h1(1) h2(1) by (auto simp: erase_left_black_def)
  then show ?thesis using h2(2) by blast
qed

lemma right_black_inner:
  assumes t: "rbtree h (plug fs (Nd (Nd d s True (Nd b x False a)) p c t))" and d: "root_black d"
  shows "\<exists>h'. erase_right_black p s h = Some (None, h') \<and> rbtree h' (plug fs (Nd (Nd d s True b) x c (Nd a p True t)))"
proof -
  let ?h = "rb_set_red s (rb_set_black x h)"
  have "rbtree ?h (plug (FL p c t # fs) (Nd d s False (Nd b x True a)))" using t unfolding plug.simps rbtree_plug by auto
  from rotate_left [OF this] obtain h1 where h1: "rb_rotate_left s ?h = Some h1"
    "rbtree h1 (plug fs (Nd (Nd (Nd d s False b) x True a) p c t))" by auto
  let ?h1 = "rb_set_black s (rb_set_black p (rb_set_color x (rb_color h1 p) h1))"
  have "rbtree ?h1 (plug fs (Nd (Nd (Nd d s True b) x c a) p True t))" using h1(2) unfolding rbtree_plug by auto
  from rotate_right [OF this] obtain h2 where h2: "rb_rotate_right p ?h1 = Some h2"
    "rbtree h2 (plug fs (Nd (Nd d s True b) x c (Nd a p True t)))" by blast
  have "root_of d = 0 \<or> rb_is_black h (root_of d)" "\<not> no_red_child h s"
    using t d root_color [of h s d] unfolding rbtree_plug by (auto simp: no_red_child_def)
  moreover have "lft h1 p = x" "x \<noteq> 0" "lft h1 x = s" "s \<noteq> 0" using h1(2) unfolding rbtree_plug by auto
  moreover have "rgt h s = x" "lft h s = root_of d" using t unfolding rbtree_plug by auto
  ultimately have "erase_right_black p s h = Some (None, h2)"
    using h1(1) h2(1) by (auto simp: erase_right_black_def)
  then show ?thesis using h2(2) by blast
qed

text \<open>A round of the loop leaves a red-black tree and stops, or moves the deficit to a node \<open>u\<close> whose frames expect a black
  height one higher; a black \<open>u\<close> is closer to the root.\<close>

definition erase_ends :: "((addr \<times> addr) option \<times> rb_heap) option \<Rightarrow> addr list \<Rightarrow> bool" where
  "erase_ends r xs \<longleftrightarrow> (\<exists>h' s. r = Some (None, h') \<and> rbtree h' s \<and> red_black s \<and> inorder s = xs)"

definition erase_up :: "((addr \<times> addr) option \<times> rb_heap) option \<Rightarrow> addr list \<Rightarrow> nat \<Rightarrow> bool" where
  "erase_up r xs n \<longleftrightarrow>
     (\<exists>h' gs u. r = Some (Some (root_of u, ctx_par gs), h') \<and> rbtree h' (plug gs u) \<and> inorder (plug gs u) = xs \<and>
        invh u \<and> invc (paint_black u) \<and> ctx_ok gs (Suc (bh u)) \<and> (root_black u \<longrightarrow> length gs < n))"

lemma erase_endsI:
  "\<exists>h'. r = Some (None, h') \<and> rbtree h' (plug fs s) \<Longrightarrow> invc s \<Longrightarrow> invh s \<Longrightarrow> \<not> root_black s \<longrightarrow> ctx_black fs \<Longrightarrow>
   ctx_ok fs (bh s) \<Longrightarrow> inorder (plug fs s) = xs \<Longrightarrow> erase_ends r xs"
  using red_black_plug [of fs s] unfolding erase_ends_def by blast

lemma erase_upI:
  "\<exists>h'. r = Some (Some (root_of u, ctx_par fs), h') \<and> rbtree h' (plug fs u) \<Longrightarrow> inorder (plug fs u) = xs \<Longrightarrow> invh u \<Longrightarrow>
   invc (paint_black u) \<Longrightarrow> ctx_ok fs (Suc (bh u)) \<Longrightarrow> root_black u \<longrightarrow> length fs < n \<Longrightarrow> erase_up r xs n"
  unfolding erase_up_def by blast

lemma left_black_round:
  assumes t: "rbtree h (plug fs (Nd t p c (Nd a s True b)))" and i: "invc t" "invh t" "root_black t"
    and ok: "ctx_ok (FL p c (Nd a s True b) # fs) (Suc (bh t))" and n: "c \<longrightarrow> length fs < n"
  shows "erase_ends (erase_left_black p s h) (inorder (plug fs (Nd t p c (Nd a s True b)))) \<or>
    erase_up (erase_left_black p s h) (inorder (plug fs (Nd t p c (Nd a s True b)))) n"
proof (cases "root_black b")
  case b: True
  show ?thesis
  proof (cases "root_black a")
    case True
    show ?thesis by (rule disjI2, rule erase_upI [of _ "Nd t p c (Nd a s False b)" fs])
      (use left_black_up [OF t True b] i ok n True b in \<open>auto simp: inorder_plug\<close>)
  next
    case False
    then obtain d x e where a: "a = Nd d x False e" by (cases a) auto
    show ?thesis by (rule disjI1, rule erase_endsI [OF left_black_inner [OF t [unfolded a] b]])
      (use i ok b in \<open>auto simp: inorder_plug a\<close>)
  qed
next
  case False
  then obtain d x e where b: "b = Nd d x False e" by (cases b) auto
  show ?thesis by (rule disjI1, rule erase_endsI [OF left_black_outer [OF t [unfolded b]]])
    (use i ok in \<open>auto simp: inorder_plug b\<close>)
qed

lemma right_black_round:
  assumes t: "rbtree h (plug fs (Nd (Nd a s True b) p c t))" and i: "invc t" "invh t" "root_black t"
    and ok: "ctx_ok (FR (Nd a s True b) p c # fs) (Suc (bh t))" and n: "c \<longrightarrow> length fs < n"
  shows "erase_ends (erase_right_black p s h) (inorder (plug fs (Nd (Nd a s True b) p c t))) \<or>
    erase_up (erase_right_black p s h) (inorder (plug fs (Nd (Nd a s True b) p c t))) n"
proof (cases "root_black a")
  case a: True
  show ?thesis
  proof (cases "root_black b")
    case True
    show ?thesis by (rule disjI2, rule erase_upI [of _ "Nd (Nd a s False b) p c t" fs])
      (use right_black_up [OF t a True] i ok n True a in \<open>auto simp: inorder_plug\<close>)
  next
    case False
    then obtain d x e where b: "b = Nd d x False e" by (cases b) auto
    show ?thesis by (rule disjI1, rule erase_endsI [OF right_black_inner [OF t [unfolded b] a]])
      (use i ok a in \<open>auto simp: inorder_plug b\<close>)
  qed
next
  case False
  then obtain d x e where a: "a = Nd d x False e" by (cases a) auto
  show ?thesis by (rule disjI1, rule erase_endsI [OF right_black_outer [OF t [unfolded a]]])
    (use i ok in \<open>auto simp: inorder_plug a\<close>)
qed

lemma left_round:
  assumes t: "rbtree h (plug fs (Nd t p c q))" and i: "invc t" "invh t" "root_black t" and ok: "ctx_ok (FL p c q # fs) (Suc (bh t))"
  shows "erase_ends (erase_left p h) (inorder (plug fs (Nd t p c q))) \<or>
    erase_up (erase_left p h) (inorder (plug fs (Nd t p c q))) (Suc (length fs))"
proof -
  obtain a s d b where q: "q = Nd a s d b" using ok by (cases q) auto
  have v: "rgt h p = s" "s \<noteq> 0" "rb_is_black h s = d" using t unfolding q rbtree_plug by auto
  show ?thesis
  proof (cases d)
    case True
    have "erase_left p h = erase_left_black p s h" using v True by (simp add: erase_left_def Let_def is_red_iff)
    then show ?thesis using left_black_round [of h fs t p c a s b "Suc (length fs)"] t i ok q True by simp
  next
    case False
    then have c: "c" using ok q by auto
    let ?h = "rb_set_red p (rb_set_black s h)"
    have "rbtree ?h (plug fs (Nd t p False (Nd a s True b)))" using t q unfolding rbtree_plug by auto
    from rotate_left [OF this] obtain h1 where h1: "rb_rotate_left p ?h = Some h1"
      "rbtree h1 (plug (FL s True b # fs) (Nd t p False a))" by auto
    obtain u x e w where a: "a = Nd u x True w" using ok q False c by (cases a) auto
    have r: "rgt h1 p = x" using h1(2) unfolding a rbtree_plug by simp
    have "erase_left p h = erase_left_black p x h1" using v False h1(1) r by (simp add: erase_left_def Let_def is_red_iff)
    moreover have "inorder (plug fs (Nd t p c q)) = inorder (plug (FL s True b # fs) (Nd t p False a))"
      by (simp add: inorder_plug q)
    moreover have "ctx_ok (FL p False a # FL s True b # fs) (Suc (bh t))" using ok c False q a by auto
    ultimately show ?thesis using left_black_round [OF h1(2) [unfolded a] i, of "Suc (length fs)"] a by simp
  qed
qed

lemma right_round:
  assumes t: "rbtree h (plug fs (Nd q p c t))" and i: "invc t" "invh t" "root_black t" and ok: "ctx_ok (FR q p c # fs) (Suc (bh t))"
  shows "erase_ends (erase_right p h) (inorder (plug fs (Nd q p c t))) \<or>
    erase_up (erase_right p h) (inorder (plug fs (Nd q p c t))) (Suc (length fs))"
proof -
  obtain a s d b where q: "q = Nd a s d b" using ok by (cases q) auto
  have v: "lft h p = s" "s \<noteq> 0" "rb_is_black h s = d" using t unfolding q rbtree_plug by auto
  show ?thesis
  proof (cases d)
    case True
    have "erase_right p h = erase_right_black p s h" using v True by (simp add: erase_right_def Let_def is_red_iff)
    then show ?thesis using right_black_round [of h fs a s b p c t "Suc (length fs)"] t i ok q True by simp
  next
    case False
    then have c: "c" using ok q by auto
    let ?h = "rb_set_red p (rb_set_black s h)"
    have "rbtree ?h (plug fs (Nd (Nd a s True b) p False t))" using t q unfolding rbtree_plug by auto
    from rotate_right [OF this] obtain h1 where h1: "rb_rotate_right p ?h = Some h1"
      "rbtree h1 (plug (FR a s True # fs) (Nd b p False t))" by auto
    obtain u x w where b: "b = Nd u x True w" using ok q False c by (cases b) auto
    have r: "lft h1 p = x" using h1(2) unfolding b rbtree_plug by simp
    have "erase_right p h = erase_right_black p x h1" using v False h1(1) r by (simp add: erase_right_def Let_def is_red_iff)
    moreover have "inorder (plug fs (Nd q p c t)) = inorder (plug (FR a s True # fs) (Nd b p False t))"
      by (simp add: inorder_plug q)
    moreover have "ctx_ok (FR b p False # FR a s True # fs) (Suc (bh t))" using ok c False q b by auto
    ultimately show ?thesis using right_black_round [OF h1(2) [unfolded b] i, of "Suc (length fs)"] b by simp
  qed
qed

lemma ctx_root: "ctx_at h p fs \<Longrightarrow> fs \<noteq> [] \<Longrightarrow> rb_root h \<in> set (ctx_nodes fs) \<and> rb_root h \<noteq> 0"
  by (induction fs arbitrary: p rule: ctx_nodes.induct) (auto, (metis ctx_at.simps(1))+)

lemma plug_root:
  assumes "rbtree h (plug fs t)"
  shows "root_of t = 0 \<longleftrightarrow> t = Lf" "root_black t \<longleftrightarrow> root_of t = 0 \<or> rb_is_black h (root_of t)"
    "fs \<noteq> [] \<Longrightarrow> root_of t \<noteq> rb_root h" "fs \<noteq> [] \<Longrightarrow> ctx_par fs \<noteq> 0" "fs = [] \<Longrightarrow> rb_root h = root_of t"
proof -
  have a: "ctx_at h (root_of t) fs" "tree_at h (ctx_par fs) t" "distinct (inorder t @ ctx_nodes fs)"
    using assms unfolding rbtree_plug by auto
  show z: "root_of t = 0 \<longleftrightarrow> t = Lf" using root_of_0 [OF a(2)] .
  show "root_black t \<longleftrightarrow> root_of t = 0 \<or> rb_is_black h (root_of t)" using root_color [OF a(2)] .
  show "root_of t \<noteq> rb_root h" if "fs \<noteq> []" using ctx_root [OF a(1) that] root_of_in [of t] z a(3) by force
  show "ctx_par fs \<noteq> 0" if "fs \<noteq> []" using that a(1) by (cases fs rule: ctx_nodes.cases) auto
  show "rb_root h = root_of t" if "fs = []" using that a(1) by simp
qed

lemma erase_exit:
  assumes t: "rbtree h (plug fs t)" and i: "invc (paint_black t)" "invh t" "ctx_ok fs (Suc (bh t))" and x: "fs = [] \<or> \<not> root_black t"
  shows "\<exists>h'. rb_erase_color (root_of t) (ctx_par fs) h = Some h' \<and> rbtree h' (plug fs (paint_black t)) \<and>
    red_black (plug fs (paint_black t))"
proof -
  have "rb_erase_color (root_of t) (ctx_par fs) h = Some (if root_of t \<noteq> 0 then rb_set_black (root_of t) h else h)"
    using x plug_root(2,5) [OF t] by (subst rb_erase_color.simps) auto
  moreover have "red_black (plug fs (paint_black t))" using i x unfolding red_black_plug by (cases t) auto
  moreover have "rbtree (if root_of t \<noteq> 0 then rb_set_black (root_of t) h else h) (plug fs (paint_black t))"
    using set_black_plug [OF t] t plug_root(1) [OF t] by auto
  ultimately show ?thesis by blast
qed

definition erase_round :: "addr \<Rightarrow> addr \<Rightarrow> rb_heap \<Rightarrow> ((addr \<times> addr) option \<times> rb_heap) option" where
  "erase_round node parent h = (if lft h parent = node then erase_left parent h else erase_right parent h)"

lemma erase_round:
  assumes t: "rbtree h (plug fs t)" and i: "invc t" "invh t" "ctx_ok fs (Suc (bh t))" "root_black t" and ne: "fs \<noteq> []"
  shows "erase_ends (erase_round (root_of t) (ctx_par fs) h) (inorder (plug fs t)) \<or>
    erase_up (erase_round (root_of t) (ctx_par fs) h) (inorder (plug fs t)) (length fs)"
proof (cases fs rule: ctx_nodes.cases)
  case (2 p c q gs)
  then have "lft h p = root_of t" using t unfolding rbtree_plug by simp
  then show ?thesis using left_round [of h gs t p c q] 2 t i by (simp add: erase_round_def)
next
  case (3 q p c gs)
  then have q: "q \<noteq> Lf" "lft h p = root_of q" using t i(3) unfolding rbtree_plug by auto
  have a: "distinct (inorder t @ inorder q)" "tree_at h p q" using t 3 unfolding rbtree_plug by auto
  have "root_of q \<noteq> root_of t"
    using a(1) root_of_in [OF q(1)] root_of_in [of t] root_of_0 [OF a(2)] q(1) plug_root(1) [OF t] by (cases "t = Lf") auto
  then show ?thesis using right_round [of h gs q p c t] 3 q(2) t i by (simp add: erase_round_def)
qed (use ne in simp)

lemma erase_loop:
  "rbtree h (plug fs t) \<Longrightarrow> invc (paint_black t) \<Longrightarrow> invh t \<Longrightarrow> ctx_ok fs (Suc (bh t)) \<Longrightarrow>
   \<exists>h' s. rb_erase_color (root_of t) (ctx_par fs) h = Some h' \<and> rbtree h' s \<and> red_black s \<and> inorder s = inorder (plug fs t)"
proof (induction "if root_black t then Suc (length fs) else 0" arbitrary: fs t h rule: less_induct)
  case less
  show ?case
  proof (cases "fs = [] \<or> \<not> root_black t")
    case True
    have "inorder (plug fs (paint_black t)) = inorder (plug fs t)" by (simp add: inorder_plug)
    then show ?thesis using erase_exit [OF less.prems True] by blast
  next
    case False
    then have b: "root_black t" "invc t" and ne: "fs \<noteq> []" using less.prems(2) by auto
    let ?r = "erase_round (root_of t) (ctx_par fs) h"
    have e: "rb_erase_color (root_of t) (ctx_par fs) h = ?r \<bind> (\<lambda>(next, h). case next of
        Some np \<Rightarrow> rb_erase_color (fst np) (snd np) h | None \<Rightarrow> Some (if rb_root h \<noteq> 0 then rb_set_black (rb_root h) h else h))"
      using plug_root(2) [OF less.prems(1)] plug_root(3,4) [OF less.prems(1) ne] b(1)
      by (subst rb_erase_color.simps) (simp add: erase_round_def)
    from erase_round [OF less.prems(1) b(2) less.prems(3,4) b(1) ne] show ?thesis
    proof
      assume "erase_ends ?r (inorder (plug fs t))"
      then obtain h' s where s: "?r = Some (None, h')" "rbtree h' s" "red_black s" "inorder s = inorder (plug fs t)"
        unfolding erase_ends_def by blast
      then have "rbtree (if rb_root h' \<noteq> 0 then rb_set_black (rb_root h') h' else h') s"
        using set_black_root [OF s(2)] root_of_0 [of h' 0 s] by (auto simp: rbtree_def red_black_def)
      then show ?thesis using e s by auto
    next
      assume "erase_up ?r (inorder (plug fs t)) (length fs)"
      then obtain h' gs u where u: "?r = Some (Some (root_of u, ctx_par gs), h')" "rbtree h' (plug gs u)"
        "inorder (plug gs u) = inorder (plug fs t)" "invh u" "invc (paint_black u)" "ctx_ok gs (Suc (bh u))"
        "root_black u \<longrightarrow> length gs < length fs" unfolding erase_up_def by blast
      then show ?thesis using less.hyps [OF _ u(2,5,4,6)] b(1) e by auto
    qed
  qed
qed

text \<open>Taking a node out and putting one in the place of another.\<close>

lemma views_copy [simp]:
  "lft (upd_node n (\<lambda>_. rb_nodes h v) h) = (lft h)(n := lft h v)" "rgt (upd_node n (\<lambda>_. rb_nodes h v) h) = (rgt h)(n := rgt h v)"
  "rb_parent (upd_node n (\<lambda>_. rb_nodes h v) h) = (rb_parent h)(n := rb_parent h v)"
  "rb_is_black (upd_node n (\<lambda>_. rb_nodes h v) h) = (rb_is_black h)(n := rb_is_black h v)"
  "rb_root (upd_node n f h) = rb_root h"
  by (auto simp: fun_eq_iff upd_node_def lft_def rgt_def rb_parent_def rb_is_black_def rb_color_def)

lemma views_adopt [simp]:
  fixes h :: rb_heap and n v q :: addr
  defines "h' \<equiv> upd_node n (\<lambda>x. x\<lparr>rb_parent_color := rb_parent_color (rb_nodes h v), rb_left := q\<rparr>) h"
  shows "lft h' = (lft h)(n := q)" "rgt h' = rgt h" "rb_parent h' = (rb_parent h)(n := rb_parent h v)"
    "rb_is_black h' = (rb_is_black h)(n := rb_is_black h v)"
  by (auto simp: h'_def fun_eq_iff upd_node_def lft_def rgt_def rb_parent_def rb_is_black_def rb_color_def)

lemma rbtree_cong:
  assumes "rbtree h t" "rb_root h' = rb_root h"
    and "\<And>a. a \<in> set (inorder t) \<Longrightarrow> lft h' a = lft h a \<and> rgt h' a = rgt h a \<and> rb_parent h' a = rb_parent h a \<and>
      rb_is_black h' a = rb_is_black h a"
  shows "rbtree h' t"
  using assms tree_at_cong [of t h' h 0] unfolding rbtree_def by auto

definition adopt :: "addr \<Rightarrow> addr \<Rightarrow> rb_heap \<Rightarrow> rb_heap" where
  "adopt p q h = (if p \<noteq> 0 then rb_set_parent p q h else h)"

lemma replace_child_ctx:
  assumes "ctx_at h p fs" "distinct (ctx_nodes fs)" "p \<noteq> 0" "p \<notin> set (ctx_nodes fs)"
  shows "ctx_at (replace_child (ctx_par fs) p n h) n fs"
  using assms by (cases fs rule: ctx_nodes.cases) (auto simp: replace_child_def)

lemma replace_child_tree [simp]: "a \<notin> set (inorder t) \<Longrightarrow> tree_at (replace_child a p n h) q t = tree_at h q t"
  by (auto simp: replace_child_def)

lemma replace_child_views [simp]:
  "x \<noteq> a \<Longrightarrow> lft (replace_child a p n h) x = lft h x" "x \<noteq> a \<Longrightarrow> rgt (replace_child a p n h) x = rgt h x"
  "rb_parent (replace_child a p n h) = rb_parent h" "rb_is_black (replace_child a p n h) = rb_is_black h"
  by (auto simp: replace_child_def)

lemma adopt_tree: "tree_at h p t \<Longrightarrow> distinct (inorder t) \<Longrightarrow> 4 dvd q \<Longrightarrow> tree_at (adopt (root_of t) q h) q t"
  by (cases t) (auto simp: adopt_def)

lemma adopt_frame [simp]:
  "a \<notin> set (inorder t) \<Longrightarrow> tree_at (adopt a q h) p t = tree_at h p t"
  "a \<notin> set (ctx_nodes fs) \<Longrightarrow> ctx_at (adopt a q h) p fs = ctx_at h p fs"
  "lft (adopt a q h) = lft h" "rgt (adopt a q h) = rgt h" "4 dvd q \<Longrightarrow> rb_is_black (adopt a q h) = rb_is_black h"
  "x \<noteq> a \<Longrightarrow> 4 dvd q \<Longrightarrow> rb_parent (adopt a q h) x = rb_parent h x" "rb_root (adopt a q h) = rb_root h"
  by (auto simp: adopt_def)

lemma root_notin:
  "set (inorder t) \<inter> A = {} \<Longrightarrow> 0 \<notin> A \<Longrightarrow> root_of t \<notin> A"
  using root_of_in [of t] by (cases t) auto

lemma tree_at_0: "tree_at h p t \<Longrightarrow> 0 \<notin> set (inorder t)"
  by (induction t arbitrary: p) auto

lemma ctx_at_0: "ctx_at h p fs \<Longrightarrow> 0 \<notin> set (ctx_nodes fs)"
  by (induction fs arbitrary: p rule: ctx_nodes.induct) (auto dest: tree_at_0)

lemma replace_node:
  assumes t: "rbtree h (plug fs (Nd l v c r))" and n: "n \<noteq> 0" "4 dvd n" "n \<notin> set (inorder (plug fs (Nd l v c r)))"
  shows "rbtree (rb_replace_node v n h) (plug fs (Nd l n c r))"
proof -
  let ?h1 = "replace_child (ctx_par fs) v n h"
  let ?h2 = "adopt (root_of l) n ?h1"
  let ?h3 = "adopt (root_of r) n ?h2"
  have a: "ctx_at h v fs" "tree_at h (ctx_par fs) (Nd l v c r)" "distinct (inorder (Nd l v c r) @ ctx_nodes fs)"
    "n \<notin> set (inorder l)" "n \<notin> set (inorder r)" "n \<noteq> v" "n \<notin> set (ctx_nodes fs)"
    using t n(3) unfolding rbtree_plug set_plug by auto
  have z: "0 \<notin> set (inorder l)" "0 \<notin> set (inorder r)" "0 \<notin> set (ctx_nodes fs)"
    using a(1,2) tree_at_0 ctx_at_0 by auto
  have pf: "ctx_par fs \<in> insert 0 (set (ctx_nodes fs))" by (cases fs rule: ctx_nodes.cases) auto
  then have pn: "ctx_par fs \<notin> set (inorder l)" "ctx_par fs \<notin> set (inorder r)" "ctx_par fs \<noteq> v"
    using a z by auto
  have roots: "root_of l \<notin> set (ctx_nodes fs)" "root_of r \<notin> set (ctx_nodes fs)" "root_of l \<notin> set (inorder r)"
    "root_of r \<notin> set (inorder l)" "root_of l \<noteq> v" "root_of r \<noteq> v"
    using a z root_notin [of l] root_notin [of r] by auto
  have e: "rb_replace_node v n h = upd_node n (\<lambda>_. rb_nodes ?h3 v) ?h3"
    unfolding rb_replace_node_def adopt_def [symmetric] using a(2) pn by (simp add: Let_def)
  have "ctx_at ?h3 n fs" using replace_child_ctx [of h v fs n] a roots by simp
  moreover have "tree_at ?h3 n l" using adopt_tree [of ?h1 v l n] a n(2) pn roots by simp
  moreover have "tree_at ?h3 n r" using adopt_tree [of ?h2 v r n] a n(2) pn roots by simp
  moreover have "lft ?h3 v = root_of l" "rgt ?h3 v = root_of r" "rb_parent ?h3 v = ctx_par fs" "rb_is_black ?h3 v = c"
    using a(2) n(2) pn roots by auto
  ultimately show ?thesis using a n unfolding e rbtree_plug by (simp add: tree_at_upd_node ctx_at_upd_node)
qed

lemma splice:
  assumes "rbtree h (plug fs (Nd l x c r))" "l = Lf \<or> r = Lf" "k = (if l = Lf then r else l)"
  shows "rbtree (replace_child (ctx_par fs) x (root_of k) (adopt (root_of k) (ctx_par fs) h)) (plug fs k)"
proof -
  have "4 dvd ctx_par fs" using assms(1) ctx_par_dvd unfolding rbtree_plug by blast
  then show ?thesis using assms unfolding rbtree_plug replace_child_def adopt_def
    by (cases fs rule: ctx_nodes.cases; cases l; cases r) auto
qed

lemma plug_append: "plug (gs @ fs) t = plug fs (plug gs t)"
  by (induction gs t rule: plug.induct) auto

definition left_frames :: "frame list \<Rightarrow> bool" where
  "left_frames gs \<longleftrightarrow> (\<forall>f\<in>set gs. \<exists>a c r. f = FL a c r)"

lemma left_split:
  "t \<noteq> Lf \<Longrightarrow> \<exists>gs s d k. t = plug gs (Nd Lf s d k) \<and> left_frames gs"
proof (induction t)
  case (Nd l a c r)
  show ?case
  proof (cases "l = Lf")
    case True
    then show ?thesis by (intro exI [of _ "[]"]) (auto simp: left_frames_def)
  next
    case False
    then obtain gs s d k where "l = plug gs (Nd Lf s d k)" "left_frames gs" using Nd.IH(1) by blast
    then show ?thesis by (intro exI [of _ "gs @ [FL a c r]"]) (auto simp: plug_append left_frames_def)
  qed
qed simp

lemma left_frames_pre: "left_frames gs \<Longrightarrow> ctx_pre gs = []"
  by (induction gs rule: ctx_pre.induct) (auto simp: left_frames_def)

lemma leftmost_at: "tree_at h p t \<Longrightarrow> t \<noteq> Lf \<Longrightarrow> leftmost h (root_of t) = Some (hd (inorder t))"
proof (induction t arbitrary: p)
  case (Nd l a c r)
  show ?case
  proof (cases "l = Lf")
    case True
    then show ?thesis using Nd.prems by (subst leftmost.simps) simp
  next
    case False
    then have "inorder l \<noteq> []" "root_of l \<noteq> 0" using Nd.prems root_of_in [of l] root_of_0 [of h a l] by auto
    then show ?thesis using Nd.prems Nd.IH(1) [of a] False by (subst leftmost.simps) simp
  qed
qed simp

lemma rightmost_at: "tree_at h p t \<Longrightarrow> t \<noteq> Lf \<Longrightarrow> rightmost h (root_of t) = Some (last (inorder t))"
proof (induction t arbitrary: p)
  case (Nd l a c r)
  show ?case
  proof (cases "r = Lf")
    case True
    then show ?thesis using Nd.prems by (subst rightmost.simps) simp
  next
    case False
    then have "inorder r \<noteq> []" "root_of r \<noteq> 0" using Nd.prems root_of_in [of r] root_of_0 [of h a r] by auto
    then show ?thesis using Nd.prems Nd.IH(2) [of a] False by (subst rightmost.simps) simp
  qed
qed simp

text \<open>Removing a node with two children is removing its successor and then putting the successor in its place.\<close>

lemma replace_child_root: "rb_root (replace_child a p n h) = (if a = 0 then n else rb_root h)"
  by (simp add: replace_child_def)

lemma relink_near:
  assumes t: "rbtree h (plug fs (Nd l x c (Nd Lf s d k)))" and l: "l \<noteq> Lf"
  shows "\<exists>h'. erase_relink x s h = (root_of k, s, if d then 1 else 0, h') \<and> rbtree h' (plug fs (Nd l s c k))"
proof -
  let ?p = "ctx_par fs" and ?l = "root_of l" and ?k = "root_of k"
  have a: "ctx_at h x fs" "tree_at h ?p (Nd l x c (Nd Lf s d k))" "distinct (inorder (Nd l x c (Nd Lf s d k)) @ ctx_nodes fs)"
    using t unfolding rbtree_plug by auto
  let ?h1 = "replace_child ?p x s h"
  let ?h = "rb_set_parent ?l s (upd_node s (\<lambda>n. n\<lparr>rb_parent_color := rb_parent_color (rb_nodes ?h1 x), rb_left := lft ?h1 x\<rparr>) ?h1)"
  have z: "0 \<notin> set (inorder l)" "0 \<notin> set (inorder k)" "0 \<notin> set (ctx_nodes fs)" using a(1,2) tree_at_0 ctx_at_0 by auto
  have pf: "?p \<in> insert 0 (set (ctx_nodes fs))" by (cases fs rule: ctx_nodes.cases) auto
  have v: "?p \<noteq> x" "?p \<noteq> s" "?p \<notin> set (inorder l)" "?p \<notin> set (inorder k)" "?l \<noteq> x" "?l \<noteq> s" "?l \<noteq> 0"
    "?l \<notin> set (inorder k)" "?l \<notin> set (ctx_nodes fs)"
    using pf a z l root_of_in [OF l] by auto
  have e: "erase_relink x s h = (?k, s, if d then 1 else 0, ?h)"
    using a(2) v unfolding erase_relink_def by (simp add: Let_def color_black)
  have "tree_at ?h s l" using a v l by (cases l) (auto simp: tree_at_upd_node)
  moreover have "tree_at ?h s k" using a v by (simp add: tree_at_upd_node)
  moreover have "ctx_at ?h s fs" using a v replace_child_ctx [of h x fs s] by (simp add: ctx_at_upd_node)
  moreover have "lft ?h1 x = ?l" using a v by simp
  ultimately have "rbtree ?h (plug fs (Nd l s c k))" using a v unfolding rbtree_plug by auto
  then show ?thesis using e by blast
qed

lemma root_of_plug: "root_of (plug fs t) = (if fs = [] then root_of t else frame_addr (last fs))"
  by (induction fs t rule: plug.induct) auto

lemma set_parent_tree:
  "tree_at h p t \<Longrightarrow> distinct (inorder t) \<Longrightarrow> 4 dvd q \<Longrightarrow> t \<noteq> Lf \<Longrightarrow> tree_at (rb_set_parent (root_of t) q h) q t"
  by (cases t) auto

text \<open>The successor deeper in the right subtree: first it is taken out there.\<close>

lemma relink_out:
  assumes t: "rbtree h (plug fs (Nd l x c (plug gs (Nd Lf s d k))))" and g: "left_frames gs" "gs \<noteq> []"
  defines "q \<equiv> ctx_par gs"
  shows "tree_at (set_left q (root_of k) (adopt (root_of k) q h)) x (plug gs k)"
    "lft h s = 0" "rgt h s = root_of k" "rb_parent h s = q" "rb_is_black h s = d" "s \<noteq> 0" "4 dvd s" "q \<noteq> 0" "4 dvd q"
    "q \<in> set (ctx_nodes gs)"
proof -
  let ?gs = "gs @ FR l x c # fs"
  have t': "rbtree h (plug ?gs (Nd Lf s d k))" using t by (simp add: plug_append)
  obtain e b hs where f: "gs = FL q e b # hs" using g unfolding q_def by (cases gs) (auto simp: left_frames_def)
  have q: "ctx_par ?gs = q" using f by (metis append_Cons ctx_par.simps(2) frame_addr.simps(1))
  have a: "ctx_at h s ?gs" "tree_at h q (Nd Lf s d k)" using t' unfolding rbtree_plug q by auto
  then show "lft h s = 0" "rgt h s = root_of k" "rb_parent h s = q" "rb_is_black h s = d" "s \<noteq> 0" "4 dvd s" by auto
  have "lft h q = s" "q \<noteq> 0" "4 dvd q" using a(1) by (subst (asm) f, simp)+
  then show "q \<noteq> 0" "4 dvd q" by auto
  show "q \<in> set (ctx_nodes gs)" by (subst f) simp
  have "rbtree (set_left q (root_of k) (adopt (root_of k) q h)) (plug ?gs k)"
    using splice [OF t', of k] \<open>lft h q = s\<close> \<open>q \<noteq> 0\<close> unfolding q by (simp add: replace_child_def)
  then have "rbtree (set_left q (root_of k) (adopt (root_of k) q h)) (plug fs (Nd l x c (plug gs k)))"
    by (simp add: plug_append)
  then show "tree_at (set_left q (root_of k) (adopt (root_of k) q h)) x (plug gs k)" unfolding rbtree_plug by simp
qed

lemma relink_far:
  assumes t: "rbtree h (plug fs (Nd l x c (plug gs (Nd Lf s d k))))" and l: "l \<noteq> Lf" and g: "left_frames gs" "gs \<noteq> []"
  shows "\<exists>h'. erase_relink x s h = (root_of k, ctx_par gs, if d then 1 else 0, h') \<and> rbtree h' (plug fs (Nd l s c (plug gs k)))"
proof -
  let ?p = "ctx_par fs" and ?l = "root_of l" and ?k = "root_of k" and ?q = "ctx_par gs"
  let ?r = "plug gs k" and ?R = "root_of (plug gs k)"
  let ?h1 = "replace_child ?p x s h"
  let ?h2 = "set_left ?q ?k (adopt ?k ?q ?h1)"
  let ?g = "set_left ?q ?k (adopt ?k ?q h)"
  let ?h5 = "rb_set_parent ?R s (set_right s ?R ?h2)"
  let ?h6 = "upd_node s (\<lambda>n. n\<lparr>rb_parent_color := rb_parent_color (rb_nodes ?h5 x), rb_left := lft ?h5 x\<rparr>) ?h5"
  let ?h = "rb_set_parent ?l s ?h6"
  note o = relink_out [OF t g]
  have rr: "root_of (plug gs (Nd Lf s d k)) = ?R" using g(2) by (simp add: root_of_plug)
  have a: "ctx_at h x fs" "x \<noteq> 0" "4 dvd x" "rb_parent h x = ?p" "rb_is_black h x = c" "lft h x = ?l" "rgt h x = ?R" "tree_at h x l"
    "distinct (inorder l @ x # inorder ?r @ s # ctx_nodes fs)"
    using t rr unfolding rbtree_plug by (auto simp: inorder_plug)
  have z: "0 \<notin> set (inorder l)" "0 \<notin> set (inorder ?r)" "0 \<notin> set (ctx_nodes fs)"
    using a(1,8) o(1) tree_at_0 ctx_at_0 by auto
  have pf: "?p \<in> insert 0 (set (ctx_nodes fs))" by (cases fs rule: ctx_nodes.cases) auto
  have q: "?q \<in> set (inorder ?r)" using o(10) by (simp add: set_plug)
  have "?r \<noteq> Lf" using q by auto
  then have R: "?R \<in> set (inorder ?r)" "?q \<in> set (inorder ?r)" using q root_of_in by auto
  have K: "?k \<in> insert 0 (set (inorder ?r))" using root_of_in [of k] by (cases k) (auto simp: set_plug)
  have v: "?p \<notin> insert x (insert s (set (inorder l) \<union> set (inorder ?r)))" "?l \<in> set (inorder l)"
    using pf a(2,9) z o(6) root_of_in [OF l] by auto
  have e: "erase_relink x s h = (?k, ?q, if d then 1 else 0, ?h)"
    using a v R o(2-9) K z unfolding erase_relink_def adopt_def by (auto simp: Let_def color_black)
  have ag: "lft ?h2 n = lft ?g n \<and> rgt ?h2 n = rgt ?g n \<and> rb_parent ?h2 n = rb_parent ?g n \<and> rb_is_black ?h2 n = rb_is_black ?g n"
    if "n \<in> set (inorder ?r)" for n
    using that v(1) o(9) by (cases "n = ?p") (auto simp: adopt_def)
  have r2: "tree_at ?h2 x ?r" using o(1) tree_at_cong [OF ag, of ?r x] by simp
  have r5: "tree_at ?h5 s ?r"
    by (rule set_parent_tree [of _ x _ s]) (use r2 a(9) \<open>?r \<noteq> Lf\<close> o(7) in simp_all)
  have "?l \<notin> set (inorder ?r)" "s \<notin> set (inorder ?r)" using v(2) a(9) by auto
  then have "tree_at ?h s ?r" using r5 by (simp add: tree_at_upd_node)
  moreover have nl: "s \<notin> set (inorder l)" "?R \<notin> set (inorder l)" "?q \<notin> set (inorder l)" "?k \<notin> set (inorder l)" "?p \<notin> set (inorder l)"
    using a(9) R K v(1) z(1) by auto
  then have l6: "tree_at ?h6 x l" using a(8) by (simp add: tree_at_upd_node)
  have "tree_at ?h s l" by (rule set_parent_tree [OF l6 _ o(7) l]) (use a(9) in simp)
  moreover have "?R \<notin> set (ctx_nodes fs)" "?q \<notin> set (ctx_nodes fs)" "?k \<notin> set (ctx_nodes fs)" "?l \<notin> set (ctx_nodes fs)"
    using a(9) R K v(2) z(3) by auto
  then have "ctx_at ?h s fs" using replace_child_ctx [OF a(1), of s] a(2,9) by (simp add: ctx_at_upd_node)
  moreover have "x \<noteq> ?k" "x \<noteq> ?R" "x \<noteq> ?q" "x \<noteq> s" "s \<noteq> ?l" "x \<noteq> ?p" "s \<noteq> ?R" using a(2,9) R K v by auto
  then have "lft ?h s = ?l" "rgt ?h s = ?R" "rb_parent ?h s = ?p" "rb_is_black ?h s = c" using a o(7,9) by simp_all
  ultimately have "rbtree ?h (plug fs (Nd l s c ?r))" using a(9) o(6,7) unfolding rbtree_plug by (simp; blast)
  then show ?thesis using e by blast
qed

lemma node_zip: "x \<in> set (inorder t) \<Longrightarrow> \<exists>fs l c r. t = plug fs (Nd l x c r)"
proof (induction t)
  case (Nd l a c r)
  then consider "x = a" | fs l' c' r' where "l = plug fs (Nd l' x c' r')" | fs l' c' r' where "r = plug fs (Nd l' x c' r')"
    by auto
  then show ?case
  proof cases
    case 1
    then show ?thesis by (intro exI [of _ "[]"]) auto
  next
    case 2
    then have "Nd l a c r = plug (fs @ [FL a c r]) (Nd l' x c' r')" by (simp add: plug_append)
    then show ?thesis by blast
  next
    case 3
    then have "Nd l a c r = plug (fs @ [FR l a c]) (Nd l' x c' r')" by (simp add: plug_append)
    then show ?thesis by blast
  qed
qed simp

text \<open>The colour of the place that is lost decides whether the tree is repaired.\<close>

lemma erase_repair:
  assumes t: "rbtree h (plug fs k)" and i: "invc k" "invh k" "ctx_ok fs (bh k + (if d then 1 else 0))" "\<not> d \<longrightarrow> root_black k"
  shows "\<exists>h' s. (if (if d then 1 else 0) = RB_BLACK then rb_erase_color (root_of k) (ctx_par fs) h else Some h) = Some h' \<and>
    rbtree h' s \<and> red_black s \<and> inorder s = inorder (plug fs k)"
proof (cases d)
  case True
  then show ?thesis using erase_loop [OF t _ i(2)] i by (simp add: RB_BLACK_def)
next
  case False
  then have "red_black (plug fs k)" using i unfolding red_black_plug by simp
  then show ?thesis using False t by (auto simp: RB_BLACK_def)
qed

lemma erase_one:
  assumes t: "rbtree h (plug fs (Nd l x c r))" "red_black (plug fs (Nd l x c r))" and o: "l = Lf \<or> r = Lf"
  shows "\<exists>h' s. rb_erase x h = Some h' \<and> rbtree h' s \<and> red_black s \<and> inorder s = ctx_pre fs @ inorder l @ inorder r @ ctx_post fs"
proof -
  define k where "k = (if l = Lf then r else l)"
  let ?h = "replace_child (ctx_par fs) x (root_of k) (adopt (root_of k) (ctx_par fs) h)"
  have a: "x \<noteq> 0" "rb_parent h x = ctx_par fs" "rb_is_black h x = c" "lft h x = root_of l" "rgt h x = root_of r" "tree_at h x l" "tree_at h x r"
    using t(1) unfolding rbtree_plug by auto
  have i: "invc k" "invh k" "ctx_ok fs (bh k + (if c then 1 else 0))" "\<not> c \<longrightarrow> root_black k"
    using t(2) o unfolding red_black_plug k_def by (auto split: if_splits)
  have z: "(if lft h x = 0 then rgt h x else lft h x) = root_of k" "\<not> (lft h x \<noteq> 0 \<and> rgt h x \<noteq> 0)"
    using a root_of_0 [OF a(6)] root_of_0 [OF a(7)] o unfolding k_def by auto
  have "rb_erase x h = (if (if c then 1 else 0) = RB_BLACK then rb_erase_color (root_of k) (ctx_par fs) ?h else Some ?h)"
    unfolding rb_erase_def Let_def if_not_P [OF a(1)] if_not_P [OF z(2)] z(1) a(2) color_black a(3) adopt_def ..
  moreover have "inorder (plug fs k) = ctx_pre fs @ inorder l @ inorder r @ ctx_post fs" using o by (auto simp: k_def inorder_plug)
  ultimately show ?thesis using erase_repair [OF splice [OF t(1) o k_def] i] by simp
qed

lemma erase_two:
  assumes t: "rbtree h (plug fs (Nd l x c r))" "red_black (plug fs (Nd l x c r))" and lr: "l \<noteq> Lf" "r \<noteq> Lf"
  shows "\<exists>h' s. rb_erase x h = Some h' \<and> rbtree h' s \<and> red_black s \<and> inorder s = ctx_pre fs @ inorder l @ inorder r @ ctx_post fs"
proof -
  obtain gs s d k where g: "r = plug gs (Nd Lf s d k)" "left_frames gs" using left_split [OF lr(2)] by blast
  let ?fs = "gs @ FR l s c # fs"
  have a: "x \<noteq> 0" "lft h x = root_of l" "rgt h x = root_of r" "tree_at h x l" "tree_at h x r"
    using t(1) unfolding rbtree_plug by auto
  have nz: "lft h x \<noteq> 0" "rgt h x \<noteq> 0" using a root_of_0 [OF a(4)] root_of_0 [OF a(5)] lr by auto
  have "hd (inorder r) = s" using g by (simp add: inorder_plug left_frames_pre)
  then have lm: "leftmost h (rgt h x) = Some s" using leftmost_at [OF a(5) lr(2)] a(3) by simp
  obtain h1 where h1: "erase_relink x s h = (root_of k, ctx_par ?fs, if d then 1 else 0, h1)" "rbtree h1 (plug fs (Nd l s c (plug gs k)))"
  proof (cases gs)
    case Nil
    then show ?thesis using relink_near [of h fs l x c s d k] t(1) lr(1) g that by auto
  next
    case (Cons f hs)
    then show ?thesis using relink_far [of h fs l x c gs s d k] t(1) lr(1) g that by auto
  qed
  have h2: "rbtree h1 (plug ?fs k)" using h1(2) by (simp add: plug_append)
  have "red_black (plug (gs @ FR l s c # fs) (Nd Lf s d k))"
    using t(2) g(1) unfolding plug_append plug.simps red_black_plug by (auto split: if_splits)
  then have i: "invc k" "invh k" "ctx_ok ?fs (bh k + (if d then 1 else 0))" "\<not> d \<longrightarrow> root_black k"
    unfolding red_black_plug by auto
  have "rb_erase x h = (if (if d then 1 else 0) = RB_BLACK then rb_erase_color (root_of k) (ctx_par ?fs) h1 else Some h1)"
    using a(1) nz lm h1(1) by (simp add: rb_erase_def)
  moreover have "inorder (plug ?fs k) = ctx_pre fs @ inorder l @ inorder r @ ctx_post fs"
    using g by (simp add: plug_append inorder_plug left_frames_pre)
  ultimately show ?thesis using erase_repair [OF h2 i] by simp
qed

lemma rb_erase_ok:
  assumes "rbtree h t" "red_black t" "x \<in> set (inorder t)"
  shows "\<exists>h' t'. rb_erase x h = Some h' \<and> rbtree h' t' \<and> red_black t' \<and> inorder t' = remove1 x (inorder t)"
proof -
  obtain fs l c r where t: "t = plug fs (Nd l x c r)" using node_zip [OF assms(3)] by blast
  have "x \<notin> set (ctx_pre fs)" "x \<notin> set (inorder l)" using assms(1) unfolding t rbtree_def inorder_plug by auto
  then have "remove1 x (inorder t) = ctx_pre fs @ inorder l @ inorder r @ ctx_post fs"
    by (simp add: t inorder_plug remove1_append)
  then show ?thesis using erase_one [of h fs l x c r] erase_two [of h fs l x c r] assms(1,2) t by metis
qed

subsection \<open>Traversal\<close>

lemma climb_right_post:
  "rbtree h (plug fs t) \<Longrightarrow> t \<noteq> Lf \<Longrightarrow> climb_right h (root_of t) = Some (if ctx_post fs = [] then 0 else hd (ctx_post fs))"
proof (induction fs t rule: plug.induct)
  case (1 t)
  then show ?case using tree_at_root [of h 0 t] unfolding rbtree_def by (subst climb_right.simps) simp
next
  case (2 a c r fs t)
  have x: "rb_parent h (root_of t) = a" "rgt h a = root_of r" "a \<noteq> 0" "distinct (inorder t @ inorder r)" "root_of t \<noteq> 0"
    using "2.prems" rbtree_plug [of h "FL a c r # fs" t] tree_at_root [of h a t] by auto
  have "root_of t \<noteq> root_of r"
    using x(4,5) root_of_in [OF "2.prems"(2)] root_of_in [of r] by (cases "r = Lf") auto
  then show ?case using x by (subst climb_right.simps) simp
next
  case (3 l a c fs t)
  have x: "rb_parent h (root_of t) = a" "rgt h a = root_of t" "a \<noteq> 0"
    using "3.prems" rbtree_plug [of h "FR l a c # fs" t] tree_at_root [of h a t] by auto
  then show ?case using "3.IH" "3.prems"(1) by (subst climb_right.simps) simp
qed

lemma climb_left_pre:
  "rbtree h (plug fs t) \<Longrightarrow> t \<noteq> Lf \<Longrightarrow> climb_left h (root_of t) = Some (if ctx_pre fs = [] then 0 else last (ctx_pre fs))"
proof (induction fs t rule: plug.induct)
  case (1 t)
  then show ?case using tree_at_root [of h 0 t] unfolding rbtree_def by (subst climb_left.simps) simp
next
  case (2 a c r fs t)
  have x: "rb_parent h (root_of t) = a" "lft h a = root_of t" "a \<noteq> 0"
    using "2.prems" rbtree_plug [of h "FL a c r # fs" t] tree_at_root [of h a t] by auto
  then show ?case using "2.IH" "2.prems"(1) by (subst climb_left.simps) simp
next
  case (3 l a c fs t)
  have x: "rb_parent h (root_of t) = a" "lft h a = root_of l" "a \<noteq> 0" "distinct (inorder t @ inorder l)" "root_of t \<noteq> 0"
    using "3.prems" rbtree_plug [of h "FR l a c # fs" t] tree_at_root [of h a t] by auto
  have "root_of t \<noteq> root_of l"
    using x(4,5) root_of_in [OF "3.prems"(2)] root_of_in [of l] by (cases "l = Lf") auto
  then show ?case using x by (subst climb_left.simps) simp
qed

definition after :: "addr \<Rightarrow> addr list \<Rightarrow> addr" where
  "after x xs = (case tl (dropWhile (\<lambda>y. y \<noteq> x) xs) of [] \<Rightarrow> 0 | y # ys \<Rightarrow> y)"

lemma after_split: "x \<notin> set xs \<Longrightarrow> after x (xs @ x # ys) = (case ys of [] \<Rightarrow> 0 | y # zs \<Rightarrow> y)"
  by (induction xs) (auto simp: after_def)

lemma node_context:
  assumes "rbtree h (plug fs (Nd l x c r))"
  shows "rb_parent h x \<noteq> x" "lft h x = root_of l" "rgt h x = root_of r" "tree_at h x l" "tree_at h x r"
    "x \<notin> set (ctx_pre fs @ inorder l)" "x \<notin> set (inorder r @ ctx_post fs)"
proof -
  have "ctx_par fs \<in> insert 0 (set (ctx_nodes fs))" by (cases fs rule: ctx_nodes.cases) auto
  then show "rb_parent h x \<noteq> x" using assms unfolding rbtree_plug by auto
  show "lft h x = root_of l" "rgt h x = root_of r" "tree_at h x l" "tree_at h x r" using assms unfolding rbtree_plug by auto
  show "x \<notin> set (ctx_pre fs @ inorder l)" "x \<notin> set (inorder r @ ctx_post fs)"
    using assms unfolding rbtree_def inorder_plug by auto
qed

lemma rb_next_after:
  assumes "rbtree h t" "x \<in> set (inorder t)"
  shows "rb_next x h = Some (after x (inorder t))"
proof -
  obtain fs l c r where t: "t = plug fs (Nd l x c r)" using node_zip [OF assms(2)] by blast
  note n = node_context [OF assms(1) [unfolded t]]
  have a: "after x (inorder t) = (case inorder r @ ctx_post fs of [] \<Rightarrow> 0 | y # ys \<Rightarrow> y)"
    using after_split [OF n(6), of "inorder r @ ctx_post fs"] by (simp add: t inorder_plug)
  show ?thesis
  proof (cases "r = Lf")
    case True
    then show ?thesis using climb_right_post [OF assms(1) [unfolded t]] n a
      by (cases "ctx_post fs") (auto simp: rb_next_def)
  next
    case False
    then have "inorder r \<noteq> []" "root_of r \<noteq> 0" using root_of_in [of r] root_of_0 [OF n(5)] by auto
    then show ?thesis using leftmost_at [OF n(5) False] n a by (cases "inorder r") (auto simp: rb_next_def)
  qed
qed

lemma rb_prev_after:
  assumes "rbtree h t" "x \<in> set (inorder t)"
  shows "rb_prev x h = Some (after x (rev (inorder t)))"
proof -
  obtain fs l c r where t: "t = plug fs (Nd l x c r)" using node_zip [OF assms(2)] by blast
  note n = node_context [OF assms(1) [unfolded t]]
  have "x \<notin> set (rev (inorder r @ ctx_post fs))" using n(7) by simp
  from after_split [OF this, of "rev (ctx_pre fs @ inorder l)"]
  have a: "after x (rev (inorder t)) = (case rev (ctx_pre fs @ inorder l) of [] \<Rightarrow> 0 | y # ys \<Rightarrow> y)"
    by (simp add: t inorder_plug)
  show ?thesis
  proof (cases "l = Lf")
    case True
    then show ?thesis using climb_left_pre [OF assms(1) [unfolded t]] n a
      by (cases "ctx_pre fs" rule: rev_cases) (auto simp: rb_prev_def)
  next
    case False
    then have "inorder l \<noteq> []" "root_of l \<noteq> 0" using root_of_in [of l] root_of_0 [OF n(4)] by auto
    then show ?thesis using rightmost_at [OF n(4) False] n a by (cases "inorder l" rule: rev_cases) (auto simp: rb_prev_def)
  qed
qed

lemma rb_first_last:
  assumes "rbtree h t"
  shows "rb_first h = Some (if t = Lf then 0 else hd (inorder t))" "rb_last h = Some (if t = Lf then 0 else last (inorder t))"
  using assms leftmost_at [of h 0 t] rightmost_at [of h 0 t] root_of_0 [of h 0 t]
  by (auto simp: rb_first_def rb_last_def rbtree_def)

text \<open>The loop \<open>for (n = rb_first(root); n; n = rb_next(n))\<close> and the nodes it visits.\<close>

partial_function (option) rb_walk :: "addr \<Rightarrow> rb_heap \<Rightarrow> addr list option" where
  "rb_walk n h =
     (if n = 0 then Some []
      else do { m \<leftarrow> rb_next n h; ns \<leftarrow> rb_walk m h; Some (n # ns) })"

declare rb_walk.simps [code]

lemma walk_suffix:
  "rbtree h t \<Longrightarrow> inorder t = xs @ ys \<Longrightarrow> rb_walk (case ys of [] \<Rightarrow> 0 | y # zs \<Rightarrow> y) h = Some ys"
proof (induction ys arbitrary: xs)
  case Nil
  then show ?case by (subst rb_walk.simps) simp
next
  case (Cons y ys)
  have y: "y \<noteq> 0" "y \<notin> set xs" using Cons.prems tree_at_0 [of h 0 t] by (auto simp: rbtree_def)
  have "rb_next y h = Some (case ys of [] \<Rightarrow> 0 | z # zs \<Rightarrow> z)"
    using rb_next_after [OF Cons.prems(1), of y] after_split [OF y(2)] Cons.prems(2) by simp
  then show ?case using Cons.IH [of "xs @ [y]"] Cons.prems y(1) by (subst rb_walk.simps) simp
qed

lemma rb_walk_ok:
  assumes "rbtree h t"
  shows "rb_first h \<bind> (\<lambda>n. rb_walk n h) = Some (inorder t)"
  using walk_suffix [OF assms, of "[]" "inorder t"] rb_first_last(1) [OF assms]
  by (cases t; cases "inorder t") auto

subsection \<open>Height\<close>

fun rheight :: "rtree \<Rightarrow> nat" where
  "rheight Lf = 0"
| "rheight (Nd l a c r) = Suc (max (rheight l) (rheight r))"

lemma rheight_bh: "invc t \<Longrightarrow> invh t \<Longrightarrow> rheight t \<le> 2 * bh t + (if root_black t then 0 else 1)"
  by (induction t) (auto split: if_splits)

lemma bh_size: "invh t \<Longrightarrow> 2 ^ bh t \<le> Suc (length (inorder t))"
  by (induction t) (auto split: if_splits)

lemma red_black_height: "red_black t \<Longrightarrow> 2 ^ ((rheight t + 1) div 2) \<le> Suc (length (inorder t))"
proof -
  assume t: "red_black t"
  then have "(rheight t + 1) div 2 \<le> bh t" using rheight_bh [of t] by (auto simp: red_black_def)
  then have "(2::nat) ^ ((rheight t + 1) div 2) \<le> 2 ^ bh t" by (rule power_increasing) simp
  also have "\<dots> \<le> Suc (length (inorder t))" using t bh_size by (simp add: red_black_def)
  finally show ?thesis .
qed

subsection \<open>The contract for clients\<close>

text \<open>What a user of the trees relies on: a heap holds nodes in an order, a search ends at a gap between two neighbours, and a
  new node fills the gap. The order itself is the client's.\<close>

locale ordered_nodes =
  fixes holds :: "'h \<Rightarrow> addr list \<Rightarrow> bool"
    and gap :: "'h \<Rightarrow> 'p \<Rightarrow> addr list \<Rightarrow> addr list \<Rightarrow> bool"
    and insert_at :: "addr \<Rightarrow> 'p \<Rightarrow> 'h \<Rightarrow> 'h option"
    and remove :: "addr \<Rightarrow> 'h \<Rightarrow> 'h option"
    and walk :: "'h \<Rightarrow> addr list option"
    and valid :: "addr \<Rightarrow> bool"
  assumes insert_law: "gap h p xs ys \<Longrightarrow> valid n \<Longrightarrow> n \<notin> set (xs @ ys) \<Longrightarrow>
      \<exists>h'. insert_at n p h = Some h' \<and> holds h' (xs @ n # ys)"
    and remove_law: "holds h xs \<Longrightarrow> n \<in> set xs \<Longrightarrow> \<exists>h'. remove n h = Some h' \<and> holds h' (remove1 n xs)"
    and walk_law: "holds h xs \<Longrightarrow> walk h = Some xs"
    and gap_holds: "gap h p xs ys \<Longrightarrow> holds h (xs @ ys)"
begin

lemma insert_remove:
  assumes "gap h p xs ys" "valid n" "n \<notin> set (xs @ ys)"
  shows "\<exists>h1 h2. insert_at n p h = Some h1 \<and> remove n h1 = Some h2 \<and> holds h2 (xs @ ys) \<and> walk h2 = walk h"
proof -
  obtain h1 where h1: "insert_at n p h = Some h1" "holds h1 (xs @ n # ys)" using insert_law [OF assms] by blast
  obtain h2 where h2: "remove n h1 = Some h2" "holds h2 (remove1 n (xs @ n # ys))" using remove_law [OF h1(2)] by auto
  have "remove1 n (xs @ n # ys) = xs @ ys" using assms(3) by (simp add: remove1_append)
  then show ?thesis using h1(1) h2 walk_law [OF gap_holds [OF assms(1)]] walk_law by force
qed

lemma insert_sorted:
  fixes key :: "addr \<Rightarrow> 'k::linorder"
  assumes "gap h p xs ys" "valid n" "sorted_wrt (<) (map key (xs @ ys))" "\<forall>x\<in>set xs. key x < key n" "\<forall>y\<in>set ys. key n < key y"
  shows "\<exists>h'. insert_at n p h = Some h' \<and> holds h' (xs @ n # ys) \<and> sorted_wrt (<) (map key (xs @ n # ys))"
proof -
  have "n \<notin> set (xs @ ys)" using assms(4,5) by auto
  moreover have "sorted_wrt (<) (map key (xs @ n # ys))"
    using assms(3-5) by (auto simp: sorted_wrt_append)
  ultimately show ?thesis using insert_law [OF assms(1,2)] by blast
qed

end

definition rb_seq :: "rb_heap \<Rightarrow> addr list \<Rightarrow> bool" where
  "rb_seq h xs \<longleftrightarrow> (\<exists>t. rbtree h t \<and> red_black t \<and> inorder t = xs)"

definition rb_gap :: "rb_heap \<Rightarrow> addr \<times> rb_link \<Rightarrow> addr list \<Rightarrow> addr list \<Rightarrow> bool" where
  "rb_gap h p xs ys \<longleftrightarrow>
     (\<exists>fs. rbtree h (plug fs Lf) \<and> red_black (plug fs Lf) \<and> p = (ctx_par fs, ctx_link fs) \<and> xs = ctx_pre fs \<and> ys = ctx_post fs)"

definition rb_insert :: "addr \<Rightarrow> addr \<times> rb_link \<Rightarrow> rb_heap \<Rightarrow> rb_heap option" where
  "rb_insert n p h = rb_insert_color n (rb_link_node n (fst p) (snd p) h)"

definition rb_walk_all :: "rb_heap \<Rightarrow> addr list option" where
  "rb_walk_all h = rb_first h \<bind> (\<lambda>n. rb_walk n h)"

definition rb_valid :: "addr \<Rightarrow> bool" where
  "rb_valid n \<longleftrightarrow> n \<noteq> 0 \<and> 4 dvd n"

interpretation rbt: ordered_nodes rb_seq rb_gap rb_insert rb_erase rb_walk_all rb_valid
proof unfold_locales
  fix h p xs ys n
  assume g: "rb_gap h p xs ys" and n: "rb_valid n" "n \<notin> set (xs @ ys)"
  then obtain fs where "rbtree h (plug fs Lf)" "red_black (plug fs Lf)" "p = (ctx_par fs, ctx_link fs)" "xs = ctx_pre fs" "ys = ctx_post fs"
    unfolding rb_gap_def by blast
  then show "\<exists>h'. rb_insert n p h = Some h' \<and> rb_seq h' (xs @ n # ys)"
    using rb_insert_ok [of h fs n] n unfolding rb_insert_def rb_seq_def rb_valid_def by (auto simp: inorder_plug)
next
  show "\<exists>h'. rb_erase n h = Some h' \<and> rb_seq h' (remove1 n xs)" if "rb_seq h xs" "n \<in> set xs" for h xs n
    using that rb_erase_ok unfolding rb_seq_def by fastforce
  show "rb_walk_all h = Some xs" if "rb_seq h xs" for h xs
    using that rb_walk_ok unfolding rb_seq_def rb_walk_all_def by auto
  show "rb_seq h (xs @ ys)" if "rb_gap h p xs ys" for h p xs ys
    using that unfolding rb_seq_def rb_gap_def by (force simp: inorder_plug)
qed

subsection \<open>Properties\<close>

text \<open>C8: linking a new node at the end of a search and calling \<open>rb_insert_color\<close> keeps a red-black tree. The call ends, follows
  no NULL pointer and gives a heap whose pointers, packed parent words and colours again form one tree; the order of
  the nodes is the old one with the new node in the gap, no red node has a red child, all paths have equally many black nodes, and
  a tree of height \<open>d\<close> has at least \<open>2 ^ \<lceil>d/2\<rceil> - 1\<close> nodes.\<close>

theorem rb_insert_correct:
  assumes "rbtree h (plug fs Lf)" "red_black (plug fs Lf)" "n \<noteq> 0" "4 dvd n" "n \<notin> set (inorder (plug fs Lf))"
  shows "\<exists>h' t. rb_insert_color n (rb_link_node n (ctx_par fs) (ctx_link fs) h) = Some h' \<and> rbtree h' t \<and> red_black t \<and>
    inorder t = ctx_pre fs @ n # ctx_post fs \<and> 2 ^ ((rheight t + 1) div 2) \<le> length (inorder t) + 1"
proof -
  obtain h' t where t: "rb_insert_color n (rb_link_node n (ctx_par fs) (ctx_link fs) h) = Some h'" "rbtree h' t" "red_black t"
    "inorder t = ctx_pre fs @ n # ctx_post fs" using rb_insert_ok [OF assms] by blast
  then show ?thesis using red_black_height [OF t(3)] by auto
qed

text \<open>C4: \<open>rb_erase\<close> of a node of a red-black tree ends, follows no NULL pointer and leaves a red-black tree with the other nodes in
  their order; a node that was inserted and erased again leaves the traversal as it was.\<close>

theorem rb_erase_correct:
  assumes "rb_gap h p xs ys" "rb_valid n" "n \<notin> set (xs @ ys)" "x \<in> set (xs @ ys)"
  shows "(\<exists>h' t. rb_erase x h = Some h' \<and> rbtree h' t \<and> red_black t \<and> inorder t = remove1 x (xs @ ys) \<and>
      rb_walk_all h' = Some (remove1 x (xs @ ys))) \<and>
    (\<exists>h1 h2. rb_insert n p h = Some h1 \<and> rb_erase n h1 = Some h2 \<and> rb_walk_all h2 = rb_walk_all h)"
proof
  obtain h' where h': "rb_erase x h = Some h'" "rb_seq h' (remove1 x (xs @ ys))"
    using rbt.remove_law [OF rbt.gap_holds [OF assms(1)] assms(4)] by blast
  then show "\<exists>h' t. rb_erase x h = Some h' \<and> rbtree h' t \<and> red_black t \<and> inorder t = remove1 x (xs @ ys) \<and>
      rb_walk_all h' = Some (remove1 x (xs @ ys))"
    using rbt.walk_law [OF h'(2)] unfolding rb_seq_def by blast
  show "\<exists>h1 h2. rb_insert n p h = Some h1 \<and> rb_erase n h1 = Some h2 \<and> rb_walk_all h2 = rb_walk_all h"
    using rbt.insert_remove [OF assms(1-3)] by blast
qed

text \<open>A tree of three nodes.\<close>

definition rb_empty :: rb_heap where
  "rb_empty = \<lparr>rb_nodes = (\<lambda>_. \<lparr>rb_parent_color = 0, rb_right = 0, rb_left = 0\<rparr>), rb_root = 0\<rparr>"

definition rb_three :: rb_heap where
  "rb_three = the (rb_insert 12 (8, Link_right 8) (the (rb_insert 8 (4, Link_right 4) (the (rb_insert 4 (0, Link_root) rb_empty)))))"

definition three :: rtree where
  "three = Nd (Nd Lf 4 False Lf) 8 True (Nd Lf 12 False Lf)"

lemma rb_three_tree: "rbtree rb_three three" "red_black three"
proof -
  have "rb_root rb_three = 8" by code_simp
  moreover have "rb_parent rb_three 8 = 0" "rb_is_black rb_three 8" "lft rb_three 8 = 4" "rgt rb_three 8 = 12" by code_simp+
  moreover have "rb_parent rb_three 4 = 8" "\<not> rb_is_black rb_three 4" "lft rb_three 4 = 0" "rgt rb_three 4 = 0" by code_simp+
  moreover have "rb_parent rb_three 12 = 8" "\<not> rb_is_black rb_three 12" "lft rb_three 12 = 0" "rgt rb_three 12 = 0" by code_simp+
  ultimately show "rbtree rb_three three" by (simp add: rbtree_def three_def)
  show "red_black three" by (simp add: three_def red_black_def)
qed

lemma rb_three_gap: "rb_gap rb_three (12, Link_left 12) [4, 8] [12]"
proof -
  let ?fs = "[FL 12 False Lf, FR (Nd Lf 4 False Lf) 8 True]"
  have "plug ?fs Lf = three" by (simp add: three_def)
  then show ?thesis unfolding rb_gap_def by (intro exI [of _ ?fs]) (use rb_three_tree in simp)
qed

theorem rb_insert_correct_witness:
  "\<exists>h' t. rb_insert_color 16 (rb_link_node 16 12 (Link_left 12) rb_three) = Some h' \<and> rbtree h' t \<and> red_black t \<and>
     inorder t = [4, 8, 16, 12]"
proof -
  have p: "plug [FL 12 False Lf, FR (Nd Lf 4 False Lf) 8 True] Lf = three" by (simp add: three_def)
  show ?thesis
    using rb_insert_correct [of rb_three "[FL 12 False Lf, FR (Nd Lf 4 False Lf) 8 True]" 16, unfolded p] rb_three_tree
    by (auto simp: three_def)
qed

theorem rb_erase_correct_witness:
  "\<exists>h' t. rb_erase 8 rb_three = Some h' \<and> rbtree h' t \<and> red_black t \<and> inorder t = [4, 12]"
  using rb_erase_correct [OF rb_three_gap, of 16 8] by (auto simp: rb_valid_def)

end
