(* ===== verification/User_Wakelock.thy ===== *)
theory User_Wakelock
  imports Kernel_Slab Wakelock Kernel_RBTree "HOL-Library.Char_ord" "HOL-Library.List_Lexorder"
begin

text \<open>The wake locks of user space, \<open>kernel/power/userwakelock.c\<close>: the files \<open>/sys/power/wake_lock\<close> and \<open>/sys/power/wake_unlock\<close>.
  A write to the first takes the lock of the given name, with an optional timeout in nanoseconds, and creates it when it is new; a
  write to the second releases it; reading lists the active and the inactive locks. The locks are kept in a red-black tree by
  name. The functions of \<open>lib/vsprintf.c\<close>, \<open>lib/string.c\<close> and \<open>include/linux/ctype.h\<close> that the code calls are part of the model. Strings
  are lists of characters without the terminating NUL, so a pointer into a string is a suffix. The mutex \<open>tree_lock\<close>
  makes each operation one step; the messages of the debug masks are left out.

  The lemmas show that the search agrees with the order of the names, that every operation keeps the tree and the wake lock
  machine, which locks are held after each write, what reading gives and how timeouts are converted.\<close>

unbundle bit_operations_syntax

section \<open>The model\<close>

subsection \<open>Characters and numbers\<close>

definition char_at :: "string \<Rightarrow> nat \<Rightarrow> nat" where
  "char_at cs i = (if i < length cs then of_char (cs ! i) else 0)"

text \<open>The table of character classes, and the classes that are used.\<close>

definition ctype :: "nat list" where
  "ctype = (let U = 0x01; L = 0x02; D = 0x04; C = 0x08; P = 0x10; S = 0x20; X = 0x40; SP = 0x80 in
     [C, C, C, C, C, C, C, C,
      C, C OR S, C OR S, C OR S, C OR S, C OR S, C, C,
      C, C, C, C, C, C, C, C,
      C, C, C, C, C, C, C, C,
      S OR SP, P, P, P, P, P, P, P,
      P, P, P, P, P, P, P, P,
      D, D, D, D, D, D, D, D,
      D, D, P, P, P, P, P, P,
      P, U OR X, U OR X, U OR X, U OR X, U OR X, U OR X, U,
      U, U, U, U, U, U, U, U,
      U, U, U, U, U, U, U, U,
      U, U, U, P, P, P, P, P,
      P, L OR X, L OR X, L OR X, L OR X, L OR X, L OR X, L,
      L, L, L, L, L, L, L, L,
      L, L, L, L, L, L, L, L,
      L, L, L, P, P, P, P, C,
      0, 0, 0, 0, 0, 0, 0, 0, 0, 0, 0, 0, 0, 0, 0, 0,
      0, 0, 0, 0, 0, 0, 0, 0, 0, 0, 0, 0, 0, 0, 0, 0,
      S OR SP, P, P, P, P, P, P, P, P, P, P, P, P, P, P, P,
      P, P, P, P, P, P, P, P, P, P, P, P, P, P, P, P,
      U, U, U, U, U, U, U, U, U, U, U, U, U, U, U, U,
      U, U, U, U, U, U, U, P, U, U, U, U, U, U, U, L,
      L, L, L, L, L, L, L, L, L, L, L, L, L, L, L, L,
      L, L, L, L, L, L, L, P, L, L, L, L, L, L, L, L])"

definition isspace :: "char \<Rightarrow> bool" where
  "isspace c \<longleftrightarrow> ctype ! of_char c AND 0x20 \<noteq> 0"

definition isdigit :: "nat \<Rightarrow> bool" where
  "isdigit n \<longleftrightarrow> ctype ! n AND 0x04 \<noteq> 0"

definition isxdigit :: "nat \<Rightarrow> bool" where
  "isxdigit n \<longleftrightarrow> ctype ! n AND (0x04 OR 0x40) \<noteq> 0"

definition TOLOWER :: "nat \<Rightarrow> nat" where
  "TOLOWER n = n OR 0x20"

fun strncmp :: "string \<Rightarrow> string \<Rightarrow> nat \<Rightarrow> int" where
  "strncmp cs ct 0 = 0"
| "strncmp cs ct (Suc count) =
     (let c1 = char_at cs 0; c2 = char_at ct 0 in
      if c1 \<noteq> c2 then (if c1 < c2 then -1 else 1)
      else if c1 = 0 then 0
      else strncmp (tl cs) (tl ct) count)"

definition simple_guess_base :: "string \<Rightarrow> nat" where
  "simple_guess_base cp =
     (if char_at cp 0 = 48 then if TOLOWER (char_at cp 1) = 120 \<and> isxdigit (char_at cp 2) then 16 else 8
      else 10)"

fun strtoull_loop :: "nat \<Rightarrow> u64 \<Rightarrow> string \<Rightarrow> u64 \<times> string" where
  "strtoull_loop b result [] = (result, [])"
| "strtoull_loop b result (c # cs) =
     (let n = of_char c in
      if isxdigit n then
        let v = (if isdigit n then n - 48 else TOLOWER n - 97 + 10) in
        if b \<le> v then (result, c # cs) else strtoull_loop b (result * of_nat b + of_nat v) cs
      else (result, c # cs))"

definition simple_strtoull :: "string \<Rightarrow> nat \<Rightarrow> u64 \<times> string" where
  "simple_strtoull cp b =
     (let b = (if b = 0 then simple_guess_base cp else b);
          cp = (if b = 16 \<and> char_at cp 0 = 48 \<and> TOLOWER (char_at cp 1) = 120 then drop 2 cp else cp)
      in strtoull_loop b 0 cp)"

subsection \<open>User-space wake locks\<close>

text \<open>The structures are the objects of a cache, whose content is the name. The node of the tree is the first member, so the
  address of a structure is the address of its node; it is a multiple of 4, four times the number of the
  object. The wake lock in a structure is registered under the same address.\<close>

record user_locks =
  user_wake_locks :: rb_heap
  user_names :: "string kheap"
  wlocks :: wakelocks

definition name_of :: "user_locks \<Rightarrow> addr \<Rightarrow> string" where
  "name_of s l = deref (user_names s) (l div 4)"

text \<open>Nanoseconds to jiffies, at least one, in 64 bits; \<open>long\<close> keeps the lower 32. With HZ 200 a jiffy has 5000000
  nanoseconds.\<close>

definition timeout_jiffies :: "u64 \<Rightarrow> u32" where
  "timeout_jiffies t =
     (let t = (t + 4999999) div 5000000; t = (if t \<le> 0 then 1 else t) in ucast t)"

definition parse_lock :: "string \<Rightarrow> bool \<Rightarrow> (string \<times> u32) option" where
  "parse_lock buf timeoutptr =
     (let name = takeWhile (\<lambda>c. \<not> isspace c) buf;
          arg = dropWhile isspace (dropWhile (\<lambda>c. \<not> isspace c) buf) in
      if name = [] then None
      else if timeoutptr \<and> arg \<noteq> [] then
        let (timeout, arg) = simple_strtoull arg 0 in
        if dropWhile isspace arg \<noteq> [] then None else Some (name, timeout_jiffies timeout)
      else if arg \<noteq> [] then None
      else Some (name, 0))"

definition compare_name :: "string \<Rightarrow> nat \<Rightarrow> string \<Rightarrow> int" where
  "compare_name buf name_len name =
     (let diff = strncmp buf name name_len in if diff = 0 \<and> char_at name name_len \<noteq> 0 then -1 else diff)"

partial_function (option) lookup_loop ::
    "string \<Rightarrow> nat \<Rightarrow> user_locks \<Rightarrow> addr \<Rightarrow> addr \<Rightarrow> rb_link \<Rightarrow> (addr + addr \<times> rb_link) option" where
  "lookup_loop buf name_len s node parent link =
     (if node = 0 then Some (Inr (parent, link))
      else
        let diff = compare_name buf name_len (name_of s node) in
        if diff < 0 then lookup_loop buf name_len s (lft (user_wake_locks s) node) node (Link_left node)
        else if diff > 0 then lookup_loop buf name_len s (rgt (user_wake_locks s) node) node (Link_right node)
        else Some (Inl node))"

declare lookup_loop.simps [code]

definition lookup_wake_lock_name ::
    "string \<Rightarrow> bool \<Rightarrow> bool \<Rightarrow> user_locks \<Rightarrow> ((errno + addr \<times> u32) \<times> user_locks) option" where
  "lookup_wake_lock_name buf allocate timeoutptr s =
     (case parse_lock buf timeoutptr of
        None \<Rightarrow> Some (Inl EINVAL, s)
      | Some (name, timeout) \<Rightarrow> do {
          r \<leftarrow> lookup_loop buf (length name) s (rb_root (user_wake_locks s)) 0 Link_root;
          (case r of
             Inl l \<Rightarrow> Some (Inr (l, timeout), s)
           | Inr (parent, p) \<Rightarrow>
               if \<not> allocate then Some (Inl EINVAL, s)
               else case kzalloc name (user_names s) of
                 (None, names) \<Rightarrow> Some (Inl ENOMEM, s\<lparr>user_names := names\<rparr>)
               | (Some a, names) \<Rightarrow> do {
                   let l = 4 * a;
                   let w = wake_lock_init l (of_nat WAKE_LOCK_SUSPEND) name (wlocks s);
                   h \<leftarrow> rb_insert_color l (rb_link_node l parent p (user_wake_locks s));
                   Some (Inr (l, timeout), s\<lparr>user_wake_locks := h, user_names := names, wlocks := w\<rparr>)
                 })
        })"

text \<open>The buffer of a write ends at its first NUL; its length is the result when the write succeeds.\<close>

definition c_string :: "string \<Rightarrow> string" where
  "c_string buf = takeWhile (\<lambda>c. c \<noteq> CHR 0x00) buf"

definition wake_lock_store :: "string \<Rightarrow> user_locks \<Rightarrow> ((errno + nat) \<times> user_locks) option" where
  "wake_lock_store buf s = do {
     (r, s) \<leftarrow> lookup_wake_lock_name (c_string buf) True True s;
     (case r of
        Inl e \<Rightarrow> Some (Inl e, s)
      | Inr (l, timeout) \<Rightarrow> do {
          w \<leftarrow> (if timeout \<noteq> 0 then wake_lock_timeout l timeout (wlocks s) else wake_lock l (wlocks s));
          Some (Inr (length buf), s\<lparr>wlocks := w\<rparr>)
        })
   }"

definition wake_unlock_store :: "string \<Rightarrow> user_locks \<Rightarrow> ((errno + nat) \<times> user_locks) option" where
  "wake_unlock_store buf s = do {
     (r, s) \<leftarrow> lookup_wake_lock_name (c_string buf) False False s;
     (case r of
        Inl e \<Rightarrow> Some (Inl e, s)
      | Inr (l, timeout) \<Rightarrow> Some (Inr (length buf), s\<lparr>wlocks := wake_unlock l (wlocks s)\<rparr>))
   }"

definition scnprintf :: "nat \<Rightarrow> string \<Rightarrow> string" where
  "scnprintf bytes text = take (bytes - 1) text"

definition SHOW_SIZE :: nat where "SHOW_SIZE = 4096"

fun show_loop :: "(addr \<Rightarrow> bool) \<Rightarrow> user_locks \<Rightarrow> addr list \<Rightarrow> string \<Rightarrow> string" where
  "show_loop P s [] out = out @ scnprintf (SHOW_SIZE - length out) [CHR 0x0A]"
| "show_loop P s (l # ls) out =
     show_loop P s ls (if P l then out @ scnprintf (SHOW_SIZE - length out) (name_of s l @ '' '') else out)"

definition wake_lock_show :: "user_locks \<Rightarrow> string option" where
  "wake_lock_show s = do {
     ls \<leftarrow> rb_walk_all (user_wake_locks s);
     Some (show_loop (wake_lock_active (wlocks s)) s ls [])
   }"

definition wake_unlock_show :: "user_locks \<Rightarrow> string option" where
  "wake_unlock_show s = do {
     ls \<leftarrow> rb_walk_all (user_wake_locks s);
     Some (show_loop (\<lambda>l. \<not> wake_lock_active (wlocks s) l) s ls [])
   }"

section \<open>Lookup\<close>

text \<open>The classes of the table.\<close>

lemma ctype_space: "list_all (\<lambda>n. (ctype ! n AND 0x20 \<noteq> 0) = (9 \<le> n \<and> n \<le> 13 \<or> n = 32 \<or> n = 160)) [0..<256]" by code_simp
lemma ctype_digit: "list_all (\<lambda>n. (ctype ! n AND 0x04 \<noteq> 0) = (48 \<le> n \<and> n \<le> 57)) [0..<256]" by code_simp
lemma ctype_xdigit: "list_all (\<lambda>n. (ctype ! n AND (0x04 OR 0x40) \<noteq> 0) = (48 \<le> n \<and> n \<le> 57 \<or> 65 \<le> n \<and> n \<le> 70 \<or> 97 \<le> n \<and> n \<le> 102)) [0..<256]"
  by code_simp

lemma of_char_256: "of_char c < (256::nat)"
  by (metis of_char_mod_256 mod_less_divisor zero_less_numeral)

lemma isspace_iff: "isspace c \<longleftrightarrow> (let n = (of_char c :: nat) in 9 \<le> n \<and> n \<le> 13 \<or> n = 32 \<or> n = 160)"
  using ctype_space of_char_256 [of c] by (simp add: isspace_def list_all_iff Let_def)

lemma isdigit_iff: "n < 256 \<Longrightarrow> isdigit n \<longleftrightarrow> 48 \<le> n \<and> n \<le> 57"
  using ctype_digit by (simp add: isdigit_def list_all_iff)

lemma isxdigit_iff: "n < 256 \<Longrightarrow> isxdigit n \<longleftrightarrow> isdigit n \<or> 65 \<le> n \<and> n \<le> 70 \<or> 97 \<le> n \<and> n \<le> 102"
  using ctype_xdigit by (simp add: isxdigit_def isdigit_iff list_all_iff)

lemma of_char_0: "of_char c = (0::nat) \<longleftrightarrow> c = CHR 0x00"
proof -
  have "of_char (CHR 0x00) = (0::nat)" by simp
  then show ?thesis by (metis of_char_eq_iff)
qed

lemma char_at_Cons [simp]: "char_at (c # cs) 0 = of_char c" "char_at (c # cs) (Suc n) = char_at cs n" "char_at [] n = 0"
  by (simp_all add: char_at_def)

lemma char_at_0: "CHR 0x00 \<notin> set cs \<Longrightarrow> char_at cs 0 = 0 \<longleftrightarrow> cs = []"
  by (cases cs) (auto simp: of_char_0)

lemma compare_0: "compare_name buf 0 name = (if char_at name 0 \<noteq> 0 then -1 else 0)"
  by (simp add: compare_name_def)

lemma compare_Suc:
  assumes "c \<noteq> CHR 0x00"
  shows "compare_name (c # cs) (Suc n) [] = 1"
    "compare_name (c # cs) (Suc n) (d # ds) = (if c = d then compare_name cs n ds else if c < d then -1 else 1)"
  using assms of_char_eq_iff [of c d, where 'a = nat]
  by (simp_all add: compare_name_def Let_def of_char_0 less_char_def)

lemma compare_name:
  "n \<le> length buf \<Longrightarrow> CHR 0x00 \<notin> set (take n buf) \<Longrightarrow> CHR 0x00 \<notin> set name \<Longrightarrow>
   (compare_name buf n name = 0 \<longleftrightarrow> take n buf = name) \<and> (compare_name buf n name < 0 \<longleftrightarrow> take n buf < name)"
proof (induction n arbitrary: buf name)
  case 0
  then show ?case using char_at_0 [of name] by (cases name) (simp_all add: compare_0)
next
  case (Suc n)
  obtain c cs where b: "buf = c # cs" using Suc.prems(1) by (cases buf) auto
  have c: "c \<noteq> CHR 0x00" using Suc.prems(2) b by auto
  show ?case
  proof (cases name)
    case (Cons d ds)
    then show ?thesis using Suc.IH [of cs ds] Suc.prems b c by (auto simp: compare_Suc(2) [OF c])
  qed (simp add: b compare_Suc(1) [OF c])
qed

lemma lookup_tree:
  fixes s :: user_locks
  defines "h \<equiv> user_wake_locks s" and "nm \<equiv> name_of s"
  assumes w: "w = take n buf" "n \<le> length buf" "CHR 0x00 \<notin> set w"
  shows "rbtree h (plug fs t) \<Longrightarrow> sorted_wrt (<) (map nm (inorder t)) \<Longrightarrow>
    \<forall>l\<in>set (inorder t). CHR 0x00 \<notin> set (nm l) \<Longrightarrow> \<forall>l\<in>set (ctx_pre fs). nm l < w \<Longrightarrow> \<forall>l\<in>set (ctx_post fs). w < nm l \<Longrightarrow>
    (\<exists>l\<in>set (inorder t). nm l = w \<and> lookup_loop buf n s (root_of t) (ctx_par fs) (ctx_link fs) = Some (Inl l)) \<or>
    (\<exists>gs. plug gs Lf = plug fs t \<and> lookup_loop buf n s (root_of t) (ctx_par fs) (ctx_link fs) = Some (Inr (ctx_par gs, ctx_link gs)) \<and>
      (\<forall>l\<in>set (ctx_pre gs). nm l < w) \<and> (\<forall>l\<in>set (ctx_post gs). w < nm l))"
proof (induction t arbitrary: fs)
  case Lf
  have "lookup_loop buf n s 0 (ctx_par fs) (ctx_link fs) = Some (Inr (ctx_par fs, ctx_link fs))" by (subst lookup_loop.simps) simp
  then show ?case using Lf.prems(4,5) by auto
next
  case (Nd l a c r)
  have v: "a \<noteq> 0" "lft h a = root_of l" "rgt h a = root_of r" using Nd.prems(1) unfolding rbtree_plug by auto
  have cmp: "compare_name buf n (nm a) = 0 \<longleftrightarrow> w = nm a" "compare_name buf n (nm a) < 0 \<longleftrightarrow> w < nm a"
    using compare_name [of n buf "nm a"] w Nd.prems(3) by auto
  have srt: "sorted_wrt (<) (map nm (inorder l))" "sorted_wrt (<) (map nm (inorder r))"
    "\<forall>x\<in>set (inorder l). nm x < nm a" "\<forall>x\<in>set (inorder r). nm a < nm x" using Nd.prems(2) by (auto simp: sorted_wrt_append)
  have e: "lookup_loop buf n s a (ctx_par fs) (ctx_link fs) =
      (if w < nm a then lookup_loop buf n s (root_of l) a (Link_left a)
       else if w = nm a then Some (Inl a) else lookup_loop buf n s (root_of r) a (Link_right a))"
    using v cmp unfolding h_def nm_def by (subst lookup_loop.simps) (auto simp: Let_def)
  consider "w < nm a" | "w = nm a" | "nm a < w" by fastforce
  then show ?case
  proof cases
    case 1
    have "\<forall>x\<in>set (ctx_post (FL a c r # fs)). w < nm x" using 1 srt(4) Nd.prems(5) by auto
    then show ?thesis using Nd.IH(1) [of "FL a c r # fs"] Nd.prems srt(1) e 1 by auto
  next
    case 3
    have "\<forall>x\<in>set (ctx_pre (FR l a c # fs)). nm x < w" using 3 srt(3) Nd.prems(4) by auto
    then show ?thesis using Nd.IH(2) [of "FR l a c # fs"] Nd.prems srt(2) e 3 by auto
  qed (use e in auto)
qed

definition user_inv :: "user_locks \<Rightarrow> addr list \<Rightarrow> bool" where
  "user_inv s xs \<longleftrightarrow> kheap_ok (user_names s) \<and> rb_seq (user_wake_locks s) xs \<and>
     set xs = (\<lambda>a. 4 * a) ` dom (kobj (user_names s)) \<and> sorted_wrt (<) (map (name_of s) xs) \<and>
     (\<forall>l\<in>set xs. CHR 0x00 \<notin> set (name_of s l) \<and> l \<in> wl_known (wlocks s) \<and> lock_type (locks (wlocks s) l) = 0) \<and>
     (\<forall>a\<ge>knext (user_names s). 4 * a \<notin> wl_known (wlocks s))"

lemma lookup_found:
  assumes inv: "user_inv s xs" and w: "w = take n buf" "n \<le> length buf" "CHR 0x00 \<notin> set w"
  shows "(\<exists>l\<in>set xs. name_of s l = w \<and> lookup_loop buf n s (rb_root (user_wake_locks s)) 0 Link_root = Some (Inl l)) \<or>
    (\<exists>p ys zs. rb_gap (user_wake_locks s) p ys zs \<and> xs = ys @ zs \<and>
      lookup_loop buf n s (rb_root (user_wake_locks s)) 0 Link_root = Some (Inr p) \<and>
      (\<forall>l\<in>set ys. name_of s l < w) \<and> (\<forall>l\<in>set zs. w < name_of s l))"
proof -
  obtain t where t: "rbtree (user_wake_locks s) t" "red_black t" "inorder t = xs"
    using inv unfolding user_inv_def rb_seq_def by blast
  have "rb_root (user_wake_locks s) = root_of t" using t(1) by (simp add: rbtree_def)
  with lookup_tree [OF w, where fs = "[]" and t = t and s = s] t(1,3) inv
  consider l where "l \<in> set xs" "name_of s l = w" "lookup_loop buf n s (rb_root (user_wake_locks s)) 0 Link_root = Some (Inl l)"
    | gs where "plug gs Lf = t" "lookup_loop buf n s (rb_root (user_wake_locks s)) 0 Link_root = Some (Inr (ctx_par gs, ctx_link gs))"
      "\<forall>l\<in>set (ctx_pre gs). name_of s l < w" "\<forall>l\<in>set (ctx_post gs). w < name_of s l"
    unfolding user_inv_def by auto
  then show ?thesis
  proof cases
    case 2
    then have "rb_gap (user_wake_locks s) (ctx_par gs, ctx_link gs) (ctx_pre gs) (ctx_post gs)" "xs = ctx_pre gs @ ctx_post gs"
      using t unfolding rb_gap_def by (auto simp: inorder_plug)
    then show ?thesis using 2 by blast
  qed blast
qed

lemma parse_name:
  assumes "parse_lock buf tp = Some (w, d)"
  shows "w = take (length w) buf" "length w \<le> length buf" "w \<noteq> []" "\<forall>c\<in>set w. \<not> isspace c" "set w \<subseteq> set buf"
proof -
  define x where "x = takeWhile (\<lambda>c. \<not> isspace c) buf"
  define arg where "arg = dropWhile isspace (dropWhile (\<lambda>c. \<not> isspace c) buf)"
  obtain t rest where st: "simple_strtoull arg 0 = (t, rest)" by fastforce
  have "parse_lock buf tp = (if x = [] then None else if tp \<and> arg \<noteq> [] then
      if dropWhile isspace rest \<noteq> [] then None else Some (x, timeout_jiffies t) else if arg \<noteq> [] then None else Some (x, 0))"
    unfolding parse_lock_def Let_def x_def [symmetric] arg_def [symmetric] st prod.case ..
  then have w: "w = takeWhile (\<lambda>c. \<not> isspace c) buf" "w \<noteq> []"
    using assms unfolding x_def [symmetric] by (simp_all split: if_split_asm)
  show "w = take (length w) buf" unfolding w(1) by (rule takeWhile_eq_take)
  show "length w \<le> length buf" unfolding w(1) by (rule length_takeWhile_le)
  show "w \<noteq> []" by (rule w(2))
  show "\<forall>c\<in>set w. \<not> isspace c" unfolding w(1) by (auto dest: set_takeWhileD)
  show "set w \<subseteq> set buf" unfolding w(1) by (auto dest: set_takeWhileD)
qed

text \<open>A new structure: a fresh object, registered as an inactive suspend lock, and its node in the gap the search found.\<close>

lemma known_init: "wl_known (wake_lock_init l t name w) = insert l (wl_known w)"
  by (auto simp: wl_known_def wake_lock_init_def add_inactive_def upd_lock_def)

lemma type_init:
  "lock_type (locks (wake_lock_init l (of_nat WAKE_LOCK_SUSPEND) name w) k) = (if k = l then 0 else lock_type (locks w k))"
proof -
  have "v_type (views (wl_abs_of (wake_lock_init l 0 name w)) k) = (if k = l then 0 else lock_type (locks w k))"
    unfolding abs_init by (simp add: a_init_def)
  then show ?thesis by (simp add: WAKE_LOCK_SUSPEND_def)
qed

lemma user_new:
  assumes inv: "user_inv s (ys @ zs)" and g: "rb_gap (user_wake_locks s) p ys zs" and w: "CHR 0x00 \<notin> set w"
    and lt: "\<forall>l\<in>set ys. name_of s l < w" "\<forall>l\<in>set zs. w < name_of s l" and k: "kzalloc w (user_names s) = (Some a, names)"
  shows "\<exists>h. rb_insert (4 * a) p (user_wake_locks s) = Some h \<and>
    user_inv (s\<lparr>user_wake_locks := h, user_names := names, wlocks := wake_lock_init (4 * a) (of_nat WAKE_LOCK_SUSPEND) w (wlocks s)\<rparr>)
      (ys @ 4 * a # zs) \<and> 4 * a \<notin> wl_known (wlocks s) \<and> 4 * a \<notin> set (ys @ zs) \<and>
    deref names a = w \<and> (\<forall>l\<in>set (ys @ zs). deref names (l div 4) = name_of s l)"
proof -
  have ok: "kheap_ok (user_names s)" using inv by (simp add: user_inv_def)
  have al: "kheap_ok names" "a \<noteq> 0" "kobj (user_names s) a = None" "kobj names = (kobj (user_names s))(a \<mapsto> w)"
    using slab.alloc_Some [OF ok k] by auto
  have nx: "a = knext (user_names s)" "knext names = Suc a" using k by (auto simp: kzalloc_def split: if_splits)
  have dom: "set (ys @ zs) = (\<lambda>a. 4 * a) ` dom (kobj (user_names s))" using inv by (simp add: user_inv_def)
  have new: "4 * a \<notin> set (ys @ zs)" using dom al(3) by auto
  have fr: "4 * a \<notin> wl_known (wlocks s)" using inv nx(1) by (simp add: user_inv_def)
  have old: "deref names (l div 4) = name_of s l" if lx: "l \<in> set (ys @ zs)" for l
  proof -
    obtain b where "l = 4 * b" using lx [unfolded dom] by blast
    then show ?thesis using lx new by (auto simp: deref_def al(4) name_of_def)
  qed
  define key where "key l = deref names (l div 4)" for l
  have kn: "key (4 * a) = w" by (simp add: key_def deref_def al(4))
  have "map key (ys @ zs) = map (name_of s) (ys @ zs)" by (rule map_cong) (simp_all add: old key_def del: map_append)
  then have "sorted_wrt (<) (map key (ys @ zs))" using inv unfolding user_inv_def by (simp only:)
  moreover have "\<forall>x\<in>set ys. key x < key (4 * a)" "\<forall>y\<in>set zs. key (4 * a) < key y" using lt old kn by (auto simp: key_def)
  ultimately obtain h where h: "rb_insert (4 * a) p (user_wake_locks s) = Some h" "rb_seq h (ys @ 4 * a # zs)"
    "sorted_wrt (<) (map key (ys @ 4 * a # zs))"
    using rbt.insert_sorted [OF g, of "4 * a" key] al(2) by (auto simp: rb_valid_def)
  let ?s = "s\<lparr>user_wake_locks := h, user_names := names, wlocks := wake_lock_init (4 * a) (of_nat WAKE_LOCK_SUSPEND) w (wlocks s)\<rparr>"
  have nm: "name_of ?s = key" by (simp add: fun_eq_iff name_of_def key_def)
  have "\<forall>l\<in>set (ys @ 4 * a # zs). CHR 0x00 \<notin> set (key l) \<and> l \<in> wl_known (wlocks ?s) \<and> lock_type (locks (wlocks ?s) l) = 0"
    using inv w kn old unfolding user_inv_def known_init type_init key_def by (auto simp: known_init type_init)
  moreover have "set (ys @ 4 * a # zs) = (\<lambda>a. 4 * a) ` dom (kobj names)" using dom al(4) by auto
  moreover have "\<forall>b\<ge>Suc a. 4 * b \<notin> wl_known (wlocks ?s)" using inv nx unfolding user_inv_def by (auto simp: known_init)
  moreover have sel: "user_wake_locks ?s = h" "user_names ?s = names" by simp_all
  ultimately have "user_inv ?s (ys @ 4 * a # zs)" using h(2,3) al(1) unfolding user_inv_def nm sel nx(2) by blast
  then show ?thesis using h(1) new fr kn old by (auto simp: key_def)
qed

lemma lookup_ok:
  assumes inv: "user_inv s xs" and p: "parse_lock buf tp = Some (w, d)" "CHR 0x00 \<notin> set buf"
  obtains l where "l \<in> set xs" "name_of s l = w" "lookup_wake_lock_name buf al tp s = Some (Inr (l, d), s)"
  | "w \<notin> name_of s ` set xs" "\<not> al" "lookup_wake_lock_name buf al tp s = Some (Inl EINVAL, s)"
  | names where "w \<notin> name_of s ` set xs" "al" "kzalloc w (user_names s) = (None, names)"
      "lookup_wake_lock_name buf al tp s = Some (Inl ENOMEM, s\<lparr>user_names := names\<rparr>)"
  | l s' ys where "w \<notin> name_of s ` set xs" "al" "lookup_wake_lock_name buf al tp s = Some (Inr (l, d), s')" "user_inv s' ys"
      "set ys = insert l (set xs)" "l \<notin> set xs" "l \<notin> wl_known (wlocks s)" "name_of s' l = w" "\<forall>k\<in>set xs. name_of s' k = name_of s k"
      "wlocks s' = wake_lock_init l (of_nat WAKE_LOCK_SUSPEND) w (wlocks s)"
proof -
  have w: "CHR 0x00 \<notin> set w" using parse_name(5) [OF p(1)] p(2) by auto
  from lookup_found [OF inv parse_name(1,2) [OF p(1)] w] show thesis
  proof
    assume "\<exists>l\<in>set xs. name_of s l = w \<and> lookup_loop buf (length w) s (rb_root (user_wake_locks s)) 0 Link_root = Some (Inl l)"
    then show thesis using that(1) p(1) by (auto simp: lookup_wake_lock_name_def)
  next
    assume "\<exists>q ys zs. rb_gap (user_wake_locks s) q ys zs \<and> xs = ys @ zs \<and>
      lookup_loop buf (length w) s (rb_root (user_wake_locks s)) 0 Link_root = Some (Inr q) \<and>
      (\<forall>l\<in>set ys. name_of s l < w) \<and> (\<forall>l\<in>set zs. w < name_of s l)"
    then obtain q1 q2 ys zs where g: "rb_gap (user_wake_locks s) (q1, q2) ys zs" "xs = ys @ zs"
      "lookup_loop buf (length w) s (rb_root (user_wake_locks s)) 0 Link_root = Some (Inr (q1, q2))"
      "\<forall>l\<in>set ys. name_of s l < w" "\<forall>l\<in>set zs. w < name_of s l" by auto
    then have n: "w \<notin> name_of s ` set xs" by auto
    obtain r names where k: "kzalloc w (user_names s) = (r, names)" by fastforce
    show thesis
    proof (cases "al \<and> r \<noteq> None")
      case True
      then obtain a where a: "r = Some a" by auto
      obtain h where h: "rb_insert (4 * a) (q1, q2) (user_wake_locks s) = Some h"
        "user_inv (s\<lparr>user_wake_locks := h, user_names := names,
           wlocks := wake_lock_init (4 * a) (of_nat WAKE_LOCK_SUSPEND) w (wlocks s)\<rparr>) (ys @ 4 * a # zs)"
        "4 * a \<notin> wl_known (wlocks s)" "4 * a \<notin> set (ys @ zs)" "deref names a = w" "\<forall>l\<in>set (ys @ zs). deref names (l div 4) = name_of s l"
        using user_new [OF inv [unfolded g(2)] g(1) w g(4,5) k [unfolded a]] by blast
      show thesis by (rule that(4) [OF n _ _ h(2)])
        (use h(1,3-6) True a k g(2,3) p(1) in \<open>auto simp: lookup_wake_lock_name_def rb_insert_def name_of_def Let_def\<close>)
    next
      case False
      then show thesis using that(2,3) n k g(3) p(1) by (auto simp: lookup_wake_lock_name_def)
    qed
  qed
qed

section \<open>The machine with user locks\<close>

text \<open>No step of the wake lock machine changes the type of a registered lock.\<close>

lemma query_type:
  assumes "a_inv (wl_abs_of s)" "has_wake_lock t s = Some (n, s')"
  shows "lock_type (locks s' k) = lock_type (locks s k)" "wl_known s' = wl_known s"
proof -
  have "t < 2" using assms(2) by (auto simp: has_wake_lock_def has_wake_lock_locked_def WAKE_LOCK_TYPE_COUNT_def split: if_splits)
  from has_wake_lock_abs [OF assms(1) this] assms(2)
  have "a_frame (if permanent (wl_abs_of s) t then {} else expired_locks (wl_abs_of s) t) (wl_abs_of s) (wl_abs_of s')" by auto
  then show "lock_type (locks s' k) = lock_type (locks s k)" "wl_known s' = wl_known s" unfolding a_frame_def by auto
qed

lemma lock_abs:
  assumes "a_inv (wl_abs_of s)" "l \<in> wl_known s"
  shows "\<exists>s'. wake_lock_internal l d has s = Some s' \<and> a_lock l (if has then Some d else None) (wl_abs_of s) = Some (wl_abs_of s') \<and>
    (\<forall>k. lock_type (locks s' k) = lock_type (locks s k)) \<and> wl_known s' = wl_known s"
proof -
  obtain b where b: "a_lock l (if has then Some d else None) (wl_abs_of s) = Some b" "known b = known (wl_abs_of s)"
    "\<forall>k. v_type (views b k) = v_type (views (wl_abs_of s) k)"
    using a_lock_ok [OF assms(1), of l "if has then Some d else None"] assms(2) by auto
  then obtain s' where s': "wake_lock_internal l d has s = Some s'" "wl_abs_of s' = b"
    using abs_wake_lock_internal [of l d has s] by (cases "wake_lock_internal l d has s") auto
  then show ?thesis using b by auto
qed

lemma lock_type_step:
  assumes "wl_step (s, e) (s', e')" "wl_ok (s, e)" "k \<in> wl_known s"
  shows "lock_type (locks s' k) = lock_type (locks s k)"
proof -
  note inv = wl_okD(1) [OF assms(2)]
  from assms(1) show ?thesis
  proof cases
  case (ws_lock l d has)
  then show ?thesis using lock_abs [OF inv, of l d has] by auto
next
  case (ws_unlock l)
  then have "v_type (views (wl_abs_of s') k) = v_type (views (wl_abs_of s) k)"
    using a_unlock_ok [OF inv, of l] unfolding ws_unlock abs_wake_unlock by simp
  then show ?thesis by simp
next
  case (ws_init l t name)
  then have "k \<noteq> l" using assms(3) by auto
  then show ?thesis using ws_init by (simp add: wake_lock_init_def add_inactive_def upd_lock_def)
next
  case (ws_destroy l)
  have "v_type (views (wl_abs_of (wake_lock_destroy l s)) k) = v_type (views (wl_abs_of s) k)"
    unfolding abs_destroy by (simp add: a_destroy_def)
  then show ?thesis using ws_destroy by simp
next
  case (ws_query t n)
  then show ?thesis using query_type(1) [OF inv] by blast
next
  case (ws_timer t)
  let ?s = "s\<lparr>expire_timer := None\<rparr>"
  have i: "a_inv (wl_abs_of ?s)" using inv by (simp add: abs_timer)
  obtain n r where r: "has_wake_lock 0 ?s = Some (n, r)" "s' = (if n = 0 then queue_work suspend_work r else r)"
    using expire_wake_locks_abs [OF i] ws_timer by auto
  then show ?thesis using query_type(1) [OF i r(1), of k] by (simp add: queue_work_def)
next
  case (ws_suspend ws)
  let ?s = "s\<lparr>suspend_work_queue := ws\<rparr>"
  have i: "a_inv (wl_abs_of ?s)" using inv by (simp add: abs_works)
  obtain n r where r: "has_wake_lock 0 ?s = Some (n, r)" using has_wake_lock_abs [OF i, of 0] by auto
  then have "s' = r" using ws_suspend by (auto simp: suspend_begin_def WAKE_LOCK_SUSPEND_def split: if_splits)
  then show ?thesis using query_type(1) [OF i r, of k] by simp
next
  case (ws_suspend_late r n)
  obtain n r where r: "has_wake_lock 0 s = Some (n, r)" using has_wake_lock_abs [OF inv, of 0] by auto
  then have "s' = r\<lparr>wait_for_wakeup := True\<rparr>" using ws_suspend_late by (auto simp: power_suspend_late_def WAKE_LOCK_SUSPEND_def)
  then show ?thesis using query_type(1) [OF inv r, of k] by simp
next
  case (ws_resume n)
  moreover have "unknown_wakeup \<in> wl_known s" using wl_okD(2) [OF assms(2)] by (auto simp: static_locks_def)
  ultimately show ?thesis using lock_abs [OF inv, of unknown_wakeup "word_of_int (HZ div 2)" True]
    by (auto simp: suspend_end_def wake_lock_timeout_def split: if_splits)
  qed (auto simp: queue_work_def)
qed

section \<open>Which locks are held\<close>

text \<open>A lock is held while it is active and its timeout, if it has one, has not run out.\<close>

definition a_held :: "wl_abs \<Rightarrow> addr \<Rightarrow> bool" where
  "a_held a l \<longleftrightarrow> v_active (views a l) \<and> (v_auto (views a l) \<longrightarrow> 0 < a_left a l)"

lemma known_active: "a_inv a \<Longrightarrow> l \<in> known a \<Longrightarrow> v_active (views a l) \<longleftrightarrow> l \<in> set (act a 0) \<union> set (act a 1)"
  using a_invD(5) [of a l] a_invD(6) [of a 0 l] a_invD(6) [of a 1 l] by (auto simp: known_def)

lemma held_frame:
  assumes inv: "a_inv a" and fr: "a_frame (if permanent a 0 then {} else expired_locks a 0) a b" and k: "k \<in> known a"
  shows "a_held b k = a_held a k"
proof (cases "k \<in> (if permanent a 0 then {} else expired_locks a 0)")
  case True
  then have e: "k \<in> set (act a 0)" "a_left a k \<le> 0" "v_auto (views a k)"
    by (auto simp: expired_locks_def permanent_def split: if_splits)
  have "k \<notin> set (act a 1)" using e(1) a_invD(4) [OF inv] by auto
  then have "k \<notin> set (act b 0) \<union> set (act b 1)" using fr True by (auto simp: a_frame_def less_two)
  then have "\<not> v_active (views b k)" using known_active [of b k] fr k by (simp add: a_frame_def)
  then show ?thesis using e by (simp add: a_held_def)
next
  case False
  then show ?thesis using fr by (simp add: a_held_def a_frame_def)
qed

lemma held_schedule [simp]: "a_held (a_schedule n a) k = a_held a k" "a_held (a\<lparr>event_num := m\<rparr>) k = a_held a k"
  by (simp_all add: a_held_def a_schedule_def a_left_def)

lemma held_has:
  assumes "a_inv a" "a_has (act a 0) 0 a = (n, b)" "k \<in> known a"
  shows "a_held b k = a_held a k"
  using a_has_result [OF assms(1), of 0] held_frame [OF assms(1)] assms(2,3) by auto

lemma held_insert:
  assumes "a_inv a" "l \<in> known a"
  shows "a_held (a_insert l d a) k = (if k = l then (case d of None \<Rightarrow> True | Some n \<Rightarrow> 0 < sint n) else a_held a k)"
  using a_insert_inv(4,6) [OF assms, where d = d] a_insert_inv(5) [OF assms, where d = d and k = k] by (auto simp: a_held_def a_left_def split: option.split)

lemma held_lock:
  assumes inv: "a_inv a" and l: "l \<in> known a" "v_type (views a l) = 0" and b: "a_lock l d a = Some b" and k: "k \<in> known a"
  shows "a_held b k = (if k = l then (case d of None \<Rightarrow> True | Some n \<Rightarrow> 0 < sint n) else a_held a k)"
proof -
  let ?a = "(a_insert l d a)\<lparr>event_num := event_num (a_insert l d a) + 1\<rparr>"
  have i: "a_inv ?a" "k \<in> known ?a" using a_insert_inv(1,2) [OF inv l(1), where d = d] k by simp_all
  obtain n c where c: "(if d = None then (-1, ?a) else a_has (act ?a 0) 0 ?a) = (n, c)" by fastforce
  then have "b = a_schedule n c" using b l known_view [OF inv l(1)] by (simp add: a_lock_def Let_def)
  moreover have "a_held c k = a_held ?a k" using c held_has [OF i(1) _ i(2)] by (auto split: if_splits)
  ultimately show ?thesis by (simp add: held_insert [OF inv l(1)])
qed

lemma held_unlock:
  assumes inv: "a_inv a" and l: "l \<in> known a" "v_type (views a l) = 0" and k: "k \<in> known a"
  shows "a_held (a_unlock l a) k \<longleftrightarrow> k \<noteq> l \<and> a_held a k"
proof -
  let ?a = "a_release l a"
  have i: "a_inv ?a" "k \<in> known ?a" using a_release_inv [OF inv l(1)] k by simp_all
  obtain n c where c: "a_has (act ?a 0) 0 ?a = (n, c)" by fastforce
  then have "a_held (a_unlock l a) k = a_held ?a k" using held_has [OF i(1) c i(2)] l(2) by (simp add: a_unlock_def Let_def)
  then show ?thesis using a_release_sets(5,6) [OF inv, where l = l and k = k] by (auto simp: a_held_def)
qed

lemma held_init: "a_held (a_init l t name a) k \<longleftrightarrow> k \<noteq> l \<and> a_held a k"
  by (simp add: a_held_def a_init_def a_left_def)

text \<open>The same for the code: the names of the user locks that are held.\<close>

definition lock_held :: "wakelocks \<Rightarrow> addr \<Rightarrow> bool" where
  "lock_held w l \<longleftrightarrow> wake_lock_active w l \<and> (flags (locks w l) AND WAKE_LOCK_AUTO_EXPIRE \<noteq> 0 \<longrightarrow> 0 < time_left w l)"

definition user_nodes :: "user_locks \<Rightarrow> addr set" where
  "user_nodes s = (\<lambda>a. 4 * a) ` dom (kobj (user_names s))"

definition user_all :: "user_locks \<Rightarrow> string set" where
  "user_all s = name_of s ` user_nodes s"

definition user_held :: "user_locks \<Rightarrow> string set" where
  "user_held s = name_of s ` {l \<in> user_nodes s. lock_held (wlocks s) l}"

lemma lock_held_abs: "lock_held w l = a_held (wl_abs_of w) l"
  by (simp add: lock_held_def view_flag_iff a_held_def a_left_def time_left_def)

text \<open>Initialising, locking and unlocking a suspend lock are steps of the machine, and change only that lock.\<close>

lemma init_step:
  fixes name
  assumes r: "wl_reachable (w, e)" and l: "l \<notin> wl_known w"
  defines "w' \<equiv> wake_lock_init l (of_nat WAKE_LOCK_SUSPEND) name w"
  shows "wl_reachable (w', e)" "lock_held w' k \<longleftrightarrow> k \<noteq> l \<and> lock_held w k"
proof -
  show "wl_reachable (w', e)" unfolding w'_def by (rule wr_step [OF r ws_init [OF l]]) (simp add: WAKE_LOCK_SUSPEND_def)
  show "lock_held w' k \<longleftrightarrow> k \<noteq> l \<and> lock_held w k"
    unfolding lock_held_abs w'_def abs_init by (simp add: held_init)
qed

lemma lock_step:
  assumes r: "wl_reachable (w, e)" and l: "l \<in> wl_known w" "lock_type (locks w l) = 0"
  shows "\<exists>w'. (if d \<noteq> 0 then wake_lock_timeout l d w else wake_lock l w) = Some w' \<and> wl_reachable (w', e) \<and> wl_known w' = wl_known w \<and>
    (\<forall>k. lock_type (locks w' k) = lock_type (locks w k)) \<and>
    (\<forall>k\<in>wl_known w. lock_held w' k = (if k = l then d = 0 \<or> 0 < sint d else lock_held w k))"
proof -
  have inv: "a_inv (wl_abs_of w)" using wl_okD(1) [OF reachable_ok [OF r]] .
  obtain w' where w': "wake_lock_internal l d (d \<noteq> 0) w = Some w'"
    "a_lock l (if d \<noteq> 0 then Some d else None) (wl_abs_of w) = Some (wl_abs_of w')"
    "\<forall>k. lock_type (locks w' k) = lock_type (locks w k)" "wl_known w' = wl_known w" using lock_abs [OF inv l(1)] by blast
  have "(if d \<noteq> 0 then wake_lock_timeout l d w else wake_lock l w) = Some w'"
    using w'(1) by (cases "d = 0") (simp_all add: wake_lock_timeout_def wake_lock_def)
  moreover have "wl_reachable (w', e)" using wr_step [OF r ws_lock [OF l(1) w'(1)]] .
  moreover have "\<forall>k\<in>wl_known w. lock_held w' k = (if k = l then d = 0 \<or> 0 < sint d else lock_held w k)"
    unfolding lock_held_abs using held_lock [OF inv _ _ w'(2)] l by auto
  ultimately show ?thesis using w'(3,4) by blast
qed

lemma unlock_step:
  assumes r: "wl_reachable (w, e)" and l: "l \<in> wl_known w" "lock_type (locks w l) = 0"
  shows "wl_reachable (wake_unlock l w, e)" "wl_known (wake_unlock l w) = wl_known w"
    "lock_type (locks (wake_unlock l w) k) = lock_type (locks w k)"
    "k \<in> wl_known w \<Longrightarrow> lock_held (wake_unlock l w) k \<longleftrightarrow> k \<noteq> l \<and> lock_held w k"
proof -
  have inv: "a_inv (wl_abs_of w)" using wl_okD(1) [OF reachable_ok [OF r]] .
  show "wl_reachable (wake_unlock l w, e)" using wr_step [OF r ws_unlock [OF l(1)]] .
  note U = a_unlock_ok [OF inv, of l, unfolded abs_wake_unlock [symmetric]]
  show "wl_known (wake_unlock l w) = wl_known w" "lock_type (locks (wake_unlock l w) k) = lock_type (locks w k)" using U l(1) by auto
  show "lock_held (wake_unlock l w) k \<longleftrightarrow> k \<noteq> l \<and> lock_held w k" if "k \<in> wl_known w"
    unfolding lock_held_abs abs_wake_unlock using held_unlock [OF inv] l that by simp
qed

section \<open>Locking and unlocking from user space\<close>

definition user_ok :: "user_locks \<times> u32 option \<Rightarrow> bool" where
  "user_ok p \<longleftrightarrow> (case p of (s, e) \<Rightarrow> wl_reachable (wlocks s, e) \<and> (\<exists>xs. user_inv s xs))"

lemma user_okE:
  assumes "user_ok (s, e)"
  obtains xs where "user_inv s xs" "wl_reachable (wlocks s, e)"
  using assms unfolding user_ok_def by auto

lemma user_okI: "user_inv s xs \<Longrightarrow> wl_reachable (wlocks s, e) \<Longrightarrow> user_ok (s, e)"
  unfolding user_ok_def by auto

lemma user_inv_nodes: "user_inv s xs \<Longrightarrow> set xs = user_nodes s"
  by (simp add: user_inv_def user_nodes_def)

lemma user_inv_inj: "user_inv s xs \<Longrightarrow> inj_on (name_of s) (set xs)"
proof -
  assume "user_inv s xs"
  then have "distinct (map (name_of s) xs)" unfolding user_inv_def
    using strict_sorted_iff by blast
  then show ?thesis by (simp add: distinct_map)
qed

lemma name_of_wlocks [simp]: "name_of (s\<lparr>wlocks := w\<rparr>) = name_of s"
  by (simp add: name_of_def fun_eq_iff)

lemma user_nodes_wlocks [simp]: "user_nodes (s\<lparr>wlocks := w\<rparr>) = user_nodes s" "user_all (s\<lparr>wlocks := w\<rparr>) = user_all s"
  by (simp_all add: user_nodes_def user_all_def)

lemma user_inv_wlocks:
  assumes "user_inv s xs" "\<forall>l\<in>set xs. l \<in> wl_known w \<and> lock_type (locks w l) = 0"
    "\<forall>a\<ge>knext (user_names s). 4 * a \<notin> wl_known w"
  shows "user_inv (s\<lparr>wlocks := w\<rparr>) xs"
  using assms unfolding user_inv_def name_of_wlocks by simp

lemma user_inv_lock: "user_inv s xs \<Longrightarrow> l \<in> set xs \<Longrightarrow> l \<in> wl_known (wlocks s) \<and> lock_type (locks (wlocks s) l) = 0"
  by (simp add: user_inv_def)

text \<open>Changing whether one user lock is held.\<close>

lemma user_held_upd:
  assumes inv: "user_inv s xs" and l: "l \<in> set xs"
    and w: "\<forall>k\<in>set xs. lock_held w k = (if k = l then c else lock_held (wlocks s) k)"
  shows "user_held (s\<lparr>wlocks := w\<rparr>) = (if c then insert (name_of s l) (user_held s) else user_held s - {name_of s l})"
proof -
  define H where "H = {k \<in> set xs. lock_held (wlocks s) k}"
  have e: "{k \<in> set xs. lock_held w k} = (if c then insert l H else H - {l})"
  proof (rule set_eqI)
    fix k
    show "k \<in> {k \<in> set xs. lock_held w k} \<longleftrightarrow> k \<in> (if c then insert l H else H - {l})"
      using w l by (cases "k = l"; cases "k \<in> set xs") (simp_all add: H_def)
  qed
  have h: "user_held s = name_of s ` H" "user_held (s\<lparr>wlocks := w\<rparr>) = name_of s ` {k \<in> set xs. lock_held w k}"
    by (simp_all add: user_held_def H_def user_inv_nodes [OF inv])
  have "name_of s ` (H - {l}) = name_of s ` H - {name_of s l}"
    using inj_on_image_set_diff [OF user_inv_inj [OF inv], of H "{l}"] l by (auto simp: H_def)
  then show ?thesis unfolding h e by simp
qed

lemma user_lock:
  assumes inv: "user_inv s xs" and r: "wl_reachable (wlocks s, e)" and l: "l \<in> set xs"
  shows "\<exists>w. (if d \<noteq> 0 then wake_lock_timeout l d (wlocks s) else wake_lock l (wlocks s)) = Some w \<and> user_ok (s\<lparr>wlocks := w\<rparr>, e) \<and>
    user_held (s\<lparr>wlocks := w\<rparr>) = (if d = 0 \<or> 0 < sint d then insert (name_of s l) (user_held s) else user_held s - {name_of s l})"
proof -
  note kl = user_inv_lock [OF inv l]
  obtain w where w: "(if d \<noteq> 0 then wake_lock_timeout l d (wlocks s) else wake_lock l (wlocks s)) = Some w" "wl_reachable (w, e)"
    "wl_known w = wl_known (wlocks s)" "\<forall>k. lock_type (locks w k) = lock_type (locks (wlocks s) k)"
    "\<forall>k\<in>wl_known (wlocks s). lock_held w k = (if k = l then d = 0 \<or> 0 < sint d else lock_held (wlocks s) k)"
    using lock_step [OF r conjunct1 [OF kl] conjunct2 [OF kl], of d] by (elim exE conjE) (rule that)
  have "user_inv (s\<lparr>wlocks := w\<rparr>) xs" 
    by (rule user_inv_wlocks [OF inv]) (use inv w(3,4) in \<open>simp_all add: user_inv_def\<close>)
  then have "user_ok (s\<lparr>wlocks := w\<rparr>, e)" using w(2) by (intro user_okI) simp_all
  moreover have h: "\<forall>k\<in>set xs. lock_held w k = (if k = l then d = 0 \<or> 0 < sint d else lock_held (wlocks s) k)"
    using w(5) user_inv_lock [OF inv] by simp
  note user_held_upd [OF inv l h]
  ultimately show ?thesis using w(1) by (intro exI conjI)
qed

lemma user_unlock:
  assumes inv: "user_inv s xs" and r: "wl_reachable (wlocks s, e)" and l: "l \<in> set xs"
  defines "t \<equiv> s\<lparr>wlocks := wake_unlock l (wlocks s)\<rparr>"
  shows "user_ok (t, e)" "user_held t = user_held s - {name_of s l}"
proof -
  note k = user_inv_lock [OF inv]
  note U = unlock_step [OF r, of l]
  have "user_inv t xs" unfolding t_def by (rule user_inv_wlocks [OF inv]) (use inv U(2,3) k l in \<open>auto simp: user_inv_def\<close>)
  then show "user_ok (t, e)" using U(1) k l by (auto simp: t_def intro: user_okI)
  have "\<forall>j\<in>set xs. lock_held (wake_unlock l (wlocks s)) j = (if j = l then False else lock_held (wlocks s) j)" using U(4) k l by auto
  from user_held_upd [OF inv l this] show "user_held t = user_held s - {name_of s l}" unfolding t_def by simp
qed

lemma c_string_nul: "CHR 0x00 \<notin> set (c_string buf)"
  by (auto simp: c_string_def dest: set_takeWhileD)

lemma user_inv_fail:
  assumes inv: "user_inv s xs" and k: "kzalloc v (user_names s) = (None, names)"
  defines "t \<equiv> s\<lparr>user_names := names\<rparr>"
  shows "user_inv t xs" "user_all t = user_all s" "user_held t = user_held s" "kobj names = kobj (user_names s)"
proof -
  have n: "names = (user_names s)\<lparr>kfail := tl (kfail (user_names s))\<rparr>" using k by (auto simp: kzalloc_def split: if_splits)
  have e: "name_of t = name_of s" "user_nodes t = user_nodes s"
    by (simp_all add: n t_def name_of_def deref_def fun_eq_iff user_nodes_def)
  show "user_inv t xs" using inv unfolding user_inv_def e by (simp add: t_def n kheap_ok_def)
  show "user_all t = user_all s" "user_held t = user_held s" by (simp_all add: user_all_def user_held_def e) (simp add: t_def)
  show "kobj names = kobj (user_names s)" by (simp add: n)
qed

lemma user_held_new:
  assumes inv: "user_inv s xs" "user_inv t ys" and r: "wl_reachable (wlocks s, e)" and l: "set ys = insert l (set xs)" "l \<notin> set xs" "l \<notin> wl_known (wlocks s)"
    and n: "\<forall>k\<in>set xs. name_of t k = name_of s k" and w: "wlocks t = wake_lock_init l (of_nat WAKE_LOCK_SUSPEND) v (wlocks s)"
  shows "wl_reachable (wlocks t, e)" "user_all t = insert (name_of t l) (user_all s)" "user_held t = user_held s"
proof -
  show "wl_reachable (wlocks t, e)" unfolding w by (rule init_step(1) [OF r l(3)])
  have y: "user_nodes t = insert l (set xs)" "user_nodes s = set xs" using user_inv_nodes [OF inv(1)] user_inv_nodes [OF inv(2)] l(1) by auto
  have i: "name_of t ` A = name_of s ` A" if "A \<subseteq> set xs" for A by (rule image_cong) (use n that in auto)
  show "user_all t = insert (name_of t l) (user_all s)" unfolding user_all_def y using i [of "set xs"] by simp
  have "{k \<in> insert l (set xs). lock_held (wlocks t) k} = {k \<in> set xs. lock_held (wlocks s) k}"
    using init_step(2) [OF r l(3)] l(2) unfolding w by auto
  then show "user_held t = user_held s" unfolding user_held_def y using i [of "{k \<in> set xs. lock_held (wlocks s) k}"] by simp
qed

text \<open>Every write to \<open>wake_lock\<close> and \<open>wake_unlock\<close> returns, and its effect.\<close>

lemma store_bad:
  assumes "parse_lock (c_string buf) True = None"
  shows "wake_lock_store buf s = Some (Inl EINVAL, s)"
  using assms by (simp add: wake_lock_store_def lookup_wake_lock_name_def)

lemma store_found:
  assumes ok: "user_ok (s, e)" and p: "parse_lock (c_string buf) True = Some (v, d)" and a: "v \<in> user_all s \<or> fst (kzalloc v (user_names s)) \<noteq> None"
  shows "\<exists>t. wake_lock_store buf s = Some (Inr (length buf), t) \<and> user_ok (t, e) \<and> user_all t = insert v (user_all s) \<and>
    user_held t = (if d = 0 \<or> 0 < sint d then insert v (user_held s) else user_held s - {v})"
proof -
  obtain xs where inv: "user_inv s xs" and r: "wl_reachable (wlocks s, e)" using ok by (rule user_okE)
  have all: "user_all s = name_of s ` set xs" by (simp add: user_all_def user_inv_nodes [OF inv])
  have main: ?thesis if L: "lookup_wake_lock_name (c_string buf) True True s = Some (Inr (l, d), t)" "user_inv t ys" "wl_reachable (wlocks t, e)"
      "l \<in> set ys" "name_of t l = v" "user_all t = insert v (user_all s)" "user_held t = user_held s" for l t ys
  proof -
    obtain w where w: "(if d \<noteq> 0 then wake_lock_timeout l d (wlocks t) else wake_lock l (wlocks t)) = Some w" "user_ok (t\<lparr>wlocks := w\<rparr>, e)"
      "user_held (t\<lparr>wlocks := w\<rparr>) = (if d = 0 \<or> 0 < sint d then insert (name_of t l) (user_held t) else user_held t - {name_of t l})"
      using user_lock [OF L(2,3,4), of d] by (elim exE conjE) (rule that)
    have "wake_lock_store buf s = Some (Inr (length buf), t\<lparr>wlocks := w\<rparr>)" unfolding wake_lock_store_def L(1) using w(1) by simp
    then show ?thesis using w(2,3) L(5-7) by simp
  qed
  show ?thesis
  proof (rule lookup_ok [OF inv p c_string_nul, of True])
    fix l assume "l \<in> set xs" "name_of s l = v" "lookup_wake_lock_name (c_string buf) True True s = Some (Inr (l, d), s)"
    then show ?thesis using main [OF _ inv r] all by (simp add: insert_absorb rev_image_eqI)
  next
    fix l t ys
    assume T: "lookup_wake_lock_name (c_string buf) True True s = Some (Inr (l, d), t)" "user_inv t ys" "set ys = insert l (set xs)" "l \<notin> set xs"
      "l \<notin> wl_known (wlocks s)" "name_of t l = v" "\<forall>k\<in>set xs. name_of t k = name_of s k" "wlocks t = wake_lock_init l (of_nat WAKE_LOCK_SUSPEND) v (wlocks s)"
    note N = user_held_new [OF inv T(2) r T(3-5,7,8)]
    show ?thesis by (rule main [OF T(1,2) N(1)]) (use T(3,6) N(2,3) in simp_all)
  qed (use a all in auto)
qed

lemma store_nomem:
  assumes ok: "user_ok (s, e)" and p: "parse_lock (c_string buf) True = Some (v, d)" and a: "v \<notin> user_all s" "kzalloc v (user_names s) = (None, names)"
  shows "wake_lock_store buf s = Some (Inl ENOMEM, s\<lparr>user_names := names\<rparr>)" "user_ok (s\<lparr>user_names := names\<rparr>, e)"
    "user_all (s\<lparr>user_names := names\<rparr>) = user_all s" "user_held (s\<lparr>user_names := names\<rparr>) = user_held s"
proof -
  obtain xs where inv: "user_inv s xs" and r: "wl_reachable (wlocks s, e)" using ok by (rule user_okE)
  have all: "user_all s = name_of s ` set xs" by (simp add: user_all_def user_inv_nodes [OF inv])
  note F = user_inv_fail [OF inv a(2)]
  show "user_ok (s\<lparr>user_names := names\<rparr>, e)" using F(1) r by (intro user_okI) simp_all
  show "user_all (s\<lparr>user_names := names\<rparr>) = user_all s" "user_held (s\<lparr>user_names := names\<rparr>) = user_held s" by (rule F)+
  show "wake_lock_store buf s = Some (Inl ENOMEM, s\<lparr>user_names := names\<rparr>)"
  proof (rule lookup_ok [OF inv p c_string_nul, of True])
    fix l t ys
    assume T: "lookup_wake_lock_name (c_string buf) True True s = Some (Inr (l, d), t)" "l \<notin> set xs" "set ys = insert l (set xs)" "user_inv t ys"
    have "s \<noteq> t" using user_inv_nodes [OF inv] user_inv_nodes [OF T(4)] T(2,3) by auto
    then have "lookup_wake_lock_name (c_string buf) True True s = Some (Inl ENOMEM, s\<lparr>user_names := names\<rparr>)"
      using p a(2) T(1) by (auto simp: lookup_wake_lock_name_def split: sum.splits bind_splits)
    then show "wake_lock_store buf s = Some (Inl ENOMEM, s\<lparr>user_names := names\<rparr>)" unfolding wake_lock_store_def by simp
  qed (use a all in \<open>auto simp: wake_lock_store_def\<close>)
qed

lemma unlock_store_bad:
  assumes "parse_lock (c_string buf) False = None"
  shows "wake_unlock_store buf s = Some (Inl EINVAL, s)"
  using assms by (simp add: wake_unlock_store_def lookup_wake_lock_name_def)

lemma unlock_store_ok:
  assumes ok: "user_ok (s, e)" and p: "parse_lock (c_string buf) False = Some (v, d)"
  shows "v \<notin> user_all s \<Longrightarrow> wake_unlock_store buf s = Some (Inl EINVAL, s)"
    "v \<in> user_all s \<Longrightarrow> \<exists>t. wake_unlock_store buf s = Some (Inr (length buf), t) \<and> user_ok (t, e) \<and> user_all t = user_all s \<and>
       user_held t = user_held s - {v}"
proof -
  obtain xs where inv: "user_inv s xs" and r: "wl_reachable (wlocks s, e)" using ok by (rule user_okE)
  have all: "user_all s = name_of s ` set xs" by (simp add: user_all_def user_inv_nodes [OF inv])
  show "wake_unlock_store buf s = Some (Inl EINVAL, s)" if "v \<notin> user_all s"
    by (rule lookup_ok [OF inv p c_string_nul, of False]) (use that all in \<open>auto simp: wake_unlock_store_def\<close>)
  show "\<exists>t. wake_unlock_store buf s = Some (Inr (length buf), t) \<and> user_ok (t, e) \<and> user_all t = user_all s \<and> user_held t = user_held s - {v}"
    if "v \<in> user_all s"
  proof (rule lookup_ok [OF inv p c_string_nul, of False])
    fix l assume l: "l \<in> set xs" "name_of s l = v" "lookup_wake_lock_name (c_string buf) False False s = Some (Inr (l, d), s)"
    let ?t = "s\<lparr>wlocks := wake_unlock l (wlocks s)\<rparr>"
    have "wake_unlock_store buf s = Some (Inr (length buf), ?t)" unfolding wake_unlock_store_def l(3) by simp
    then show ?thesis using user_unlock [OF inv r l(1)] l(2) by auto
  qed (use that all in auto)
qed

section \<open>The machine\<close>

text \<open>The steps: a write to \<open>wake_lock\<close>, a write to \<open>wake_unlock\<close>, and any step of the wake lock machine by other code,
  which initialises no lock in memory that the allocator has not handed out and destroys no user lock.\<close>

inductive user_step :: "user_locks \<times> u32 option \<Rightarrow> user_locks \<times> u32 option \<Rightarrow> bool" where
  us_lock: "wake_lock_store buf s = Some (r, t) \<Longrightarrow> user_step (s, e) (t, e)"
| us_unlock: "wake_unlock_store buf s = Some (r, t) \<Longrightarrow> user_step (s, e) (t, e)"
| us_power: "wl_step (wlocks s, e) (w, e') \<Longrightarrow> \<forall>a\<ge>knext (user_names s). 4 * a \<notin> wl_known w \<Longrightarrow> user_nodes s \<subseteq> wl_known w \<Longrightarrow>
    user_step (s, e) (s\<lparr>wlocks := w\<rparr>, e')"

definition user_initial :: "user_locks \<times> u32 option \<Rightarrow> bool" where
  "user_initial p \<longleftrightarrow> (case p of (s, e) \<Rightarrow> rb_root (user_wake_locks s) = 0 \<and> kheap_ok (user_names s) \<and> kobj (user_names s) = Map.empty \<and>
     wl_reachable (wlocks s, e) \<and> (\<forall>a\<ge>knext (user_names s). 4 * a \<notin> wl_known (wlocks s)))"

inductive user_reachable :: "user_locks \<times> u32 option \<Rightarrow> bool" where
  ur_init: "user_initial p \<Longrightarrow> user_reachable p"
| ur_step: "user_reachable p \<Longrightarrow> user_step p q \<Longrightarrow> user_reachable q"

lemma user_initial_ok: "user_initial (s, e) \<Longrightarrow> user_ok (s, e)"
proof (rule user_okI)
  assume i: "user_initial (s, e)"
  then have "rbtree (user_wake_locks s) Lf" by (simp add: user_initial_def rbtree_def)
  then have "rb_seq (user_wake_locks s) []" unfolding rb_seq_def by (intro exI [of _ Lf]) (simp add: red_black_def)
  then show "user_inv s []" using i by (simp add: user_inv_def user_initial_def)
qed (simp add: user_initial_def)

lemma user_step_ok: "user_step p q \<Longrightarrow> user_ok p \<Longrightarrow> user_ok q"
proof (induction rule: user_step.induct)
  case (us_lock buf s r t e)
  show ?case
  proof (cases "parse_lock (c_string buf) True")
    case None
    then show ?thesis using us_lock store_bad by simp
  next
    case (Some vd)
    obtain v d where vd: "vd = (v, d)" by fastforce
    obtain a names where k: "kzalloc v (user_names s) = (a, names)" by fastforce
    show ?thesis
    proof (cases "v \<in> user_all s \<or> a \<noteq> None")
      case True
      then show ?thesis using store_found [OF us_lock(2) Some [unfolded vd]] us_lock(1) k by auto
    next
      case False
      then show ?thesis using store_nomem(1,2) [OF us_lock(2) Some [unfolded vd], of names] us_lock(1) k by simp
    qed
  qed
next
  case (us_unlock buf s r t e)
  then show ?case
    using unlock_store_bad [of buf s] unlock_store_ok [OF us_unlock(2), of buf] by (cases "parse_lock (c_string buf) False") fastforce+
next
  case (us_power s e w e')
  obtain xs where inv: "user_inv s xs" and r: "wl_reachable (wlocks s, e)" using us_power(4) by (rule user_okE)
  have "\<forall>l\<in>set xs. l \<in> wl_known w \<and> lock_type (locks w l) = 0"
    using us_power(3) user_inv_nodes [OF inv] user_inv_lock [OF inv] lock_type_step [OF us_power(1) reachable_ok [OF r]] by auto
  then have "user_inv (s\<lparr>wlocks := w\<rparr>) xs" using user_inv_wlocks [OF inv] us_power(2) by blast
  moreover have "wl_reachable (w, e')" using wr_step [OF r us_power(1)] .
  ultimately show ?case by (intro user_okI) simp_all
qed

lemma user_reachable_ok: "user_reachable p \<Longrightarrow> user_ok p"
proof (induction rule: user_reachable.induct)
  case (ur_init p)
  then show ?case using user_initial_ok by (cases p) simp
qed (rule user_step_ok)

section \<open>Properties\<close>

text \<open>A system that has booted and has no user lock yet.\<close>

definition booted_users :: user_locks where
  "booted_users = \<lparr>user_wake_locks = \<lparr>rb_nodes = (\<lambda>_. \<lparr>rb_parent_color = 0, rb_right = 0, rb_left = 0\<rparr>), rb_root = 0\<rparr>,
     user_names = \<lparr>kobj = Map.empty, knext = 1, kfail = []\<rparr>, wlocks = booted\<rparr>"

lemma booted_users_reachable: "user_reachable (booted_users, None)"
proof (rule ur_init)
  have "wl_known booted = {1, 2, 3}"
    by (auto simp: wl_known_def booted_active booted_active(2) [unfolded One_nat_def] main_wake_lock_def unknown_wakeup_def deleted_wake_locks_def)
  then show "user_initial (booted_users, None)" by (auto simp: user_initial_def booted_users_def kheap_ok_def booted_reachable)
qed

text \<open>C12: the user locks always form one red-black tree: in every state that writes to \<open>wake_lock\<close> and \<open>wake_unlock\<close> and the rest
  of the kernel's use of wake locks can reach, the tree holds exactly the structures that were allocated, strictly ordered by
  name (so no two locks have the same name), each of them is a registered suspend lock, and the wake locks themselves are in a
  state of the wake lock machine.\<close>

theorem user_locks_invariant:
  assumes "user_reachable (s, e)"
  shows "wl_reachable (wlocks s, e) \<and> (\<exists>t. rbtree (user_wake_locks s) t \<and> red_black t \<and> set (inorder t) = user_nodes s \<and>
     sorted_wrt (<) (map (name_of s) (inorder t))) \<and>
     (\<forall>l\<in>user_nodes s. l \<in> wl_known (wlocks s) \<and> lock_type (locks (wlocks s) l) = WAKE_LOCK_SUSPEND)"
proof -
  obtain xs where inv: "user_inv s xs" and r: "wl_reachable (wlocks s, e)"
    using user_reachable_ok [OF assms] by (rule user_okE)
  then obtain t where "rbtree (user_wake_locks s) t" "red_black t" "inorder t = xs" unfolding user_inv_def rb_seq_def by blast
  then show ?thesis using r inv user_inv_nodes [OF inv] user_inv_lock [OF inv] by (auto simp: user_inv_def WAKE_LOCK_SUSPEND_def)
qed

definition two_users :: user_locks where
  "two_users = snd (the (wake_lock_store ''a'' (snd (the (wake_lock_store ''b'' booted_users)))))"

lemma two_users_reachable: "user_reachable (two_users, None)"
proof -
  have "\<exists>r t. wake_lock_store buf s = Some (r, t)" if "user_reachable (s, e)" for buf s e
    using user_reachable_ok [OF that] store_bad [of buf s] store_found [of s e buf] store_nomem(1) [of s e buf]
    by (cases "parse_lock (c_string buf) True"; cases "kzalloc (fst (the (parse_lock (c_string buf) True))) (user_names s)") fastforce+
  then have "user_reachable (snd (the (wake_lock_store buf s)), e)" if r: "user_reachable (s, e)" for buf s e
    using ur_step [OF r us_lock] r by (metis option.sel snd_conv)
  then show ?thesis unfolding two_users_def using booted_users_reachable by blast
qed

lemma two_users_nodes: "4 \<in> user_nodes two_users" "8 \<in> user_nodes two_users"
proof -
  have "kobj (user_names two_users) 1 = Some ''b''" "kobj (user_names two_users) 2 = Some ''a''" by code_simp+
  then have "(1::nat) \<in> dom (kobj (user_names two_users))" "(2::nat) \<in> dom (kobj (user_names two_users))" by auto
  then show "4 \<in> user_nodes two_users" "8 \<in> user_nodes two_users" unfolding user_nodes_def by force+
qed

lemma two_users_names: "name_of two_users 4 = ''b''" "name_of two_users 8 = ''a''" by code_simp+

theorem user_locks_invariant_witness:
  "\<exists>t. rbtree (user_wake_locks two_users) t \<and> red_black t \<and> 4 \<in> set (inorder t) \<and> 8 \<in> set (inorder t)"
  using user_locks_invariant [OF two_users_reachable] two_users_nodes by auto

text \<open>C14: a write to \<open>wake_lock\<close> always returns. Without a name, or with text after the name that is not a number, it fails with
  EINVAL and changes nothing; when a new lock cannot be allocated it fails with ENOMEM and the locks and the held locks are as
  before. Otherwise it returns the length of the write, the name is one of the locks, and exactly that lock is now held in
  addition, unless the timeout in jiffies is negative as a \<open>long\<close>, in which case it is not held.\<close>

theorem wake_lock_store_correct:
  assumes "user_reachable (s, e)"
  shows "case parse_lock (c_string buf) True of
      None \<Rightarrow> wake_lock_store buf s = Some (Inl EINVAL, s)
    | Some (v, d) \<Rightarrow>
        if v \<notin> user_all s \<and> fst (kzalloc v (user_names s)) = None
        then \<exists>t. wake_lock_store buf s = Some (Inl ENOMEM, t) \<and> user_all t = user_all s \<and> user_held t = user_held s
        else \<exists>t. wake_lock_store buf s = Some (Inr (length buf), t) \<and> user_all t = insert v (user_all s) \<and>
          user_held t = (if d = 0 \<or> 0 < sint d then insert v (user_held s) else user_held s - {v})"
proof (cases "parse_lock (c_string buf) True")
  case None
  then show ?thesis using store_bad by simp
next
  case (Some vd)
  obtain v d where vd: "vd = (v, d)" by fastforce
  obtain a names where k: "kzalloc v (user_names s) = (a, names)" by fastforce
  note ok = user_reachable_ok [OF assms] and p = Some [unfolded vd]
  show ?thesis
  proof (cases "v \<in> user_all s \<or> a \<noteq> None")
    case True
    then obtain t where "wake_lock_store buf s = Some (Inr (length buf), t)" "user_all t = insert v (user_all s)"
      "user_held t = (if d = 0 \<or> 0 < sint d then insert v (user_held s) else user_held s - {v})"
      using store_found [OF ok p] k by auto
    then show ?thesis using True k p by simp
  next
    case False
    then show ?thesis using store_nomem [OF ok p, of names] k p by simp
  qed
qed

theorem wake_lock_store_correct_witness:
  "\<exists>t. wake_lock_store ''a'' booted_users = Some (Inr 1, t) \<and> user_all t = {''a''} \<and> user_held t = {''a''}"
proof -
  have p: "parse_lock (c_string ''a'') True = Some (''a'', 0)" "fst (kzalloc ''a'' (user_names booted_users)) \<noteq> None" by code_simp+
  have n: "user_all booted_users = {}" "user_held booted_users = {}" by (simp_all add: user_all_def user_held_def user_nodes_def booted_users_def)
  show ?thesis using wake_lock_store_correct [OF booted_users_reachable, of "''a''"] p by (simp add: n)
qed

text \<open>C26: a write to \<open>wake_unlock\<close> always returns. If the write is one name, which is a user lock, that lock and no other stops being
  held; for any other write it fails with EINVAL and changes nothing. No lock is ever removed.\<close>

theorem wake_unlock_store_correct:
  assumes "user_reachable (s, e)"
  shows "case parse_lock (c_string buf) False of
      None \<Rightarrow> wake_unlock_store buf s = Some (Inl EINVAL, s)
    | Some (v, d) \<Rightarrow>
        if v \<notin> user_all s then wake_unlock_store buf s = Some (Inl EINVAL, s)
        else \<exists>t. wake_unlock_store buf s = Some (Inr (length buf), t) \<and> user_all t = user_all s \<and> user_held t = user_held s - {v}"
  using unlock_store_bad unlock_store_ok [OF user_reachable_ok [OF assms]]
  by (cases "parse_lock (c_string buf) False") (simp_all, fastforce)

theorem wake_unlock_store_correct_witness:
  "\<exists>t. wake_unlock_store ''a'' two_users = Some (Inr 1, t) \<and> ''b'' \<in> user_all t \<and> ''a'' \<notin> user_held t"
proof -
  have p: "parse_lock (c_string ''a'') False = Some (''a'', 0)" by code_simp
  have n: "''a'' \<in> user_all two_users" "''b'' \<in> user_all two_users"
    using two_users_nodes unfolding user_all_def two_users_names [symmetric] by blast+
  show ?thesis using wake_unlock_store_correct [OF two_users_reachable, of "''a''"] n by (auto simp: p)
qed

text \<open>A user lock that is held stops the suspend work and a suspend that is under way.\<close>

lemma user_held_blocks:
  assumes "user_ok (s, e)" "user_held s \<noteq> {}"
  shows "fst (suspend_begin (wlocks s)) = None" "fst (power_suspend_late (wlocks s)) = Inl EAGAIN"
proof -
  obtain xs where inv: "user_inv s xs" and r: "wl_reachable (wlocks s, e)"
    using assms(1) by (rule user_okE)
  obtain l where l: "l \<in> set xs" "a_held (wl_abs_of (wlocks s)) l"
    using assms(2) by (auto simp: user_held_def user_inv_nodes [OF inv] lock_held_abs)
  note a = wl_okD(1) [OF reachable_ok [OF r]] and k = user_inv_lock [OF inv l(1)]
  have "l \<in> set (active_wake_locks (wlocks s) 0)"
    using known_active [OF a, of l] a_invD(6) [OF a, of 1 l] k l(2) by (auto simp: a_held_def)
  then have "has_result (wl_abs_of (wlocks s)) 0 \<noteq> 0"
    unfolding has_result_zero permanent_def using l(2) by (force simp: a_held_def a_left_def time_left_def)
  then show "fst (suspend_begin (wlocks s)) = None" "fst (power_suspend_late (wlocks s)) = Inl EAGAIN"
    using suspend_result [OF a] by auto
qed

lemma store_held:
  assumes ok: "user_ok (s, e)" and p: "parse_lock (c_string buf) True = Some (v, d)" "d = 0 \<or> 0 < sint d"
    and r: "wake_lock_store buf s = Some (Inr n, t)"
  shows "user_ok (t, e)" "user_held t \<noteq> {}"
proof -
  obtain a names where k: "kzalloc v (user_names s) = (a, names)" by fastforce
  have "v \<in> user_all s \<or> a \<noteq> None" using store_nomem(1) [OF ok p(1), of names] k r by auto
  then show "user_ok (t, e)" "user_held t \<noteq> {}" using store_found [OF ok p(1)] k r p(2) by auto
qed

text \<open>The output of the two files. The buffer is one page, and a page that is full has neither the rest of the names nor the newline.\<close>

lemma take_grow: "length out \<le> n \<Longrightarrow> out @ take (n - length out) x = take n (out @ x)"
  by simp

lemma take_take_append: "take n (take n a @ b) = take n (a @ b)"
  by (cases "length a \<le> n") simp_all

lemma show_loop_ok:
  "length out \<le> 4095 \<Longrightarrow> show_loop P s ls out = take 4095 (out @ concat (map (\<lambda>l. name_of s l @ '' '') (filter P ls)) @ [CHR 0x0A])"
proof (induction P s ls out rule: show_loop.induct)
  case (1 P s out)
  then show ?case by (simp add: scnprintf_def SHOW_SIZE_def)
next
  case (2 P s l ls out)
  let ?x = "out @ scnprintf (SHOW_SIZE - length out) (name_of s l @ '' '')"
  have e: "?x = take 4095 (out @ name_of s l @ '' '')" using 2(2) by (simp add: scnprintf_def SHOW_SIZE_def)
  show ?case
  proof (cases "P l")
    case True
    have "length ?x \<le> 4095" unfolding e by simp
    then have "show_loop P s (l # ls) out = take 4095 (?x @ concat (map (\<lambda>l. name_of s l @ '' '') (filter P ls)) @ [CHR 0x0A])"
      using 2(1) True by simp
    then show ?thesis unfolding e take_take_append using True by simp
  next
    case False
    then show ?thesis using 2 by simp
  qed
qed

lemma show_names:
  assumes "user_inv s xs"
  shows "map (name_of s) (filter P xs) = sorted_list_of_set (name_of s ` {l \<in> user_nodes s. P l})"
proof -
  have "sorted_wrt (<) (map (name_of s) (filter P xs))"
    using assms by (auto simp: user_inv_def sorted_wrt_map intro: sorted_wrt_filter)
  then have "sorted (map (name_of s) (filter P xs)) \<and> distinct (map (name_of s) (filter P xs))" by (simp add: strict_sorted_iff)
  moreover have "set (map (name_of s) (filter P xs)) = name_of s ` {l \<in> user_nodes s. P l}"
    using user_inv_nodes [OF assms] by auto
  ultimately show ?thesis using sorted_list_of_set.idem_if_sorted_distinct by metis
qed

lemma concat_names: "concat (map (\<lambda>l. f l @ y) ls) = concat (map (\<lambda>v. v @ y) (map f ls))"
  by (simp add: comp_def)

definition show_page :: "user_locks \<Rightarrow> (addr \<Rightarrow> bool) \<Rightarrow> string" where
  "show_page s P = take 4095 (concat (map (\<lambda>v. v @ '' '') (sorted_list_of_set (name_of s ` {l \<in> user_nodes s. P l}))) @ [CHR 0x0A])"

text \<open>C31: reading \<open>wake_lock\<close> gives the names of the active user locks, and reading \<open>wake_unlock\<close> those of the inactive ones,
  in ascending order, each followed by a space, and a newline at the end, cut after 4095 characters.\<close>

theorem wake_lock_show_correct:
  assumes "user_reachable (s, e)"
  shows "wake_lock_show s = Some (show_page s (wake_lock_active (wlocks s)))
    \<and> wake_unlock_show s = Some (show_page s (\<lambda>l. \<not> wake_lock_active (wlocks s) l))"
proof -
  obtain xs where inv: "user_inv s xs" using user_reachable_ok [OF assms] by (rule user_okE)
  have "rb_seq (user_wake_locks s) xs" using inv by (simp add: user_inv_def)
  then have w: "rb_walk_all (user_wake_locks s) = Some xs" by (rule rbt.walk_law)
  have "show_loop P s xs [] = show_page s P" for P
    using show_loop_ok [of "[]" P s xs] unfolding show_page_def show_names [OF inv, symmetric] concat_names [of "name_of s"] by simp
  then show ?thesis by (simp add: wake_lock_show_def wake_unlock_show_def w)
qed

theorem wake_lock_show_correct_witness: "wake_lock_show two_users = Some (show_page two_users (wake_lock_active (wlocks two_users))) \<and>
    wake_lock_show two_users = Some (''a b '' @ [CHR 0x0A])"
proof
  show "wake_lock_show two_users = Some (show_page two_users (wake_lock_active (wlocks two_users)))"
    using wake_lock_show_correct [OF two_users_reachable] by blast
  show "wake_lock_show two_users = Some (''a b '' @ [CHR 0x0A])" by code_simp
qed

subsection \<open>Timeouts\<close>

text \<open>The decimal representation of a number, as user space writes it.\<close>

fun decimal :: "nat \<Rightarrow> string" where
  "decimal n = (if n < 10 then [char_of (48 + n)] else decimal (n div 10) @ [char_of (48 + n mod 10)])"

declare decimal.simps [simp del]

lemma strtoull_append:
  assumes "\<forall>c\<in>set ds. isdigit (of_char c)"
  shows "strtoull_loop 10 r (ds @ rest) = strtoull_loop 10 (fst (strtoull_loop 10 r ds)) rest" "snd (strtoull_loop 10 r ds) = []"
  using assms by (induction ds arbitrary: r) (auto simp: Let_def isxdigit_iff isdigit_iff of_char_256)

lemma decimal_digits: "\<forall>c\<in>set (decimal n). isdigit (of_char c)"
  by (induction n rule: decimal.induct) (subst decimal.simps, auto simp: isdigit_iff of_char_256)

lemma strtoull_digit: "k < 10 \<Longrightarrow> strtoull_loop 10 r [char_of (48 + k)] = (r * 10 + of_nat k, [])"
  by (simp add: Let_def isxdigit_iff isdigit_iff of_char_256)

lemma strtoull_decimal: "strtoull_loop 10 0 (decimal n) = (of_nat n, [])"
proof (induction n rule: decimal.induct)
  case (1 n)
  show ?case
  proof (cases "n < 10")
    case True
    then show ?thesis by (subst decimal.simps) (simp add: strtoull_digit del: strtoull_loop.simps)
  next
    case False
    have m: "n mod 10 < 10" by simp
    have "strtoull_loop 10 0 (decimal n) = strtoull_loop 10 (of_nat (n div 10)) [char_of (48 + n mod 10)]"
      using False strtoull_append(1) [OF decimal_digits] 1 by (subst decimal.simps) simp
    also have "\<dots> = (of_nat (n div 10) * 10 + of_nat (n mod 10), [])" by (rule strtoull_digit [OF m])
    also have "(of_nat (n div 10) * 10 + of_nat (n mod 10) :: u64) = of_nat (n div 10 * 10 + n mod 10)" by (simp only: of_nat_add of_nat_mult of_nat_numeral)
    finally show ?thesis by simp
  qed
qed

lemma decimal_first: "0 < n \<Longrightarrow> \<exists>c cs. decimal n = c # cs \<and> of_char c \<noteq> (48::nat)"
proof (induction n rule: decimal.induct)
  case (1 n)
  show ?case
  proof (cases "n < 10")
    case True
    then show ?thesis using 1(2) by (subst decimal.simps) simp
  next
    case False
    then have "0 < n div 10" by (simp add: div_greater_zero_iff)
    then obtain c cs where "decimal (n div 10) = c # cs" "of_char c \<noteq> (48::nat)" using 1(1) [OF False] by auto
    then show ?thesis using False by (subst decimal.simps) simp
  qed
qed

lemma simple_strtoull_decimal: "simple_strtoull (decimal n) 0 = (of_nat n, [])"
proof (cases "n = 0")
  case True
  have "simple_strtoull (decimal 0) 0 = (0, [])" by code_simp
  then show ?thesis using True by simp
next
  case False
  then obtain c cs where c: "decimal n = c # cs" "of_char c \<noteq> (48::nat)" using decimal_first by blast
  then have "simple_guess_base (decimal n) = 10" by (simp add: simple_guess_base_def)
  then show ?thesis using strtoull_decimal [of n] by (simp add: simple_strtoull_def)
qed

lemma parse_decimal:
  assumes v: "v \<noteq> []" "\<forall>c\<in>set v. \<not> isspace c"
  shows "parse_lock (v @ '' '' @ decimal n) True = Some (v, timeout_jiffies (of_nat n))"
proof -
  have sp: "isspace (CHR '' '')" by code_simp
  have nd: "\<not> isspace c" if "c \<in> set (decimal n)" for c
    using decimal_digits [of n] that by (auto simp: isdigit_iff of_char_256 isspace_iff Let_def)
  have ne: "decimal n \<noteq> []" by (subst decimal.simps) simp
  have t: "takeWhile (\<lambda>c. \<not> isspace c) (v @ '' '' @ decimal n) = v" "dropWhile (\<lambda>c. \<not> isspace c) (v @ '' '' @ decimal n) = '' '' @ decimal n"
    using v(2) sp by (simp_all add: takeWhile_append2 dropWhile_append2)
  have d: "dropWhile isspace ('' '' @ decimal n) = decimal n"
    using sp ne nd by (cases "decimal n") auto
  show ?thesis unfolding parse_lock_def Let_def t d simple_strtoull_decimal using v(1) ne by simp
qed

text \<open>The conversion to jiffies.\<close>

lemma timeout_jiffies_uint:
  "uint (timeout_jiffies t) = max 1 ((uint t + 4999999) mod 2 ^ 64 div 5000000) mod 2 ^ 32"
proof -
  define q where "q = (t + 4999999) div (5000000 :: u64)"
  have u: "uint q = (uint t + 4999999) mod 2 ^ 64 div 5000000" by (simp add: q_def uint_div uint_word_ariths)
  have z: "q \<le> 0 \<longleftrightarrow> uint q = 0" by (simp add: unsigned_eq_0_iff)
  have "uint (timeout_jiffies t) = uint (if q \<le> 0 then 1 else q) mod 2 ^ 32"
    by (simp add: timeout_jiffies_def Let_def q_def [symmetric] unsigned_ucast_eq take_bit_eq_mod)
  also have "uint (if q \<le> 0 then 1 else q) = max 1 (uint q)" 
  proof -
    have "0 \<le> uint q" by simp
    then have "uint q = 0 \<or> 1 \<le> uint q" by linarith
    then show ?thesis using z by (auto simp: max_def)
  qed
  finally show ?thesis unfolding u .
qed

lemma timeout_jiffies_ceil:
  assumes "n + 4999999 < 2 ^ 64"
  shows "uint (timeout_jiffies (of_nat n)) = max 1 ((int n + 4999999) div 5000000) mod 2 ^ 32"
proof -
  have "uint (of_nat n :: u64) = int n" using assms by (simp add: unsigned_of_nat take_bit_eq_mod)
  then show ?thesis using assms by (simp add: timeout_jiffies_uint)
qed

lemma sint_uint_32:
  fixes w :: u32
  shows "uint w < 2 ^ 31 \<Longrightarrow> sint w = uint w" "2 ^ 31 \<le> uint w \<Longrightarrow> sint w < 0"
proof -
  show "sint w = uint w" if "uint w < 2 ^ 31"
    using that by (simp add: sint_uint signed_take_bit_eq_if_positive bit_iff_odd take_bit_int_eq_self)
  show "sint w < 0" if "2 ^ 31 \<le> uint w"
  proof -
    have "uint w < 2 ^ 32" using uint_bounded [of w] by simp
    then have "uint w div 2 ^ 31 = 1" using that by (intro int_div_pos_eq [of _ _ _ "uint w - 2 ^ 31"]) simp_all
    then show ?thesis by (simp add: sint_uint bit_iff_odd)
  qed
qed

text \<open>C32: a write of a name, a space and a decimal number of nanoseconds sets a timeout of that many nanoseconds in jiffies, rounded
  up and at least one, as long as these are fewer than \<open>2\<^sup>3\<^sup>1\<close>. The comment of the code promises a positive number of
  jiffies for every timeout, but \<open>long\<close> has 32 bits: longer timeouts become negative, a timeout of exactly \<open>2\<^sup>3\<^sup>2\<close>
  jiffies becomes 0, the value for no timeout, and rounding up wraps the largest numbers of nanoseconds to one jiffy.\<close>

theorem timeout_conversion:
  assumes "v \<noteq> []" "\<forall>c\<in>set v. \<not> isspace c"
  shows "\<exists>d. parse_lock (v @ '' '' @ decimal n) True = Some (v, d) \<and>
    (n \<le> 5000000 * (2 ^ 31 - 1) \<longrightarrow> 0 < sint d \<and> sint d = max 1 ((int n + 4999999) div 5000000)) \<and>
    (5000000 * (2 ^ 31 - 1) < n \<and> n \<le> 5000000 * (2 ^ 32 - 1) \<longrightarrow> sint d < 0) \<and>
    (5000000 * (2 ^ 32 - 1) < n \<and> n \<le> 5000000 * 2 ^ 32 \<longrightarrow> d = 0) \<and>
    (2 ^ 64 - 4999999 \<le> n \<and> n < 2 ^ 64 \<longrightarrow> d = 1)"
proof -
  let ?d = "timeout_jiffies (of_nat n)" and ?j = "max 1 ((int n + 4999999) div 5000000)"
  have c: "uint ?d = ?j mod 2 ^ 32" if "n \<le> 5000000 * 2 ^ 32" using timeout_jiffies_ceil [of n] that by simp
  have "0 < sint ?d \<and> sint ?d = ?j" if "n \<le> 5000000 * (2 ^ 31 - 1)"
  proof -
    have j: "1 \<le> ?j" "?j < 2 ^ 31" using that by auto
    then have "uint ?d = ?j" using c that by simp
    then show ?thesis using j sint_uint_32(1) [of ?d] by simp
  qed
  moreover have "sint ?d < 0" if "5000000 * (2 ^ 31 - 1) < n \<and> n \<le> 5000000 * (2 ^ 32 - 1)"
  proof -
    have j: "2 ^ 31 \<le> ?j" "?j < 2 ^ 32" using that by auto
    then have "uint ?d = ?j" using c that by simp
    then show ?thesis using j sint_uint_32(2) [of ?d] by simp
  qed
  moreover have "?d = 0" if "5000000 * (2 ^ 32 - 1) < n \<and> n \<le> 5000000 * 2 ^ 32"
  proof -
    have "?j = 2 ^ 32" using that by auto
    then have "uint ?d = 0" using c that by simp
    then show ?thesis by (simp add: unsigned_eq_0_iff)
  qed
  moreover have "?d = 1" if "2 ^ 64 - 4999999 \<le> n \<and> n < 2 ^ 64"
  proof -
    have "uint (of_nat n :: u64) = int n" using that by (simp add: unsigned_of_nat take_bit_eq_mod)
    moreover have "(int n + 4999999) mod 2 ^ 64 = int n + 4999999 - 2 ^ 64" 
      using mod_pos_pos_trivial [of "int n + 4999999 - 2 ^ 64" "2 ^ 64"] mod_add_self2 [of "int n + 4999999 - 2 ^ 64" "2 ^ 64"] that by (auto simp: add.commute)
    ultimately have "uint ?d = 1" using that by (simp add: timeout_jiffies_uint)
    then show ?thesis by (metis unsigned_1 unsigned_word_eqI)
  qed
  ultimately show ?thesis using parse_decimal [OF assms] by blast
qed

theorem timeout_conversion_witness:
  "\<exists>d. parse_lock (''a'' @ '' '' @ decimal 5000001) True = Some (''a'', d) \<and> sint d = 2"
proof -
  have "''a'' \<noteq> []" "\<forall>c\<in>set ''a''. \<not> isspace c" by code_simp+
  from timeout_conversion [OF this, of 5000001] show ?thesis by auto
qed

end
