(* ===== verification/Low_Memory.thy ===== *)
theory Low_Memory
  imports Kernel_Prelude
begin

text \<open>
  The low memory killer, \<open>drivers/staging/android/lowmemorykiller.c\<close>: a shrinker that kills one process when both the free pages and the
  pages of files are below a threshold.  The page counters, the time and the processes (in the order of \<open>for_each_process\<close>) are
  inputs.  The local variable \<open>target_offset\<close> of the loop is compared and copied but never set; what it holds when a
  process is visited is an input as well.  The debug output is left out, and with it \<open>target_free\<close>, which is used nowhere.

  The lemmas show when the shrinker kills, that the victim has the highest \<open>oom_adj\<close> of the processes it may kill, and
  that which of the processes with that \<open>oom_adj\<close> it is depends on the variable that is not set.
\<close>

subsection \<open>The model\<close>

definition OOM_ADJUST_MAX :: int where "OOM_ADJUST_MAX = 15"

record lowmem =
  lowmem_adj :: "int list"
  lowmem_adj_size :: int
  lowmem_minfree :: "u32 list"
  lowmem_minfree_size :: int
  lowmem_deathpending :: addr
  lowmem_deathpending_timeout :: u32

definition lowmem_default :: lowmem where
  "lowmem_default = \<lparr>lowmem_adj = [0, 1, 6, 12, 0, 0], lowmem_adj_size = 4,
     lowmem_minfree = [3 * 512, 2 * 1024, 4 * 1024, 16 * 1024, 0, 0], lowmem_minfree_size = 4,
     lowmem_deathpending = 0, lowmem_deathpending_timeout = 0\<rparr>"

text \<open>A process: its address, the pages of its memory unless \<open>mm\<close> is NULL, and its \<open>oom_adj\<close> unless \<open>signal\<close> is NULL.\<close>

record process =
  task :: addr
  task_mm :: "u32 option"
  task_signal :: "int option"

record lowmem_env =
  env_jiffies :: u32
  nr_free_pages :: u32
  nr_file_pages :: u32
  nr_lru_pages :: u32
  processes :: "process list"
  target_offset :: "process \<Rightarrow> int"

definition task_notify_func :: "addr \<Rightarrow> lowmem \<Rightarrow> lowmem" where
  "task_notify_func t s = (if t = lowmem_deathpending s then s\<lparr>lowmem_deathpending := 0\<rparr> else s)"

fun level_loop :: "u32 \<Rightarrow> u32 \<Rightarrow> lowmem \<Rightarrow> nat \<Rightarrow> nat \<Rightarrow> int" where
  "level_loop other_free other_file s i 0 = OOM_ADJUST_MAX + 1"
| "level_loop other_free other_file s i (Suc n) =
     (if other_free < lowmem_minfree s ! i \<and> other_file < lowmem_minfree s ! i then lowmem_adj s ! i
      else level_loop other_free other_file s (Suc i) n)"

definition array_size :: "lowmem \<Rightarrow> nat" where
  "array_size s = nat (min (min 6 (lowmem_adj_size s)) (lowmem_minfree_size s))"

record selection =
  selected :: addr
  selected_tasksize :: int
  selected_target_offset :: int
  selected_oom_adj :: int

fun select_loop :: "(process \<Rightarrow> int) \<Rightarrow> int \<Rightarrow> process list \<Rightarrow> selection \<Rightarrow> selection" where
  "select_loop offset min_adj [] sel = sel"
| "select_loop offset min_adj (p # ps) sel =
     select_loop offset min_adj ps
       (case (task_mm p, task_signal p) of
          (Some rss, Some oom_adj) \<Rightarrow>
            if oom_adj < min_adj then sel
            else let tasksize = sint rss in
              if tasksize \<le> 0 then sel
              else if selected sel \<noteq> 0 \<and> (oom_adj < selected_oom_adj sel
                \<or> oom_adj = selected_oom_adj sel \<and> offset p \<ge> selected_target_offset sel) then sel
              else \<lparr>selected = task p, selected_tasksize = tasksize, selected_target_offset = offset p,
                    selected_oom_adj = oom_adj\<rparr>
        | _ \<Rightarrow> sel)"

text \<open>The result of the shrinker, the process that is sent \<open>SIGKILL\<close>, and the state. \<open>HZ\<close> is 200.\<close>

definition lowmem_shrink :: "lowmem_env \<Rightarrow> int \<Rightarrow> lowmem \<Rightarrow> int \<times> addr option \<times> lowmem" where
  "lowmem_shrink env nr_to_scan s =
     (if lowmem_deathpending s \<noteq> 0 \<and> sint (lowmem_deathpending_timeout s - env_jiffies env) \<ge> 0 then (0, None, s)
      else
        let min_adj = level_loop (nr_free_pages env) (nr_file_pages env) s 0 (array_size s);
            rem = sint (nr_lru_pages env) in
        if nr_to_scan \<le> 0 \<or> min_adj = OOM_ADJUST_MAX + 1 then (rem, None, s)
        else
          let sel = select_loop (target_offset env) min_adj (processes env)
                \<lparr>selected = 0, selected_tasksize = 0, selected_target_offset = 0, selected_oom_adj = min_adj\<rparr> in
          if selected sel \<noteq> 0
          then (rem - selected_tasksize sel, Some (selected sel),
                s\<lparr>lowmem_deathpending := selected sel, lowmem_deathpending_timeout := env_jiffies env + 200\<rparr>)
          else (-1, None, s))"

subsection \<open>The threshold\<close>

text \<open>Level \<open>i\<close> is reached when both counters are below its threshold; the first level that is reached counts.\<close>

definition level_reached :: "lowmem_env \<Rightarrow> lowmem \<Rightarrow> nat \<Rightarrow> bool" where
  "level_reached env s i \<longleftrightarrow> i < array_size s \<and> nr_free_pages env < lowmem_minfree s ! i \<and> nr_file_pages env < lowmem_minfree s ! i"

definition lowmem_level :: "lowmem_env \<Rightarrow> lowmem \<Rightarrow> nat option" where
  "lowmem_level env s = find (level_reached env s) [0..<array_size s]"

lemma level_loop_find:
  "i + n \<le> array_size s \<Longrightarrow> level_loop (nr_free_pages env) (nr_file_pages env) s i n =
     (case find (level_reached env s) [i..<i + n] of None \<Rightarrow> OOM_ADJUST_MAX + 1 | Some j \<Rightarrow> lowmem_adj s ! j)"
proof (induction n arbitrary: i)
  case (Suc n)
  have "[i..<i + Suc n] = i # [Suc i..<Suc i + n]" by (simp add: upt_rec)
  then show ?case using Suc by (auto simp: level_reached_def)
qed simp

lemma level_loop_level:
  "level_loop (nr_free_pages env) (nr_file_pages env) s 0 (array_size s) =
     (case lowmem_level env s of None \<Rightarrow> OOM_ADJUST_MAX + 1 | Some j \<Rightarrow> lowmem_adj s ! j)"
  using level_loop_find [of 0 "array_size s" s env] by (simp add: lowmem_level_def)

lemma lowmem_level_iff:
  "lowmem_level env s = Some j \<longleftrightarrow> level_reached env s j \<and> (\<forall>i<j. \<not> level_reached env s i)"
  "lowmem_level env s = None \<longleftrightarrow> (\<forall>i. \<not> level_reached env s i)"
proof -
  show "lowmem_level env s = Some j \<longleftrightarrow> level_reached env s j \<and> (\<forall>i<j. \<not> level_reached env s i)"
    unfolding lowmem_level_def find_Some_iff by (auto simp: level_reached_def)
  show "lowmem_level env s = None \<longleftrightarrow> (\<forall>i. \<not> level_reached env s i)"
    unfolding lowmem_level_def find_None_iff by (auto simp: level_reached_def)
qed

subsection \<open>The victim\<close>

text \<open>The processes that may be killed: those with memory whose \<open>oom_adj\<close> is at least the one of the level.\<close>

definition may_kill :: "int \<Rightarrow> process \<Rightarrow> bool" where
  "may_kill min_adj p \<longleftrightarrow> (\<exists>rss adj. task_mm p = Some rss \<and> task_signal p = Some adj \<and> 0 < sint rss \<and> min_adj \<le> adj)"

definition adj_of :: "process \<Rightarrow> int" where "adj_of p = the (task_signal p)"
definition size_of :: "process \<Rightarrow> int" where "size_of p = sint (the (task_mm p))"

lemma select_step:
  "select_loop f m (p # ps) sel = select_loop f m ps
     (if may_kill m p \<and> \<not> (selected sel \<noteq> 0 \<and> (adj_of p < selected_oom_adj sel
          \<or> adj_of p = selected_oom_adj sel \<and> f p \<ge> selected_target_offset sel))
      then \<lparr>selected = task p, selected_tasksize = size_of p, selected_target_offset = f p, selected_oom_adj = adj_of p\<rparr> else sel)"
  by (auto simp: may_kill_def adj_of_def size_of_def Let_def split: option.split)

definition chosen :: "int \<Rightarrow> process list \<Rightarrow> selection \<Rightarrow> bool" where
  "chosen m ps sel \<longleftrightarrow> (if selected sel = 0 then \<forall>p\<in>set ps. \<not> may_kill m p
     else \<exists>p\<in>set ps. may_kill m p \<and> selected sel = task p \<and> selected_tasksize sel = size_of p \<and> selected_oom_adj sel = adj_of p
       \<and> (\<forall>q\<in>set ps. may_kill m q \<longrightarrow> adj_of q \<le> adj_of p))"

lemma chosen_Cons:
  assumes "chosen m ps sel" "task p \<noteq> 0"
  shows "chosen m (ps @ [p]) (if may_kill m p \<and> \<not> (selected sel \<noteq> 0 \<and> (adj_of p < selected_oom_adj sel
          \<or> adj_of p = selected_oom_adj sel \<and> f p \<ge> selected_target_offset sel))
      then \<lparr>selected = task p, selected_tasksize = size_of p, selected_target_offset = f p, selected_oom_adj = adj_of p\<rparr> else sel)"
proof (cases "may_kill m p \<and> \<not> (selected sel \<noteq> 0 \<and> (adj_of p < selected_oom_adj sel
          \<or> adj_of p = selected_oom_adj sel \<and> f p \<ge> selected_target_offset sel))")
  case True
  have "\<forall>q\<in>set ps. may_kill m q \<longrightarrow> adj_of q \<le> adj_of p"
    using assms(1) True unfolding chosen_def by (cases "selected sel = 0") (simp, force)
  then show ?thesis using True assms(2) by (simp add: chosen_def)
next
  case False
  then have "may_kill m p \<longrightarrow> selected sel \<noteq> 0 \<and> adj_of p \<le> selected_oom_adj sel" by auto
  then have "chosen m (ps @ [p]) sel" using assms(1) unfolding chosen_def by (cases "selected sel = 0") auto
  then show ?thesis by (simp only: False if_False)
qed

lemma select_chosen:
  "chosen m qs sel \<Longrightarrow> \<forall>p\<in>set ps. task p \<noteq> 0 \<Longrightarrow> chosen m (qs @ ps) (select_loop f m ps sel)"
proof (induction ps arbitrary: qs sel)
  case (Cons p ps)
  show ?case unfolding select_step
    using Cons.IH [OF chosen_Cons [OF Cons.prems(1), of p f]] Cons.prems(2) by simp
qed simp

subsection \<open>Properties\<close>

text \<open>C30: the low memory killer kills at most one process at a time and the right kind of process. While a killed process has not been freed,
  for \<open>HZ\<close> jiffies, it does nothing; when only asked for a count, or when no threshold is passed, it returns the number of pages. Otherwise, with
  the \<open>oom_adj\<close> of the first threshold that both counters are below, it returns -1 if there is no process with
  memory and at least that \<open>oom_adj\<close>, and else kills one of them whose \<open>oom_adj\<close> is the highest and remembers it.\<close>

theorem lowmem_shrink_correct:
  assumes "\<forall>p\<in>set (processes env). task p \<noteq> 0" "\<forall>i<array_size s. lowmem_adj s ! i \<le> OOM_ADJUST_MAX"
  shows "if lowmem_deathpending s \<noteq> 0 \<and> sint (lowmem_deathpending_timeout s - env_jiffies env) \<ge> 0
      then lowmem_shrink env n s = (0, None, s)
    else case lowmem_level env s of
      None \<Rightarrow> lowmem_shrink env n s = (sint (nr_lru_pages env), None, s)
    | Some i \<Rightarrow>
        if n \<le> 0 then lowmem_shrink env n s = (sint (nr_lru_pages env), None, s)
        else if \<forall>p\<in>set (processes env). \<not> may_kill (lowmem_adj s ! i) p then lowmem_shrink env n s = (-1, None, s)
        else \<exists>p\<in>set (processes env). may_kill (lowmem_adj s ! i) p
          \<and> (\<forall>q\<in>set (processes env). may_kill (lowmem_adj s ! i) q \<longrightarrow> adj_of q \<le> adj_of p)
          \<and> lowmem_shrink env n s = (sint (nr_lru_pages env) - size_of p, Some (task p),
               s\<lparr>lowmem_deathpending := task p, lowmem_deathpending_timeout := env_jiffies env + 200\<rparr>)"
proof (cases "lowmem_level env s")
  case None
  then show ?thesis by (simp add: lowmem_shrink_def Let_def level_loop_level)
next
  case (Some i)
  let ?m = "lowmem_adj s ! i"
  let ?sel = "select_loop (target_offset env) ?m (processes env)
      \<lparr>selected = 0, selected_tasksize = 0, selected_target_offset = 0, selected_oom_adj = ?m\<rparr>"
  have "chosen ?m [] \<lparr>selected = 0, selected_tasksize = 0, selected_target_offset = 0, selected_oom_adj = ?m\<rparr>"
    by (simp add: chosen_def)
  from select_chosen [OF this assms(1)] have c: "chosen ?m (processes env) ?sel" by simp
  have "?m \<le> OOM_ADJUST_MAX" using Some assms(2) by (simp add: lowmem_level_iff level_reached_def)
  then have e: "lowmem_shrink env n s =
      (if lowmem_deathpending s \<noteq> 0 \<and> sint (lowmem_deathpending_timeout s - env_jiffies env) \<ge> 0 then (0, None, s)
       else if n \<le> 0 then (sint (nr_lru_pages env), None, s)
       else if selected ?sel \<noteq> 0 then (sint (nr_lru_pages env) - selected_tasksize ?sel, Some (selected ?sel),
         s\<lparr>lowmem_deathpending := selected ?sel, lowmem_deathpending_timeout := env_jiffies env + 200\<rparr>) else (-1, None, s))"
    using Some by (simp add: lowmem_shrink_def Let_def level_loop_level)
  show ?thesis
  proof (cases "selected ?sel = 0")
    case True
    then show ?thesis using c Some by (auto simp: e chosen_def)
  next
    case False
    then obtain p where "p \<in> set (processes env)" "may_kill ?m p" "selected ?sel = task p" "selected_tasksize ?sel = size_of p"
      "\<forall>q\<in>set (processes env). may_kill ?m q \<longrightarrow> adj_of q \<le> adj_of p" using c by (auto simp: chosen_def)
    then show ?thesis using False Some by (auto simp: e)
  qed
qed

definition proc_of :: "addr \<Rightarrow> u32 \<Rightarrow> int \<Rightarrow> process" where
  "proc_of t rss adj = \<lparr>task = t, task_mm = Some rss, task_signal = Some adj\<rparr>"

definition low_env :: "process list \<Rightarrow> (process \<Rightarrow> int) \<Rightarrow> lowmem_env" where
  "low_env ps f = \<lparr>env_jiffies = 0, nr_free_pages = 1000, nr_file_pages = 1000, nr_lru_pages = 5000, processes = ps, target_offset = f\<rparr>"

theorem lowmem_shrink_correct_witness:
  "\<exists>s. lowmem_shrink (low_env [proc_of 1 100 0, proc_of 2 200 8] (\<lambda>_. 0)) 1 lowmem_default = (4800, Some 2, s)"
proof -
  let ?env = "low_env [proc_of 1 100 0, proc_of 2 200 8] (\<lambda>_. 0)"
  have a: "\<forall>p\<in>set (processes ?env). task p \<noteq> 0" "\<forall>i<array_size lowmem_default. lowmem_adj lowmem_default ! i \<le> OOM_ADJUST_MAX"
    "lowmem_level ?env lowmem_default = Some 0" "lowmem_deathpending lowmem_default = 0" "sint (nr_lru_pages ?env) = 5000"
    by code_simp+
  have k: "may_kill 0 (proc_of 1 100 0)" "may_kill 0 (proc_of 2 200 8)" by (simp_all add: may_kill_def proc_of_def)
  show ?thesis
    using lowmem_shrink_correct [OF a(1,2), of 1] k unfolding a(3,4)
    by (auto simp: low_env_def lowmem_default_def adj_of_def size_of_def proc_of_def)
qed



end
