(* ===== verification/Spec2Isabelle.thy ===== *)
theory Spec2Isabelle
  imports Kernel_List Ashmem Logger Suspend_Core Pmem User_Wakelock Low_Memory
begin

text \<open>
  \<^bold>\<open>The Android kernel components of G3MOD\<close>

  The repository is the kernel of a phone (Linux 2.6.32, ARM, Samsung S5P6442) with the Android additions. This
  library models the parts that Android adds to or relies on in the kernel, as they are configured for the device
  (\<open>cyanogenmod_apollo_defconfig\<close>). All paths are relative to \<open>src/Kernel\<close>.

  \<^bold>\<open>Parts and theories\<close>

  \<^item> \<open>Kernel_Prelude\<close>: machine integers, addresses, error numbers (\<open>errno-base.h\<close>), the copies from and to
    user space, and lemmas on lists and words. \<open>Kernel_Slab\<close>: the contract of \<open>kzalloc\<close> and \<open>kfree\<close>
    (locale \<open>object_cache\<close>); whether an allocation fails is an input.
  \<^item> \<open>Kernel_List\<close>: \<open>include/linux/list.h\<close>, the pointers of circular lists. The locale \<open>intrusive_list\<close> states
    what clients use; its interpretation justifies that the other theories keep lists as lists of addresses.
  \<^item> \<open>Ashmem\<close>: \<open>mm/ashmem.c\<close>. The record \<open>ashmem\<close> holds the areas, the unpinned ranges and the LRU list; every file
    operation, ioctl and the shrinker is a function on it. The invariant holds in every reachable state, and pinning,
    unpinning, purging and the status query are set operations on pages.
  \<^item> \<open>Logger\<close>: \<open>drivers/staging/android/logger.c\<close>. A ring buffer of bytes with readers; a log refines bounded queues
    of entries, one for each reader.
  \<^item> \<open>Wakelock\<close>: \<open>kernel/power/wakelock.c\<close>. Lists of active and inactive locks, their timer and the suspend work as
    a step relation; no suspend is lost, and none happens while a lock is held.
  \<^item> \<open>Early_Suspend\<close>: \<open>kernel/power/earlysuspend.c\<close> and the state file of \<open>kernel/power/main.c\<close>, on top of the wake
    locks: requests interleave with the calls of the handlers.
  \<^item> \<open>Dpm\<close>: \<open>drivers/base/power/main.c\<close>, the phases that prepare, suspend, resume and complete the devices.
    \<open>Suspend_Core\<close>: \<open>kernel/power/suspend.c\<close> with the helper lock of \<open>kernel/kmod.c\<close> and the frequency lock of the
    platform: whatever fails, the steps taken are undone.
  \<^item> \<open>Pmem_Alloc\<close>: the buddy allocator of \<open>drivers/misc/pmem.c\<close> (locale \<open>block_allocator\<close>). \<open>Pmem\<close>: the files of that
    driver, their connections, mappings and page tables (\<open>mm/memory.c\<close>, \<open>drivers/char/misc.c\<close>).
  \<^item> \<open>Kernel_RBTree\<close>: \<open>lib/rbtree.c\<close> and \<open>include/linux/rbtree.h\<close> at the level of the pointers and of the word that packs
    parent and colour. Insertion, removal, replacement and traversal work on red-black trees and keep the order of the other
    nodes; the locale \<open>ordered_nodes\<close> is what clients use.
  \<^item> \<open>User_Wakelock\<close>: \<open>kernel/power/userwakelock.c\<close>, the wake locks that user space takes by name, on top of the wake
    locks and the trees, with the parsing functions of \<open>lib/vsprintf.c\<close>, \<open>lib/string.c\<close> and \<open>lib/ctype.c\<close> that it calls. The
    step relation joins writes to the two files with all steps of the wake lock machine; a write changes the set of held
    names by exactly the given name.
  \<^item> \<open>Low_Memory\<close>: \<open>drivers/staging/android/lowmemorykiller.c\<close>, the choice of the process that is killed when memory is
    low; the page counters, the time and the processes are inputs.

  This theory joins the parts that work together: a wake lock, of the kernel or of user space, stops a system suspend
  through the callback of the \<open>power\<close> device.

  \<^bold>\<open>Conventions\<close>

  A structure of the code is a record, an operation a function from the state to its result and the new state.
  \<open>Inl e\<close> or \<open>Some e\<close> of type \<open>errno\<close> is the error \<open>-e\<close>. An outcome \<open>None\<close> of a state transformer is a stop of the kernel
  (\<open>BUG_ON\<close>, a NULL dereference) or a loop that does not end; theorems that an operation succeeds therefore also say that it
  returns. Loops are structural recursions, functions with a termination proof, or partial functions in the
  option monad; no fuel is used. Locks and semaphores are not modelled: they make the operations atomic, and where the
  code gives them up in between (early suspend, the race in the logger) the model has separate steps. Machine
  integers that can wrap around are words.

  \<^bold>\<open>Not modelled\<close>

  The slab allocator, the scheduler, the freezer, hibernation (not configured), the binder driver, the drivers of the
  hardware and the generic kernel: the components see them only through results that are inputs of the model. Debug
  output and the registration of modules have no effect on the modelled state. Concurrency below the level of the
  kernel's locks is not modelled.
\<close>

section \<open>Wake locks and system suspend\<close>

text \<open>While the late handler of the wake locks refuses, a system suspend is undone before the platform is entered.\<close>

lemma late_handler_refuses:
  assumes "fst (power_suspend_late w) = Inl EAGAIN" "pm_quiet s" "p \<in> set (dpm_list (dpm_part s))" "dev_bus (device (dpm_part s) p) = Some b"
    and "layer_pm b = Some ops" "op_suspend_noirq ops" "env_dev env = power_device_env p w base" "pm_suspend env state s = Some (err, t)"
  shows "entered t = entered s \<and> flags_of t = flags_of s \<and> devices_back (dpm_part s) (dpm_part t)"
proof -
  have "\<forall>n. env_dev env n p Bus Suspend_noirq \<noteq> None" using assms(1) by (simp add: assms(7) power_device_env_def)
  then have "entered t = entered s"
    by (rule entered_refused [OF assms(8) pm_quietD(9) [OF assms(2)] assms(3-6)])
  then show ?thesis using pm_suspend_back [OF assms(8,2)] by blast
qed





end
